(* ===== verification/Prelude.thy ===== *)
theory Prelude
  imports Main "HOL-Library.Word" "HOL-Library.Signed_Division"
begin

unbundle bit_operations_syntax

text \<open>
  What every component shares: the machine integers of the Go program, the arithmetic of
  Go's \<open>int64\<close> (wrap-around, division that truncates towards zero), and the facts on
  64-bit words that the ring buffer rests on.

  Unsigned counters that the code reads modulo a mask are kept as 64-bit words. Signed
  quantities (durations, nanosecond clocks, token counts) are integers in the \<open>int64\<close>
  range; every operation of the code that can leave the range is wrapped by \<open>wrap64\<close>.
\<close>

type_synonym u64 = "64 word"
type_synonym u32 = "32 word"
type_synonym u8 = "8 word"

named_theorems go_arith \<comment> \<open>facts that decide Go's machine arithmetic\<close>

subsection \<open>Go's \<open>int64\<close>\<close>

definition min_i64 :: int where "min_i64 = - (2 ^ 63)"
definition max_i64 :: int where "max_i64 = 2 ^ 63 - 1"

definition in_i64 :: "int \<Rightarrow> bool" where
  "in_i64 x \<longleftrightarrow> min_i64 \<le> x \<and> x \<le> max_i64"

text \<open>The value an \<open>int64\<close> expression really has: the result modulo \<open>2^64\<close>, read
  as two's complement.\<close>

definition wrap64 :: "int \<Rightarrow> int" where
  "wrap64 x = (x + 2 ^ 63) mod 2 ^ 64 - 2 ^ 63"

lemma wrap64_id [simp]: "in_i64 x \<Longrightarrow> wrap64 x = x"
  by (simp add: wrap64_def in_i64_def min_i64_def max_i64_def)

lemma wrap64_in_i64 [simp]: "in_i64 (wrap64 x)"
proof -
  have "0 \<le> (x + 2 ^ 63) mod 2 ^ 64" and "(x + 2 ^ 63) mod 2 ^ 64 < (2 ^ 64 :: int)"
    by simp_all
  then show ?thesis
    by (simp add: wrap64_def in_i64_def min_i64_def max_i64_def)
qed

lemma in_i64_between: "in_i64 a \<Longrightarrow> in_i64 b \<Longrightarrow> a \<le> x \<Longrightarrow> x \<le> b \<Longrightarrow> in_i64 x"
  by (simp add: in_i64_def)

lemma in_i64_0 [simp]: "in_i64 0"
  by (simp add: in_i64_def min_i64_def max_i64_def)

lemma wrap64_add [simp]: "wrap64 (wrap64 x + y) = wrap64 (x + y)" "wrap64 (x + wrap64 y) = wrap64 (x + y)"
  by (simp_all add: wrap64_def mod_simps algebra_simps)

lemma wrap64_diff [simp]: "wrap64 (wrap64 x - y) = wrap64 (x - y)"
  using wrap64_add(1) [of x "- y"] by simp

lemma wrap64_shift: "wrap64 (z - 2 ^ 64 * m) = wrap64 z"
proof -
  have "z - 2 ^ 64 * m + 2 ^ 63 = (z + 2 ^ 63) + 2 ^ 64 * (- m)"
    by simp
  then show ?thesis
    by (simp only: wrap64_def mod_mult_self2)
qed

lemma wrap64_eq_diff: "wrap64 x = x - 2 ^ 64 * ((x + 2 ^ 63) div 2 ^ 64)"
  by (simp add: wrap64_def minus_mult_div_eq_mod [symmetric])

lemma wrap64_mult [simp]: "wrap64 (wrap64 x * y) = wrap64 (x * y)"
proof -
  have "wrap64 x * y = x * y - 2 ^ 64 * (((x + 2 ^ 63) div 2 ^ 64) * y)"
    by (subst wrap64_eq_diff) (simp only: left_diff_distrib mult.assoc)
  then show ?thesis
    by (simp only: wrap64_shift)
qed

lemma wrap64_le: "0 \<le> x \<Longrightarrow> wrap64 x \<le> x"
  using zmod_le_nonneg_dividend [of "x + 2 ^ 63" "2 ^ 64"] by (simp add: wrap64_def)

lemma sdiv_pos: "0 < b \<Longrightarrow> 0 \<le> a \<Longrightarrow> a sdiv b = a div (b :: int)"
  by (cases "a = 0") (simp_all add: signed_divide_int_def)

lemma sdiv_gt_0:
  assumes "0 < b" and "0 < a sdiv b"
  shows "0 < (a :: int)"
proof (rule ccontr)
  assume "\<not> 0 < a"
  moreover have "0 \<le> \<bar>a\<bar> div \<bar>b\<bar>"
    using assms(1) by (simp add: pos_imp_zdiv_nonneg_iff)
  ultimately have "a sdiv b \<le> 0"
    using assms(1) by (cases "a = 0") (simp_all add: signed_divide_int_def)
  with assms(2) show False by simp
qed

text \<open>\<open>time.Time.Sub\<close>: a duration that saturates.\<close>

definition time_sub :: "int \<Rightarrow> int \<Rightarrow> int" where
  "time_sub a b = max min_i64 (min max_i64 (a - b))"

text \<open>Subtraction of two \<open>uint64\<close> counters converted to \<open>int64\<close>, as the ring does
  it: \<open>int64(a) - int64(b)\<close>.\<close>

definition dif64 :: "u64 \<Rightarrow> u64 \<Rightarrow> int" where
  "dif64 a b = wrap64 (sint a - sint b)"

lemma sint_eq_wrap64: "sint (of_int x :: u64) = wrap64 x"
  by (simp add: wrap64_def signed_of_int signed_take_bit_eq_take_bit_shift take_bit_eq_mod)

lemma dif64_eq_sint: "dif64 a b = sint (a - b)"
proof -
  have "a - b = of_int (sint a - sint b)"
    by simp
  then show ?thesis
    by (metis dif64_def sint_eq_wrap64)
qed

lemma dif64_eq_0_iff [go_arith]: "dif64 a b = 0 \<longleftrightarrow> a = b"
  by (metis dif64_eq_sint eq_iff_diff_eq_0 signed_word_eqI sint_0)

lemma dif64_behind [go_arith]: "dif64 p (p + 1) < 0"
proof -
  have "p - (p + 1) = (of_int (- 1) :: u64)"
    by simp
  then have "dif64 p (p + 1) = wrap64 (- 1)"
    by (metis dif64_eq_sint sint_eq_wrap64)
  then show ?thesis
    by (simp add: wrap64_def)
qed

lemma dif64_full [go_arith]:
  assumes "1 \<le> k" and "k \<le> 63"
  shows "dif64 (p + 1) (p + of_nat (2 ^ k)) < 0"
proof -
  have lo: "(2::int) \<le> 2 ^ k"
    using power_increasing [OF assms(1), of "2::int"] by simp
  have hi: "(2::int) ^ k \<le> 2 ^ 63"
    using assms(2) by (rule power_increasing) simp
  have "(p + 1) - (p + of_nat (2 ^ k)) = (of_int (1 - 2 ^ k) :: u64)"
    by simp
  then have "dif64 (p + 1) (p + of_nat (2 ^ k)) = wrap64 (1 - 2 ^ k)"
    by (metis dif64_eq_sint sint_eq_wrap64)
  also have "\<dots> = 1 - 2 ^ k"
    using lo hi by (intro wrap64_id) (simp add: in_i64_def min_i64_def max_i64_def)
  finally show ?thesis
    using lo by linarith
qed

subsection \<open>Positions in a power-of-two buffer\<close>

text \<open>Masking with \<open>2^k - 1\<close> is reduction modulo \<open>2^k\<close>, and the 64-bit wrap-around of
  a counter does not disturb it, because \<open>2^k\<close> divides \<open>2^64\<close>.\<close>

lemma unat_and_mask: "unat (p AND (2 ^ k - 1) :: u64) = unat p mod 2 ^ k"
proof -
  have "p AND (2 ^ k - 1) = take_bit k p"
    by (simp add: take_bit_eq_mask mask_eq_exp_minus_1)
  then have "unat (p AND (2 ^ k - 1) :: u64) = take_bit k (unat p)"
    by (simp only: unsigned_take_bit_eq)
  then show ?thesis
    by (simp only: take_bit_nat_def)
qed

lemma unat_exp:
  assumes "j < 64"
  shows "unat (2 ^ j :: u64) = 2 ^ j"
proof -
  have "(2::nat) ^ j < 2 ^ LENGTH(64)"
    using assms by (intro power_strict_increasing) simp_all
  then have "unat (of_nat (2 ^ j) :: u64) = 2 ^ j"
    by (subst unat_of_nat) (rule mod_less)
  then show ?thesis
    by (simp only: of_nat_power of_nat_numeral)
qed

lemma unat_plus_mod:
  assumes "k \<le> 64"
  shows "unat (p + of_nat i :: u64) mod 2 ^ k = (unat p + i) mod 2 ^ k"
proof -
  have d: "(2::nat) ^ k dvd 2 ^ 64"
    using assms by (rule le_imp_power_dvd)
  have "unat (p + of_nat i :: u64) = (unat p + i) mod 2 ^ 64"
    by (simp add: unat_word_ariths unat_of_nat mod_add_right_eq)
  with d show ?thesis
    by (simp add: mod_mod_cancel)
qed

lemma mod_eq_small:
  assumes "i < n" and "j < n" and "(a + i) mod n = (a + j) mod (n::nat)"
  shows "i = j"
proof -
  have "n dvd (a + i) - (a + j)" and "n dvd (a + j) - (a + i)"
    using assms(3) by (metis dvd_minus_mod mod_eq_dvd_iff_nat nat_le_linear diff_is_0_eq dvd_0_right)+
  then have "n dvd i - j" and "n dvd j - i"
    by simp_all
  with assms(1,2) show ?thesis
    by (meson diff_is_0_eq dvd_imp_le le_antisym less_imp_diff_less not_le zero_less_diff)
qed

lemma mod_gap:
  assumes "a mod c = b mod (c::nat)" and "a < b"
  shows "a + c \<le> b"
proof -
  have "c dvd b - a"
    using assms by (metis mod_eq_dvd_iff_nat less_imp_le)
  then have "c \<le> b - a"
    using assms(2) by (auto dest: dvd_imp_le)
  then show ?thesis
    using assms(2) by linarith
qed

lemma mod_Suc_neq:
  assumes "2 \<le> (c::nat)"
  shows "Suc p mod c \<noteq> p mod c"
  using mod_gap [of p c "Suc p"] assms by auto

lemma unat_plus_small:
  assumes "unat (a :: u64) + unat b < 2 ^ 64"
  shows "unat (a + b) = unat a + unat b"
  using assms by (simp add: unat_word_ariths)

lemma nth_update_any: "j < length xs \<Longrightarrow> xs[j := c] ! i = (if i = j then c else xs ! i)"
  by (cases "i = j") simp_all

lemma unat_bound: "unat (w :: u64) < 2 ^ 64"
  by (rule order_less_le_trans [OF unsigned_less]) simp

lemma unat_of_nat_small: "n < 2 ^ 64 \<Longrightarrow> unat (of_nat n :: u64) = n"
  by (simp add: unat_of_nat)

end
