(* ===== verification/Queues.thy ===== *)
theory Queues
  imports Prelude
begin

text \<open>
  The contract of a bounded first-in first-out queue, as the clients of the ring buffer and
  of the segmented queue rely on it. An operation returns \<open>None\<close> when the code would not
  return. What the clients need of a whole history of calls (nothing lost, nothing
  invented, nothing reordered) is proved once here, for every implementation of the
  contract.
\<close>

datatype 'v qop = QEnq 'v | QDeq

datatype 'v qres = Accepted 'v | Refused 'v | Delivered 'v | WasEmpty

fun q_step :: "('q \<Rightarrow> 'v \<Rightarrow> ('q \<times> bool) option) \<Rightarrow> ('q \<Rightarrow> ('q \<times> 'v \<times> bool) option) \<Rightarrow>
    'q \<Rightarrow> 'v qop \<Rightarrow> ('q \<times> 'v qres) option" where
  "q_step enq deq q (QEnq v) =
     map_option (\<lambda>(q', ok). (q', if ok then Accepted v else Refused v)) (enq q v)"
| "q_step enq deq q QDeq =
     map_option (\<lambda>(q', v, ok). (q', if ok then Delivered v else WasEmpty)) (deq q)"

fun q_run :: "('q \<Rightarrow> 'v \<Rightarrow> ('q \<times> bool) option) \<Rightarrow> ('q \<Rightarrow> ('q \<times> 'v \<times> bool) option) \<Rightarrow>
    'q \<Rightarrow> 'v qop list \<Rightarrow> ('q \<times> 'v qres list) option" where
  "q_run enq deq q [] = Some (q, [])"
| "q_run enq deq q (op # ops) =
     (case q_step enq deq q op of
        None \<Rightarrow> None
      | Some (q', r) \<Rightarrow> map_option (\<lambda>(q'', rs). (q'', r # rs)) (q_run enq deq q' ops))"

fun accepted :: "'v qres list \<Rightarrow> 'v list" where
  "accepted [] = []"
| "accepted (Accepted v # rs) = v # accepted rs"
| "accepted (_ # rs) = accepted rs"

fun delivered :: "'v qres list \<Rightarrow> 'v list" where
  "delivered [] = []"
| "delivered (Delivered v # rs) = v # delivered rs"
| "delivered (_ # rs) = delivered rs"

lemma q_run_length: "q_run enq deq q ops = Some (q', rs) \<Longrightarrow> length rs = length ops"
  by (induction ops arbitrary: q rs) (auto split: option.splits)

locale bounded_fifo =
  fixes enq :: "'q \<Rightarrow> 'v \<Rightarrow> ('q \<times> bool) option"
    and deq :: "'q \<Rightarrow> ('q \<times> 'v \<times> bool) option"
    and contents :: "'q \<Rightarrow> 'v list"
    and invar :: "'q \<Rightarrow> bool"
    and full :: "'q \<Rightarrow> bool"
    and nil :: 'v
  assumes enq_free: "invar q \<Longrightarrow> \<not> full q \<Longrightarrow>
      \<exists>q'. enq q v = Some (q', True) \<and> invar q' \<and> contents q' = contents q @ [v]"
    and enq_full: "invar q \<Longrightarrow> full q \<Longrightarrow> enq q v = Some (q, False)"
    and deq_front: "invar q \<Longrightarrow> contents q = x # xs \<Longrightarrow>
      \<exists>q'. deq q = Some (q', x, True) \<and> invar q' \<and> contents q' = xs"
    and deq_empty: "invar q \<Longrightarrow> contents q = [] \<Longrightarrow>
      \<exists>q'. deq q = Some (q', nil, False) \<and> invar q' \<and> contents q' = []"
begin

lemma enq_cases:
  assumes "invar q"
  obtains q' where "\<not> full q" "enq q v = Some (q', True)" "invar q'" "contents q' = contents q @ [v]"
  | "full q" "enq q v = Some (q, False)"
  using assms enq_free enq_full by blast

lemma deq_cases:
  assumes "invar q"
  obtains x q' where "contents q = x # contents q'" "deq q = Some (q', x, True)" "invar q'"
  | q' where "contents q = []" "deq q = Some (q', nil, False)" "invar q'" "contents q' = []"
  using assms deq_front deq_empty by (metis neq_Nil_conv)

text \<open>One call: it returns, keeps the invariant, and moves exactly one element or none.\<close>

lemma step_conserves:
  assumes "invar q"
  shows "\<exists>q' r. q_step enq deq q op = Some (q', r) \<and> invar q' \<and>
           contents q @ accepted [r] = delivered [r] @ contents q'"
proof (cases op)
  case (QEnq v)
  with assms show ?thesis
    by (cases rule: enq_cases [where q = q and v = v]) (auto simp: assms)
next
  case QDeq
  with assms show ?thesis
    by (cases rule: deq_cases [where q = q]) auto
qed

lemma accepted_Cons: "accepted (r # rs) = accepted [r] @ accepted rs"
  by (cases r) auto

lemma delivered_Cons: "delivered (r # rs) = delivered [r] @ delivered rs"
  by (cases r) auto

text \<open>A whole history: the values in the queue before it, followed by the accepted ones,
  are the delivered ones followed by what is left, in this order.\<close>

lemma run_conserves:
  assumes "invar q"
  shows "\<exists>q' rs. q_run enq deq q ops = Some (q', rs) \<and> invar q' \<and>
           contents q @ accepted rs = delivered rs @ contents q'"
  using assms
proof (induction ops arbitrary: q)
  case Nil
  then show ?case by simp
next
  case (Cons op ops)
  obtain q1 r where s: "q_step enq deq q op = Some (q1, r)" "invar q1"
      "contents q @ accepted [r] = delivered [r] @ contents q1"
    using step_conserves [OF Cons.prems] by blast
  obtain q2 rs where t: "q_run enq deq q1 ops = Some (q2, rs)" "invar q2"
      "contents q1 @ accepted rs = delivered rs @ contents q2"
    using Cons.IH [OF s(2)] by blast
  have "contents q @ accepted (r # rs) = delivered (r # rs) @ contents q2"
    using s(3) t(3) accepted_Cons [of r rs] delivered_Cons [of r rs]
    by (metis append_assoc)
  with s t show ?case by simp
qed

lemma run_inv: "invar q \<Longrightarrow> q_run enq deq q ops = Some (q', rs) \<Longrightarrow> invar q'"
  using run_conserves [of q ops] by auto

end

text \<open>The abstract bounded queue: a list that refuses a value when it holds \<open>cap\<close> of
  them. An implementation whose fullness is exactly "as many elements as its capacity"
  answers every history of calls as this list does.\<close>

fun bq_step :: "nat \<Rightarrow> 'v list \<Rightarrow> 'v qop \<Rightarrow> 'v list \<times> 'v qres" where
  "bq_step cap xs (QEnq v) =
     (if length xs < cap then (xs @ [v], Accepted v) else (xs, Refused v))"
| "bq_step cap [] QDeq = ([], WasEmpty)"
| "bq_step cap (x # xs) QDeq = (xs, Delivered x)"

fun bq_run :: "nat \<Rightarrow> 'v list \<Rightarrow> 'v qop list \<Rightarrow> 'v list \<times> 'v qres list" where
  "bq_run cap xs [] = (xs, [])"
| "bq_run cap xs (op # ops) =
     (let (xs', r) = bq_step cap xs op; (xs'', rs) = bq_run cap xs' ops in (xs'', r # rs))"

locale capped_fifo = bounded_fifo +
  fixes cap :: "'a \<Rightarrow> nat"
  assumes full_cap: "invar q \<Longrightarrow> full q \<longleftrightarrow> length (contents q) = cap q"
    and within_cap: "invar q \<Longrightarrow> length (contents q) \<le> cap q"
    and cap_enq: "invar q \<Longrightarrow> enq q v = Some (q', ok) \<Longrightarrow> cap q' = cap q"
    and cap_deq: "invar q \<Longrightarrow> deq q = Some (q', v, ok) \<Longrightarrow> cap q' = cap q"
begin

lemma step_refines:
  assumes "invar q"
  shows "\<exists>q' r. q_step enq deq q op = Some (q', r) \<and> invar q' \<and> cap q' = cap q \<and>
           bq_step (cap q) (contents q) op = (contents q', r)"
proof (cases op)
  case (QEnq v)
  show ?thesis
    using assms
  proof (cases rule: enq_cases [where q = q and v = v])
    case (1 q')
    then have "length (contents q) < cap q"
      using assms full_cap within_cap by (metis le_neq_implies_less)
    with 1 QEnq assms cap_enq show ?thesis by auto
  next
    case 2
    with QEnq assms full_cap show ?thesis by auto
  qed
next
  case QDeq
  show ?thesis
    using assms
  proof (cases rule: deq_cases [where q = q])
    case (1 x q')
    with QDeq assms cap_deq show ?thesis by auto
  next
    case (2 q')
    with QDeq assms cap_deq show ?thesis by auto
  qed
qed

lemma run_refines:
  assumes "invar q"
  shows "\<exists>q' rs. q_run enq deq q ops = Some (q', rs) \<and> invar q' \<and> cap q' = cap q \<and>
           bq_run (cap q) (contents q) ops = (contents q', rs)"
  using assms
proof (induction ops arbitrary: q)
  case Nil
  then show ?case by simp
next
  case (Cons op ops)
  obtain q1 r where s: "q_step enq deq q op = Some (q1, r)" "invar q1" "cap q1 = cap q"
      "bq_step (cap q) (contents q) op = (contents q1, r)"
    using step_refines [OF Cons.prems] by blast
  obtain q2 rs where t: "q_run enq deq q1 ops = Some (q2, rs)" "invar q2" "cap q2 = cap q1"
      "bq_run (cap q1) (contents q1) ops = (contents q2, rs)"
    using Cons.IH [OF s(2)] by blast
  with s show ?case by simp
qed

end

end
