(* ===== verification/Ring.thy ===== *)
theory Ring
  imports Queues
begin

text \<open>
  \<open>mailbox/ring.go\<close>: the bounded ring buffer, as one goroutine at a time executes it.
  Head, tail and the sequence number of every cell are 64-bit words that wrap around; a
  pointer \<open>*T\<close> is an \<open>option\<close>, \<open>None\<close> for nil. An operation is \<open>None\<close> where its
  loop would not end. The interleaved executions are in \<open>RingConc\<close>.
\<close>

subsection \<open>State and operations\<close>

record 'a ring_cell =
  cseq :: u64
  cval :: "'a option"

record 'a ring =
  rmask :: u64
  rbuf :: "'a ring_cell list"
  rhead :: u64
  rtail :: u64

text \<open>The loop \<open>for c < capacity { c <<= 1 }\<close>; \<open>None\<close> when it never ends.\<close>

partial_function (option) round_up :: "u64 \<Rightarrow> u64 \<Rightarrow> u64 option" where
  "round_up c cap = (if c < cap then round_up (push_bit 1 c) cap else Some c)"

definition new_ring :: "u64 \<Rightarrow> 'a ring option" where
  "new_ring capacity =
     (let cap = (if capacity < 2 then 2 else capacity) in
      case round_up 1 cap of
        None \<Rightarrow> None
      | Some c \<Rightarrow> Some \<lparr>rmask = c - 1,
          rbuf = map (\<lambda>i. \<lparr>cseq = of_nat i, cval = None\<rparr>) [0..<unat c],
          rhead = 0, rtail = 0\<rparr>)"

definition ring_capacity :: "'a ring \<Rightarrow> u64" where
  "ring_capacity r = of_nat (length (rbuf r))"

definition cell_index :: "'a ring \<Rightarrow> u64 \<Rightarrow> nat" where
  "cell_index r p = unat (p AND rmask r)"

definition ring_enqueue :: "'a ring \<Rightarrow> 'a option \<Rightarrow> ('a ring \<times> bool) option" where
  "ring_enqueue r v =
     (let tail = rtail r;
          i = cell_index r tail;
          dif = dif64 (cseq (rbuf r ! i)) tail
      in if dif = 0 then
           Some (r\<lparr>rtail := tail + 1,
                   rbuf := (rbuf r)[i := \<lparr>cseq = tail + 1, cval = v\<rparr>]\<rparr>, True)
         else if dif < 0 then Some (r, False)
         else None)"

definition ring_dequeue :: "'a ring \<Rightarrow> ('a ring \<times> 'a option \<times> bool) option" where
  "ring_dequeue r =
     (let head = rhead r;
          i = cell_index r head;
          dif = dif64 (cseq (rbuf r ! i)) (head + 1)
      in if dif = 0 then
           Some (r\<lparr>rhead := head + 1,
                   rbuf := (rbuf r)[i := \<lparr>cseq = head + rmask r + 1, cval = None\<rparr>]\<rparr>,
                 cval (rbuf r ! i), True)
         else if dif < 0 then Some (r, None, False)
         else None)"

subsection \<open>The queue a ring stands for\<close>

definition ring_count :: "'a ring \<Rightarrow> nat" where
  "ring_count r = unat (rtail r - rhead r)"

definition cell_at :: "'a ring \<Rightarrow> nat \<Rightarrow> 'a ring_cell" where
  "cell_at r i = rbuf r ! cell_index r (rhead r + of_nat i)"

definition ring_list :: "'a ring \<Rightarrow> 'a option list" where
  "ring_list r = map (\<lambda>i. cval (cell_at r i)) [0..<ring_count r]"

definition ring_full :: "'a ring \<Rightarrow> bool" where
  "ring_full r \<longleftrightarrow> ring_count r = length (rbuf r)"

text \<open>The invariant: the buffer has a power-of-two length, and the cell of every position
  from the head on carries that position if it is free and the position plus one if it is
  filled. Free cells hold no pointer.\<close>

definition ring_shape :: "'a ring \<Rightarrow> nat \<Rightarrow> bool" where
  "ring_shape r k \<longleftrightarrow> 1 \<le> k \<and> k \<le> 63 \<and> length (rbuf r) = 2 ^ k \<and> rmask r = 2 ^ k - 1"

definition cell_ok :: "'a ring \<Rightarrow> nat \<Rightarrow> bool" where
  "cell_ok r i \<longleftrightarrow>
     (let p = rhead r + of_nat i in
      if i < ring_count r then cseq (cell_at r i) = p + 1
      else cseq (cell_at r i) = p \<and> cval (cell_at r i) = None)"

definition ring_inv :: "'a ring \<Rightarrow> bool" where
  "ring_inv r \<longleftrightarrow> (\<exists>k. ring_shape r k) \<and> ring_count r \<le> length (rbuf r) \<and>
     (\<forall>i < length (rbuf r). cell_ok r i)"

lemma ring_list_length [simp]: "length (ring_list r) = ring_count r"
  by (simp add: ring_list_def)

lemma cell_index_mod:
  assumes "ring_shape r k"
  shows "cell_index r p = unat p mod 2 ^ k"
  using assms by (simp add: cell_index_def ring_shape_def unat_and_mask)

lemma cell_index_plus:
  assumes "ring_shape r k"
  shows "cell_index r (p + of_nat i) = (unat p + i) mod 2 ^ k"
  using assms by (subst cell_index_mod [OF assms]) (auto simp: ring_shape_def intro!: unat_plus_mod)

lemma cell_index_less:
  assumes "ring_shape r k"
  shows "cell_index r p < length (rbuf r)"
  using assms by (simp add: cell_index_mod) (simp add: ring_shape_def)

lemma cell_index_inj:
  assumes "ring_shape r k" and "i < length (rbuf r)" and "j < length (rbuf r)"
    and "cell_index r (p + of_nat i) = cell_index r (p + of_nat j)"
  shows "i = j"
proof (rule mod_eq_small)
  show "i < 2 ^ k" and "j < 2 ^ k"
    using assms(1-3) by (simp_all add: ring_shape_def)
  show "(unat p + i) mod 2 ^ k = (unat p + j) mod 2 ^ k"
    using assms(4) by (simp add: cell_index_plus [OF assms(1)])
qed

subsection \<open>Enqueue\<close>

lemma ring_count_plus [simp]:
  "ring_count (r\<lparr>rtail := rtail r + 1, rbuf := b\<rparr>) = unat (rtail r - rhead r + 1)"
  by (simp add: ring_count_def algebra_simps)

lemma ring_tail_eq: "rtail r = rhead r + of_nat (ring_count r)"
  by (simp add: ring_count_def)

lemma ring_count_Suc:
  assumes "ring_inv r" and "\<not> ring_full r"
  shows "unat (rtail r - rhead r + 1) = Suc (ring_count r)" and "ring_count r < length (rbuf r)"
proof -
  obtain k where k: "ring_shape r k"
    using assms(1) by (auto simp: ring_inv_def)
  show lt: "ring_count r < length (rbuf r)"
    using assms by (auto simp: ring_inv_def ring_full_def)
  have "(2::nat) ^ k \<le> 2 ^ 63"
    using k by (intro power_increasing) (auto simp: ring_shape_def)
  with lt k have "ring_count r < 2 ^ 63"
    by (simp add: ring_shape_def)
  then show "unat (rtail r - rhead r + 1) = Suc (ring_count r)"
    by (simp add: ring_count_def unat_word_ariths)
qed

lemma ring_enqueue_full:
  assumes "ring_inv r" and "ring_full r"
  shows "ring_enqueue r v = Some (r, False)"
proof -
  obtain k where k: "ring_shape r k"
    using assms(1) by (auto simp: ring_inv_def)
  have len: "length (rbuf r) = 2 ^ k" and kb: "1 \<le> k" "k \<le> 63"
    using k by (auto simp: ring_shape_def)
  have t: "rtail r = rhead r + of_nat (2 ^ k)"
    using assms(2) len ring_tail_eq [of r] by (simp add: ring_full_def)
  have i: "cell_index r (rtail r) = cell_index r (rhead r + of_nat 0)"
    unfolding t using cell_index_plus [OF k, of "rhead r" "2 ^ k"]
      cell_index_plus [OF k, of "rhead r" 0] by simp
  have "cell_ok r 0" and "0 < ring_count r"
    using assms len by (auto simp: ring_inv_def ring_full_def)
  then have "cseq (rbuf r ! cell_index r (rtail r)) = rhead r + 1"
    by (simp add: cell_ok_def cell_at_def i)
  then have "dif64 (cseq (rbuf r ! cell_index r (rtail r))) (rtail r) < 0"
    using dif64_full [OF kb] by (simp add: t)
  then show ?thesis
    by (simp add: ring_enqueue_def Let_def)
qed

lemma ring_enqueue_free:
  assumes "ring_inv r" and "\<not> ring_full r"
  shows "ring_enqueue r v = Some (r\<lparr>rtail := rtail r + 1,
           rbuf := (rbuf r)[cell_index r (rtail r) := \<lparr>cseq = rtail r + 1, cval = v\<rparr>]\<rparr>, True)"
proof -
  have "cell_ok r (ring_count r)"
    using assms ring_count_Suc by (auto simp: ring_inv_def)
  then have "cseq (rbuf r ! cell_index r (rtail r)) = rtail r"
    by (simp add: cell_ok_def cell_at_def Let_def flip: ring_tail_eq)
  then show ?thesis
    by (simp add: ring_enqueue_def Let_def dif64_eq_0_iff)
qed

text \<open>A cell update at a position in the window changes the cell of that position only.\<close>

lemma cell_at_update:
  assumes "ring_shape r k" and "i < length (rbuf r)" and "j < length (rbuf r)"
    and "rmask r' = rmask r" and "rhead r' = rhead r"
    and "rbuf r' = (rbuf r)[cell_index r (rhead r + of_nat j) := c]"
  shows "cell_at r' i = (if i = j then c else cell_at r i)"
proof -
  have ix: "cell_index r' = cell_index r"
    using assms(4) by (simp add: cell_index_def fun_eq_iff)
  show ?thesis
    using cell_index_inj [OF assms(1-3), of "rhead r"]
      cell_index_less [OF assms(1), of "rhead r + of_nat j"] assms(5,6) ix
    by (auto simp: cell_at_def nth_list_update)
qed

lemma ring_enqueue_step:
  assumes "ring_inv r" and "\<not> ring_full r"
  shows "\<exists>r'. ring_enqueue r v = Some (r', True) \<and> ring_inv r' \<and>
           ring_list r' = ring_list r @ [v] \<and> length (rbuf r') = length (rbuf r)"
proof -
  obtain k where k: "ring_shape r k" and ok: "\<And>i. i < length (rbuf r) \<Longrightarrow> cell_ok r i"
    using assms(1) by (auto simp: ring_inv_def)
  define n where "n = ring_count r"
  define r' where "r' = r\<lparr>rtail := rtail r + 1,
      rbuf := (rbuf r)[cell_index r (rtail r) := \<lparr>cseq = rtail r + 1, cval = v\<rparr>]\<rparr>"
  have n: "n < length (rbuf r)" and n': "ring_count r' = Suc n"
    using ring_count_Suc [OF assms] by (simp_all add: n_def r'_def)
  have f: "rmask r' = rmask r" "rhead r' = rhead r" "length (rbuf r') = length (rbuf r)"
    "rbuf r' = (rbuf r)[cell_index r (rhead r + of_nat n) := \<lparr>cseq = rtail r + 1, cval = v\<rparr>]"
    by (simp_all add: r'_def n_def flip: ring_tail_eq)
  have at: "cell_at r' i = (if i = n then \<lparr>cseq = rtail r + 1, cval = v\<rparr> else cell_at r i)"
    if "i < length (rbuf r)" for i
    using cell_at_update [OF k that n f(1,2,4)] .
  have "cell_ok r' i" if "i < length (rbuf r)" for i
    using ok [OF that] at [OF that] n' f(2) ring_tail_eq [of r]
    by (auto simp: cell_ok_def Let_def n_def less_Suc_eq)
  moreover have "ring_shape r' k"
    using k f by (simp add: ring_shape_def)
  ultimately have "ring_inv r'"
    using n n' f(3) by (auto simp: ring_inv_def)
  moreover have "ring_list r' = ring_list r @ [v]"
    using at n n' by (auto simp: ring_list_def n_def)
  ultimately show ?thesis
    using ring_enqueue_free [OF assms, of v] f(3) by (auto simp: r'_def)
qed

subsection \<open>Dequeue\<close>

lemma ring_dequeue_empty:
  assumes "ring_inv r" and "ring_count r = 0"
  shows "ring_dequeue r = Some (r, None, False)"
proof -
  have "cell_ok r 0"
    using assms by (auto simp: ring_inv_def ring_shape_def)
  then have "cseq (rbuf r ! cell_index r (rhead r)) = rhead r"
    using assms(2) by (simp add: cell_ok_def cell_at_def)
  then have "dif64 (cseq (rbuf r ! cell_index r (rhead r))) (rhead r + 1) < 0"
    by (simp add: dif64_behind)
  then show ?thesis
    by (simp add: ring_dequeue_def Let_def)
qed

lemma ring_dequeue_filled:
  assumes "ring_inv r" and "0 < ring_count r"
  shows "ring_dequeue r = Some (r\<lparr>rhead := rhead r + 1,
           rbuf := (rbuf r)[cell_index r (rhead r) :=
             \<lparr>cseq = rhead r + rmask r + 1, cval = None\<rparr>]\<rparr>, cval (cell_at r 0), True)"
proof -
  have "cell_ok r 0"
    using assms by (auto simp: ring_inv_def ring_shape_def)
  then have "cseq (rbuf r ! cell_index r (rhead r)) = rhead r + 1"
    using assms(2) by (simp add: cell_ok_def cell_at_def)
  then show ?thesis
    by (simp add: ring_dequeue_def Let_def dif64_eq_0_iff cell_at_def)
qed

lemma ring_count_pred:
  assumes "0 < ring_count r"
  shows "unat (rtail r - (rhead r + 1)) = ring_count r - 1"
proof -
  have eq: "rtail r - (rhead r + 1) = (rtail r - rhead r) - 1"
    by (simp add: algebra_simps)
  have "1 \<le> rtail r - rhead r"
    using assms by (simp add: ring_count_def word_le_nat_alt)
  then have "unat ((rtail r - rhead r) - 1) = unat (rtail r - rhead r) - unat (1 :: u64)"
    by (rule unat_sub)
  then show ?thesis
    by (simp only: ring_count_def eq unat_1)
qed

text \<open>After the head has moved, position \<open>i\<close> from the new head is position \<open>i + 1\<close> from
  the old one, and the last position of the window is the cell just freed.\<close>

lemma cell_at_advance:
  assumes k: "ring_shape r k" and i: "i < length (rbuf r)"
    and f: "rmask r' = rmask r" "rhead r' = rhead r + 1"
      "rbuf r' = (rbuf r)[cell_index r (rhead r) := c]"
  shows "cell_at r' i = (if Suc i = length (rbuf r) then c else cell_at r (Suc i))"
proof -
  have ix: "cell_index r' (rhead r' + of_nat i) = cell_index r (rhead r + of_nat (Suc i))"
    using f by (simp add: cell_index_def algebra_simps)
  show ?thesis
  proof (cases "Suc i = length (rbuf r)")
    case True
    then have "cell_index r (rhead r + of_nat (Suc i)) = cell_index r (rhead r + of_nat 0)"
      using cell_index_plus [OF k, of "rhead r" "Suc i"] cell_index_plus [OF k, of "rhead r" 0] k
      by (simp add: ring_shape_def)
    with True show ?thesis
      using ix f cell_index_less [OF k, of "rhead r"] by (simp add: cell_at_def)
  next
    case False
    with i have "Suc i < length (rbuf r)" by simp
    then have "cell_index r (rhead r + of_nat (Suc i)) \<noteq> cell_index r (rhead r + of_nat 0)"
      using cell_index_inj [OF k, of "Suc i" 0 "rhead r"] i by fastforce
    with False show ?thesis
      using ix f by (simp add: cell_at_def)
  qed
qed

lemma ring_list_Cons:
  assumes "0 < ring_count r"
  shows "ring_list r =
    cval (cell_at r 0) # map (\<lambda>i. cval (cell_at r (Suc i))) [0..<ring_count r - 1]"
proof -
  obtain n where n: "ring_count r = Suc n"
    using assms by (cases "ring_count r") auto
  have "[0..<Suc n] = 0 # map Suc [0..<n]"
    by (simp add: upt_conv_Cons map_Suc_upt del: upt_Suc)
  then show ?thesis
    by (simp add: ring_list_def n comp_def del: upt_Suc)
qed

lemma ring_dequeue_step:
  fixes r :: "'a ring"
  assumes "ring_inv r" and "0 < ring_count r"
  shows "\<exists>r' :: 'a ring. ring_dequeue r = Some (r', hd (ring_list r), True) \<and> ring_inv r' \<and>
           ring_list r' = tl (ring_list r) \<and> length (rbuf r') = length (rbuf r)"
proof -
  obtain k where k: "ring_shape r k" and ok: "\<And>i. i < length (rbuf r) \<Longrightarrow> cell_ok r i"
    and le: "ring_count r \<le> length (rbuf r)"
    using assms(1) by (auto simp: ring_inv_def)
  define n where "n = ring_count r - 1"
  define c :: "'a ring_cell" where "c = \<lparr>cseq = rhead r + rmask r + 1, cval = None\<rparr>"
  define r' where "r' = r\<lparr>rhead := rhead r + 1, rbuf := (rbuf r)[cell_index r (rhead r) := c]\<rparr>"
  have f: "rmask r' = rmask r" "rhead r' = rhead r + 1" "length (rbuf r') = length (rbuf r)"
    "rbuf r' = (rbuf r)[cell_index r (rhead r) := c]"
    by (simp_all add: r'_def)
  have cnt: "ring_count r = Suc n" and n': "ring_count r' = n"
    using assms(2) ring_count_pred [OF assms(2)] by (simp_all add: n_def r'_def ring_count_def)
  have at: "cell_at r' i = (if Suc i = length (rbuf r) then c else cell_at r (Suc i))"
    if "i < length (rbuf r)" for i
    using cell_at_advance [OF k that f(1,2,4)] .
  have last: "rhead r + 1 + of_nat i = rhead r + rmask r + 1" if "Suc i = length (rbuf r)" for i
  proof -
    have "(of_nat (Suc i) :: u64) = of_nat (2 ^ k)"
      using k that by (simp add: ring_shape_def)
    then have "(of_nat i :: u64) = 2 ^ k - 1"
      by (simp add: eq_diff_eq add.commute)
    then have "rmask r = of_nat i"
      using k by (simp add: ring_shape_def)
    then show ?thesis
      by simp
  qed
  have "cell_ok r' i" if i: "i < length (rbuf r)" for i
  proof (cases "Suc i = length (rbuf r)")
    case True
    with at [OF i] last [OF True] n' f(2) cnt le show ?thesis
      by (simp add: cell_ok_def Let_def c_def)
  next
    case False
    with i have "Suc i < length (rbuf r)" by simp
    then have "cell_ok r (Suc i)" by (rule ok)
    with False at [OF i] n' f(2) cnt show ?thesis
      by (simp add: cell_ok_def Let_def add.assoc)
  qed
  moreover have "ring_shape r' k"
    using k f by (simp add: ring_shape_def)
  ultimately have "ring_inv r'"
    using cnt n' f(3) le by (auto simp: ring_inv_def)
  moreover have "ring_list r' = tl (ring_list r)"
    using at cnt n' le ring_list_Cons [OF assms(2)] by (auto simp: ring_list_def)
  ultimately show ?thesis
    using ring_dequeue_filled [OF assms] f(3) ring_list_Cons [OF assms(2)]
    by (auto simp: r'_def c_def)
qed

subsection \<open>The constructor\<close>

lemma push_bit_1_exp: "push_bit 1 (2 ^ j :: u64) = 2 ^ Suc j"
  by (simp add: push_bit_eq_mult)

lemma exp_u64_le:
  assumes "j \<le> k" and "k \<le> 63"
  shows "(2 ^ j :: u64) \<le> 2 ^ k"
  using assms by (simp add: word_le_nat_alt unat_exp)

text \<open>The rounding loop ends for every capacity up to \<open>2^63\<close>, at the least power of two
  that is not below it.\<close>

lemma round_up_returns:
  assumes "j \<le> 63" and "cap \<le> 2 ^ 63"
  shows "\<exists>k. j \<le> k \<and> k \<le> 63 \<and> round_up (2 ^ j) cap = Some (2 ^ k) \<and> cap \<le> 2 ^ k \<and>
           (k = j \<or> (2 ^ (k - 1) :: u64) < cap)"
  using assms(1)
proof (induction "63 - j" arbitrary: j)
  case 0
  then have "j = 63" by simp
  with assms(2) have le: "cap \<le> 2 ^ j" by (simp only:)
  then have "round_up (2 ^ j) cap = Some (2 ^ j)"
    by (subst round_up.simps) (simp only: not_less [symmetric] if_False simp_thms)
  with le show ?case
    using \<open>j = 63\<close> by (intro exI [where x = j]) simp
next
  case (Suc m)
  show ?case
  proof (cases "2 ^ j < cap")
    case False
    with Suc.prems show ?thesis
      by (auto simp: round_up.simps [of "2 ^ j" cap] not_less)
  next
    case True
    have "m = 63 - Suc j" and "Suc j \<le> 63"
      using Suc.hyps(2) by simp_all
    then obtain k where k: "Suc j \<le> k" "k \<le> 63" "round_up (2 ^ Suc j) cap = Some (2 ^ k)"
      "cap \<le> 2 ^ k" "k = Suc j \<or> (2 ^ (k - 1) :: u64) < cap"
      using Suc.hyps(1) [of "Suc j"] by blast
    have "round_up (2 ^ j) cap = Some (2 ^ k)"
      using True k(3) round_up.simps [of "2 ^ j" cap] push_bit_1_exp [of j]
      by (simp add: mult.commute)
    with True k show ?thesis
      by (intro exI [where x = k]) auto
  qed
qed

text \<open>Above \<open>2^63\<close> the shift drops the only bit: from then on \<open>c\<close> is 0 and the loop
  never ends.\<close>

lemma round_up_only_small:
  assumes "round_up c cap = Some y" and "c = 0 \<or> (\<exists>j \<le> 63. c = (2 :: u64) ^ j)"
  shows "cap \<le> 2 ^ 63"
proof -
  have "(c = 0 \<or> (\<exists>j \<le> 63. c = 2 ^ j)) \<longrightarrow> cap \<le> 2 ^ 63"
  proof (rule round_up.raw_induct [where P = "\<lambda>c cap _. (c = 0 \<or> (\<exists>j \<le> 63. c = 2 ^ j)) \<longrightarrow>
      cap \<le> 2 ^ 63", OF _ assms(1)])
    fix f and c cap y :: u64
    assume IH: "\<And>c cap y. f c cap = Some y \<Longrightarrow> (c = 0 \<or> (\<exists>j \<le> 63. c = 2 ^ j)) \<longrightarrow> cap \<le> 2 ^ 63"
      and eq: "(if c < cap then f (push_bit 1 c) cap else Some c) = Some y"
    show "(c = 0 \<or> (\<exists>j \<le> 63. c = 2 ^ j)) \<longrightarrow> cap \<le> 2 ^ 63"
    proof
      assume c: "c = 0 \<or> (\<exists>j \<le> 63. c = 2 ^ j)"
      show "cap \<le> 2 ^ 63"
      proof (cases "c < cap")
        case True
        have "push_bit 1 c = 0 \<or> (\<exists>j \<le> 63. push_bit 1 c = 2 ^ j)"
          using c
        proof
          assume "\<exists>j \<le> 63. c = 2 ^ j"
          then obtain j where j: "j \<le> 63" "c = 2 ^ j" by blast
          show ?thesis
          proof (cases "j = 63")
            case True
            with j show ?thesis by simp
          next
            case False
            with j have "Suc j \<le> 63" "push_bit 1 c = 2 ^ Suc j"
              using push_bit_1_exp [of j] by simp_all
            then show ?thesis by blast
          qed
        qed simp
        with IH True eq show ?thesis by auto
      next
        case False
        have "c \<le> 2 ^ 63"
          using c exp_u64_le [of _ 63] by auto
        with False show ?thesis by simp
      qed
    qed
  qed
  with assms(2) show ?thesis by blast
qed

lemma round_up_large: "2 ^ 63 < cap \<Longrightarrow> round_up 1 cap = None"
  using round_up_only_small [of 1 cap] by (cases "round_up 1 cap") (fastforce intro: exI [where x = 0])+

lemma new_ring_ok:
  assumes "capacity \<le> 2 ^ 63"
  shows "\<exists>r k. new_ring capacity = Some r \<and> 1 \<le> k \<and> k \<le> 63 \<and> length (rbuf r) = 2 ^ k \<and>
           (2 :: u64) ^ k \<ge> max 2 capacity \<and> (k = 1 \<or> (2 :: u64) ^ (k - 1) < capacity) \<and>
           ring_inv r \<and> ring_list r = []"
proof -
  define cap where "cap = (if capacity < 2 then 2 else capacity)"
  have "cap \<le> 2 ^ 63" and two: "2 \<le> cap"
    using assms by (auto simp: cap_def)
  then obtain k where k: "k \<le> 63" "round_up 1 cap = Some (2 ^ k)" "cap \<le> 2 ^ k"
    "k = 0 \<or> (2 ^ (k - 1) :: u64) < cap"
    using round_up_returns [of 0 cap] by auto
  have k1: "1 \<le> k"
    using two k(3) by (cases k) (auto simp: word_le_nat_alt)
  define r :: "'a ring" where "r = \<lparr>rmask = 2 ^ k - 1,
      rbuf = map (\<lambda>i. \<lparr>cseq = of_nat i, cval = None\<rparr>) [0..<2 ^ k], rhead = 0, rtail = 0\<rparr>"
  have new: "new_ring capacity = Some r"
    using k(1,2) by (simp add: new_ring_def cap_def [symmetric] r_def unat_exp)
  have sh: "ring_shape r k"
    using k(1) k1 by (simp add: ring_shape_def r_def)
  have "cell_ok r i" if "i < 2 ^ k" for i
    using that cell_index_plus [OF sh, of 0 i]
    by (simp add: cell_ok_def cell_at_def Let_def ring_count_def r_def)
  then have "ring_inv r"
    using sh by (auto simp: ring_inv_def ring_count_def r_def)
  moreover have "ring_list r = []"
    by (simp add: ring_list_def ring_count_def r_def)
  moreover have "k = 1 \<or> (2 :: u64) ^ (k - 1) < capacity"
  proof (cases "capacity < 2")
    case True
    with k(4) k1 have "unat (2 ^ (k - 1) :: u64) < 2"
      by (simp add: cap_def word_less_nat_alt)
    then have "(2 :: nat) ^ (k - 1) < 2 ^ 1"
      using k(1) by (simp add: unat_exp)
    then have "k - 1 < 1"
      by (subst (asm) power_strict_increasing_iff) simp_all
    with k1 show ?thesis by simp
  next
    case False
    with k(4) k1 show ?thesis by (simp add: cap_def)
  qed
  ultimately show ?thesis
    using new k1 k(1,3) by (intro exI [where x = r] exI [where x = k]) (auto simp: r_def cap_def split: if_splits)
qed

lemma new_ring_large: "2 ^ 63 < capacity \<Longrightarrow> new_ring capacity = None"
  by (auto simp: new_ring_def round_up_large word_less_nat_alt)

lemma new_ring_Some:
  fixes r :: "'a ring"
  assumes "new_ring capacity = Some r"
  shows "capacity \<le> 2 ^ 63" and "ring_inv r" and "ring_list r = []" and "2 \<le> length (rbuf r)"
    and "length (rbuf r) \<le> 2 ^ 63" and "unat capacity \<le> length (rbuf r)"
proof -
  show le: "capacity \<le> 2 ^ 63"
    using assms new_ring_large [of capacity] by (metis not_less option.distinct(1))
  obtain k where k: "1 \<le> k" "k \<le> 63" "length (rbuf r) = 2 ^ k" "capacity \<le> 2 ^ k"
    and "ring_inv r" "ring_list r = []"
    using new_ring_ok [OF le, where ?'a = 'a] assms by auto
  then show "ring_inv r" and "ring_list r = []" by simp_all
  show "2 \<le> length (rbuf r)"
    using k(3) power_increasing [OF k(1), of "2::nat"] by simp
  show "length (rbuf r) \<le> 2 ^ 63"
    using k(3) power_increasing [OF k(2), of "2::nat"] by simp
  show "unat capacity \<le> length (rbuf r)"
    using k(2-4) by (simp add: word_le_nat_alt unat_exp)
qed

subsection \<open>The ring fulfils the contract of a bounded queue\<close>

lemma ring_list_Nil: "ring_list r = [] \<longleftrightarrow> ring_count r = 0"
  by (simp add: ring_list_def)

interpretation ringq: capped_fifo ring_enqueue ring_dequeue ring_list ring_inv ring_full None
  "\<lambda>r. length (rbuf r)"
proof unfold_locales
  fix q :: "'a ring" and v :: "'a option"
  assume "ring_inv q" and "\<not> ring_full q"
  then show "\<exists>q'. ring_enqueue q v = Some (q', True) \<and> ring_inv q' \<and> ring_list q' = ring_list q @ [v]"
    using ring_enqueue_step by blast
next
  fix q :: "'a ring" and v :: "'a option"
  assume "ring_inv q" and "ring_full q"
  then show "ring_enqueue q v = Some (q, False)"
    by (rule ring_enqueue_full)
next
  fix q :: "'a ring" and x xs
  assume "ring_inv q" and "ring_list q = x # xs"
  then show "\<exists>q'. ring_dequeue q = Some (q', x, True) \<and> ring_inv q' \<and> ring_list q' = xs"
    using ring_dequeue_step [of q] ring_list_Nil [of q] by auto
next
  fix q :: "'a ring"
  assume "ring_inv q" and "ring_list q = []"
  then show "\<exists>q'. ring_dequeue q = Some (q', None, False) \<and> ring_inv q' \<and> ring_list q' = []"
    using ring_dequeue_empty ring_list_Nil by blast
next
  fix q :: "'a ring"
  assume "ring_inv q"
  then show "ring_full q \<longleftrightarrow> length (ring_list q) = length (rbuf q)"
    and "length (ring_list q) \<le> length (rbuf q)"
    by (auto simp: ring_full_def ring_inv_def)
next
  fix q q' :: "'a ring" and v ok
  show "length (rbuf q') = length (rbuf q)" if "ring_enqueue q v = Some (q', ok)"
    using that by (auto simp: ring_enqueue_def Let_def split: if_splits)
  show "length (rbuf q') = length (rbuf q)" if "ring_dequeue q = Some (q', v, ok)"
    using that by (auto simp: ring_dequeue_def Let_def split: if_splits)
qed

subsection \<open>Properties\<close>


text \<open>One call on any well-formed ring, wherever its 64-bit counters stand (also across
  their wrap-around): the call returns, \<open>Enqueue\<close> appends the value exactly when the ring
  is not full and otherwise leaves it alone, \<open>Dequeue\<close> takes the oldest value exactly when
  there is one, and the ring stays well formed.\<close>

theorem ring_calls_refine:
  assumes "ring_inv r"
  shows "(\<exists>r'. ring_enqueue r v = Some (r', length (ring_list r) < length (rbuf r)) \<and> ring_inv r' \<and>
      ring_list r' = (if length (ring_list r) < length (rbuf r) then ring_list r @ [v] else ring_list r)) \<and>
    (\<exists>r'. ring_dequeue r =
        Some (r', (case ring_list r of [] \<Rightarrow> None | x # _ \<Rightarrow> x), ring_list r \<noteq> []) \<and> ring_inv r' \<and>
      ring_list r' = tl (ring_list r))"
proof
  have "ring_full r \<longleftrightarrow> \<not> length (ring_list r) < length (rbuf r)"
    using ringq.full_cap [OF assms] ringq.within_cap [OF assms] by linarith
  then show "\<exists>r'. ring_enqueue r v = Some (r', length (ring_list r) < length (rbuf r)) \<and> ring_inv r' \<and>
      ring_list r' = (if length (ring_list r) < length (rbuf r) then ring_list r @ [v] else ring_list r)"
    using ringq.enq_free [OF assms, of v] ringq.enq_full [OF assms, of v] assms
    by (cases "ring_full r") auto
  show "\<exists>r'. ring_dequeue r =
        Some (r', (case ring_list r of [] \<Rightarrow> None | x # _ \<Rightarrow> x), ring_list r \<noteq> []) \<and> ring_inv r' \<and>
      ring_list r' = tl (ring_list r)"
    using assms by (cases rule: ringq.deq_cases [where q = r]) auto
qed

text \<open>A full ring whose tail has wrapped around to 1 while its head is still at the end of
  the counter range.\<close>

definition wrapped_ring :: "nat ring" where
  "wrapped_ring = \<lparr>rmask = 1, rbuf = [\<lparr>cseq = 1, cval = Some 8\<rparr>, \<lparr>cseq = 0, cval = Some 7\<rparr>],
     rhead = 18446744073709551615, rtail = 1\<rparr>"

lemma wrapped_ring_inv: "ring_inv wrapped_ring" and wrapped_ring_list: "ring_list wrapped_ring = [Some 7, Some 8]"
proof -
  have "ring_shape wrapped_ring 1"
    by (simp add: ring_shape_def wrapped_ring_def)
  moreover have "cell_ok wrapped_ring i" if "i < 2" for i
    using that by (auto simp: less_2_cases_iff cell_ok_def cell_at_def cell_index_def ring_count_def
        wrapped_ring_def)
  ultimately show "ring_inv wrapped_ring"
    by (auto simp: ring_inv_def ring_count_def wrapped_ring_def)
  show "ring_list wrapped_ring = [Some 7, Some 8]"
    by (simp add: ring_list_def cell_at_def cell_index_def ring_count_def wrapped_ring_def upt_rec)
qed

theorem ring_calls_refine_witness:
  "(\<exists>r'. ring_enqueue wrapped_ring (Some 9) = Some (r', False)) \<and>
   (\<exists>r'. ring_dequeue wrapped_ring = Some (r', Some 7, True) \<and> ring_list r' = [Some 8])"
  using ring_calls_refine [OF wrapped_ring_inv, of "Some 9"]
  by (auto simp: wrapped_ring_list) (simp add: wrapped_ring_def)

text \<open>Functional refinement over whole histories: a ring made by \<open>NewRing\<close> answers every
  sequence of calls, of any length, exactly as a bounded list of its capacity does.\<close>

theorem ring_history_refines:
  fixes r :: "'a ring"
  assumes "new_ring capacity = Some r"
  shows "\<exists>r' rs. q_run ring_enqueue ring_dequeue r ops = Some (r', rs) \<and>
           bq_run (length (rbuf r)) [] ops = (ring_list r', rs)"
proof -
  have "ring_inv r" and "ring_list r = []"
    using new_ring_Some [OF assms] by simp_all
  then show ?thesis
    using ringq.run_refines [of r ops] by auto
qed

theorem ring_history_refines_witness:
  "\<exists>r r' rs. new_ring 2 = Some (r :: nat ring) \<and>
     q_run ring_enqueue ring_dequeue r [QEnq (Some 1), QEnq (Some 2), QEnq (Some 3), QDeq] = Some (r', rs) \<and>
     rs = [Accepted (Some 1), Accepted (Some 2), Refused (Some 3), Delivered (Some 1)] \<and>
     ring_list r' = [Some 2]"
proof -
  have "round_up 1 2 = Some 2"
    by (simp add: round_up.simps push_bit_eq_mult)
  then obtain r :: "nat ring" where r: "new_ring 2 = Some r" "length (rbuf r) = 2"
    by (simp add: new_ring_def)
  from ring_history_refines [OF r(1), of "[QEnq (Some 1), QEnq (Some 2), QEnq (Some 3), QDeq]"] r(2)
  show ?thesis using r(1) by auto
qed

end
