(* ===== verification/Transition.thy ===== *)
theory Transition
  imports Main
begin

text \<open>
  Executions that interleave several goroutines: the states reachable from an initial one
  by a step relation, and the rule that an invariant of the steps holds in all of them.
  A component that needs the rule proves the two laws of the locale for its own steps.
\<close>

inductive reach :: "('s \<Rightarrow> bool) \<Rightarrow> ('s \<Rightarrow> 's \<Rightarrow> bool) \<Rightarrow> 's \<Rightarrow> bool"
  for start :: "'s \<Rightarrow> bool" and step :: "'s \<Rightarrow> 's \<Rightarrow> bool" where
  reach_start: "start s \<Longrightarrow> reach start step s"
| reach_step: "reach start step s \<Longrightarrow> step s s' \<Longrightarrow> reach start step s'"

lemma reach_weaken: "reach start step s \<Longrightarrow> (\<And>s. start s \<Longrightarrow> start' s) \<Longrightarrow> reach start' step s"
  by (induction rule: reach.induct) (auto intro: reach.intros)

locale inductive_invariant =
  fixes start :: "'s \<Rightarrow> bool" and step :: "'s \<Rightarrow> 's \<Rightarrow> bool" and invariant :: "'s \<Rightarrow> bool"
  assumes start_inv: "start s \<Longrightarrow> invariant s"
    and step_inv: "invariant s \<Longrightarrow> step s s' \<Longrightarrow> invariant s'"
begin

lemma reach_inv: "reach start step s \<Longrightarrow> invariant s"
  by (induction rule: reach.induct) (auto intro: start_inv step_inv)

end

text \<open>A quantity that no step lets shrink bounds it along every run: the assumption that it
  is small at the end holds all the way.\<close>

locale bounded_invariant =
  fixes start :: "'s \<Rightarrow> bool" and step :: "'s \<Rightarrow> 's \<Rightarrow> bool" and invariant :: "'s \<Rightarrow> bool"
    and small :: "'s \<Rightarrow> bool"
  assumes start_small: "start s \<Longrightarrow> small s \<Longrightarrow> invariant s"
    and step_small: "invariant s \<Longrightarrow> step s s' \<Longrightarrow> small s' \<Longrightarrow> invariant s'"
    and small_back: "step s s' \<Longrightarrow> small s' \<Longrightarrow> small s"

sublocale bounded_invariant \<subseteq> bnd: inductive_invariant start step "\<lambda>s. small s \<longrightarrow> invariant s"
  by unfold_locales (auto intro: start_small step_small small_back)

context bounded_invariant
begin

lemma reach_small: "reach start step s \<Longrightarrow> small s \<Longrightarrow> invariant s"
  using bnd.reach_inv by blast

end

text \<open>A sum over indices of which one changes, and a sum over the goroutines inside calls: a step
  of one of them changes it by what that one contributes.\<close>

lemma sum_change:
  fixes f g :: "'b \<Rightarrow> 'c :: comm_monoid_add"
  assumes "finite A" and "a \<in> A" and "\<And>b. b \<in> A \<Longrightarrow> b \<noteq> a \<Longrightarrow> f b = g b"
  shows "sum f A + g a = sum g A + f a"
proof -
  have "sum f (A - {a}) = sum g (A - {a})"
    using assms(3) by (intro sum.cong) auto
  then show ?thesis
    using assms(1,2) by (simp add: sum.remove [of A a f] sum.remove [of A a g] ac_simps)
qed

lemma active_change:
  fixes f g :: "nat \<Rightarrow> 'c :: comm_monoid_add"
  assumes "finite A" and "\<And>u. u \<noteq> t \<Longrightarrow> (u \<in> B \<longleftrightarrow> u \<in> A) \<and> g u = f u"
    and "\<And>u. u \<notin> A \<Longrightarrow> f u = 0" and "\<And>u. u \<notin> B \<Longrightarrow> g u = 0"
  shows "sum g B + f t = sum f A + g t" and "finite B"
proof -
  let ?C = "insert t A"
  have c: "A \<subseteq> ?C" "B \<subseteq> ?C" "finite ?C" using assms(1,2) by auto
  then show "finite B" using finite_subset by blast
  have "sum f A = sum f ?C" "sum g B = sum g ?C"
    using c assms(3,4) by (auto intro!: sum.mono_neutral_left)
  then show "sum g B + f t = sum f A + g t"
    using sum_change [OF c(3), of t g f] assms(2) by simp
qed

text \<open>A scheduler that names the goroutine of each step gives an execution.\<close>

fun run_schedule :: "('s \<Rightarrow> 't \<Rightarrow> 's) \<Rightarrow> 's \<Rightarrow> 't list \<Rightarrow> 's" where
  "run_schedule f s [] = s"
| "run_schedule f s (t # ts) = run_schedule f (f s t) ts"

lemma reach_run_schedule:
  assumes "\<And>s a. f s a = s \<or> step s (f s a)" and "reach start step s"
  shows "reach start step (run_schedule f s acts)"
  using assms(2)
proof (induction acts arbitrary: s)
  case Nil
  then show ?case by simp
next
  case (Cons a acts)
  have "reach start step (f s a)"
    using assms(1) [of s a] Cons.prems by (metis reach_step)
  with Cons.IH show ?case by simp
qed

end
