(* ===== verification/RingConc.thy ===== *)
theory RingConc
  imports Ring Transition
begin

text \<open>
  \<open>mailbox/ring.go\<close> under concurrency: any number of goroutines inside \<open>Enqueue\<close> and
  \<open>Dequeue\<close> at once, one atomic memory access of one of them per step. Go's
  \<open>sync/atomic\<close> operations are sequentially consistent, so an execution is an
  interleaving of these accesses. The local computation after a load belongs to the step of
  the load.

  Three history variables observe the execution and are never read by it: the values in the
  order in which their producers won the tail, the number of times a consumer won the head,
  and the position and value of every completed \<open>Dequeue\<close>.
\<close>

subsection \<open>Steps\<close>

datatype 'a rpc =
    RIdle
  | EnqLoad "'a option"        \<comment> \<open>before \<open>r.tail.Load()\<close>\<close>
  | EnqSeq "'a option" u64     \<comment> \<open>tail known, before \<open>cell.seq.Load()\<close>\<close>
  | EnqCas "'a option" u64     \<comment> \<open>\<open>dif == 0\<close>, before the CAS on the tail\<close>
  | EnqVal "'a option" u64     \<comment> \<open>tail won, before \<open>cell.val.Store(v)\<close>\<close>
  | EnqPub "'a option" u64     \<comment> \<open>value stored, before \<open>cell.seq.Store(tail + 1)\<close>\<close>
  | DeqLoad
  | DeqSeq u64
  | DeqCas u64
  | DeqVal u64                 \<comment> \<open>head won, before \<open>cell.val.Load()\<close>\<close>
  | DeqClear u64 "'a option"   \<comment> \<open>value loaded, before \<open>cell.val.Store(nil)\<close>\<close>
  | DeqFree u64 "'a option"    \<comment> \<open>before \<open>cell.seq.Store(head + r.mask + 1)\<close>\<close>

record 'a rsys =
  mem :: "'a ring"
  pcs :: "nat \<Rightarrow> 'a rpc"
  elog :: "'a option list"
  dcount :: nat
  outs :: "(nat \<times> 'a option) list"

definition goto_pc :: "'a rsys \<Rightarrow> nat \<Rightarrow> 'a rpc \<Rightarrow> 'a rsys" where
  "goto_pc s t pc = s\<lparr>pcs := (pcs s)(t := pc)\<rparr>"

definition set_cell :: "'a ring \<Rightarrow> u64 \<Rightarrow> ('a ring_cell \<Rightarrow> 'a ring_cell) \<Rightarrow> 'a ring" where
  "set_cell r p f =
     r\<lparr>rbuf := (rbuf r)[cell_index r p := f (rbuf r ! cell_index r p)]\<rparr>"

fun ring_advance :: "'a rsys \<Rightarrow> nat \<Rightarrow> 'a rpc \<Rightarrow> 'a rsys" where
  "ring_advance s t RIdle = s"
| "ring_advance s t (EnqLoad v) = goto_pc s t (EnqSeq v (rtail (mem s)))"
| "ring_advance s t (EnqSeq v tail) =
     (let dif = dif64 (cseq (rbuf (mem s) ! cell_index (mem s) tail)) tail in
      goto_pc s t (if dif = 0 then EnqCas v tail else if dif < 0 then RIdle else EnqLoad v))"
| "ring_advance s t (EnqCas v tail) =
     (if rtail (mem s) = tail then
        goto_pc (s\<lparr>mem := (mem s)\<lparr>rtail := tail + 1\<rparr>, elog := elog s @ [v]\<rparr>) t (EnqVal v tail)
      else goto_pc s t (EnqLoad v))"
| "ring_advance s t (EnqVal v tail) =
     goto_pc (s\<lparr>mem := set_cell (mem s) tail (\<lambda>c. c\<lparr>cval := v\<rparr>)\<rparr>) t (EnqPub v tail)"
| "ring_advance s t (EnqPub v tail) =
     goto_pc (s\<lparr>mem := set_cell (mem s) tail (\<lambda>c. c\<lparr>cseq := tail + 1\<rparr>)\<rparr>) t RIdle"
| "ring_advance s t DeqLoad = goto_pc s t (DeqSeq (rhead (mem s)))"
| "ring_advance s t (DeqSeq head) =
     (let dif = dif64 (cseq (rbuf (mem s) ! cell_index (mem s) head)) (head + 1) in
      goto_pc s t (if dif = 0 then DeqCas head else if dif < 0 then RIdle else DeqLoad))"
| "ring_advance s t (DeqCas head) =
     (if rhead (mem s) = head then
        goto_pc (s\<lparr>mem := (mem s)\<lparr>rhead := head + 1\<rparr>, dcount := Suc (dcount s)\<rparr>) t (DeqVal head)
      else goto_pc s t DeqLoad)"
| "ring_advance s t (DeqVal head) =
     goto_pc s t (DeqClear head (cval (rbuf (mem s) ! cell_index (mem s) head)))"
| "ring_advance s t (DeqClear head v) =
     goto_pc (s\<lparr>mem := set_cell (mem s) head (\<lambda>c. c\<lparr>cval := None\<rparr>)\<rparr>) t (DeqFree head v)"
| "ring_advance s t (DeqFree head v) =
     goto_pc (s\<lparr>mem := set_cell (mem s) head (\<lambda>c. c\<lparr>cseq := head + rmask (mem s) + 1\<rparr>),
                outs := outs s @ [(unat head, v)]\<rparr>) t RIdle"

inductive ring_step :: "'a rsys \<Rightarrow> 'a rsys \<Rightarrow> bool" where
  call_enqueue: "pcs s t = RIdle \<Longrightarrow> ring_step s (goto_pc s t (EnqLoad v))"
| call_dequeue: "pcs s t = RIdle \<Longrightarrow> ring_step s (goto_pc s t DeqLoad)"
| advance: "pcs s t = pc \<Longrightarrow> pc \<noteq> RIdle \<Longrightarrow> ring_step s (ring_advance s t pc)"

inductive_cases ring_stepE [elim!]: "ring_step s s'"

definition ring_start :: "u64 \<Rightarrow> 'a rsys \<Rightarrow> bool" where
  "ring_start capacity s \<longleftrightarrow> (\<exists>r. new_ring capacity = Some r \<and>
     s = \<lparr>mem = r, pcs = \<lambda>_. RIdle, elog = [], dcount = 0, outs = []\<rparr>)"

subsection \<open>The invariant\<close>

fun wpos :: "'a rpc \<Rightarrow> nat option" where
  "wpos (EnqVal v p) = Some (unat p)"
| "wpos (EnqPub v p) = Some (unat p)"
| "wpos _ = None"

fun rpos :: "'a rpc \<Rightarrow> nat option" where
  "rpos (DeqVal p) = Some (unat p)"
| "rpos (DeqClear p v) = Some (unat p)"
| "rpos (DeqFree p v) = Some (unat p)"
| "rpos _ = None"

text \<open>The positions some goroutine owns, as producer (\<open>wpos\<close>) or as consumer (\<open>rpos\<close>),
  and that no two goroutines own the same one.\<close>

definition owners :: "('a rpc \<Rightarrow> nat option) \<Rightarrow> (nat \<Rightarrow> 'a rpc) \<Rightarrow> nat set" where
  "owners f P = {p. \<exists>t. f (P t) = Some p}"

definition exclusive :: "('a rpc \<Rightarrow> nat option) \<Rightarrow> (nat \<Rightarrow> 'a rpc) \<Rightarrow> bool" where
  "exclusive f P \<longleftrightarrow> (\<forall>t u p. f (P t) = Some p \<longrightarrow> f (P u) = Some p \<longrightarrow> t = u)"

lemma owners_same:
  assumes "f pc = f (P t)"
  shows "owners f (P(t := pc)) = owners f P" and "exclusive f (P(t := pc)) = exclusive f P"
proof -
  have "f ((P(t := pc)) u) = f (P u)" for u
    using assms by simp
  then show "owners f (P(t := pc)) = owners f P" and "exclusive f (P(t := pc)) = exclusive f P"
    unfolding owners_def exclusive_def by simp_all
qed

lemma owners_add:
  assumes "f (P t) = None" and "f pc = Some p"
  shows "owners f (P(t := pc)) = insert p (owners f P)"
    and "exclusive f P \<Longrightarrow> p \<notin> owners f P \<Longrightarrow> exclusive f (P(t := pc))"
proof -
  show "owners f (P(t := pc)) = insert p (owners f P)"
    using assms by (auto simp: owners_def) (metis option.distinct(1))
  show "exclusive f (P(t := pc))" if "exclusive f P" "p \<notin> owners f P"
    using assms that unfolding owners_def exclusive_def by auto
qed

lemma owners_del:
  assumes "f (P t) = Some p" and "f pc = None" and "exclusive f P"
  shows "owners f (P(t := pc)) = owners f P - {p}" and "exclusive f (P(t := pc))"
  using assms unfolding owners_def exclusive_def by (fastforce split: if_splits)+

text \<open>
  The invariant speaks of a view of the memory: the number \<open>c\<close> of cells, the sequence
  number \<open>q i\<close> and the pointer \<open>x i\<close> of cell \<open>i\<close>, the counts \<open>T\<close> and \<open>H\<close> of won
  tails and heads. A cell is free for position \<open>p\<close> (its sequence number is \<open>p\<close>), maybe
  with a producer about to fill it, or filled for position \<open>p\<close> (its number is \<open>p + 1\<close>),
  maybe with a consumer about to empty it.
\<close>

definition cell_free :: "nat \<Rightarrow> (nat \<Rightarrow> nat) \<Rightarrow> (nat \<Rightarrow> 'a option) \<Rightarrow> nat \<Rightarrow> nat \<Rightarrow> nat set \<Rightarrow>
    nat \<Rightarrow> nat \<Rightarrow> bool" where
  "cell_free c q x T H W i p \<longleftrightarrow> p mod c = i \<and> q i = p \<and> H \<le> p \<and> p < H + c \<and>
     (p < T \<longrightarrow> p \<in> W) \<and> (T \<le> p \<longrightarrow> x i = None)"

definition cell_filled :: "nat \<Rightarrow> (nat \<Rightarrow> nat) \<Rightarrow> (nat \<Rightarrow> 'a option) \<Rightarrow> nat \<Rightarrow> nat \<Rightarrow>
    'a option list \<Rightarrow> nat set \<Rightarrow> nat \<Rightarrow> nat \<Rightarrow> bool" where
  "cell_filled c q x T H lg R i p \<longleftrightarrow> p mod c = i \<and> q i = p + 1 \<and> p < T \<and> T \<le> p + c \<and>
     (H \<le> p \<longrightarrow> x i = lg ! p) \<and> (p < H \<longrightarrow> p \<in> R)"

fun pc_ok :: "nat \<Rightarrow> (nat \<Rightarrow> nat) \<Rightarrow> (nat \<Rightarrow> 'a option) \<Rightarrow> nat \<Rightarrow> nat \<Rightarrow> 'a option list \<Rightarrow>
    'a rpc \<Rightarrow> bool" where
  "pc_ok c q x T H lg (EnqSeq v w) = (unat w \<le> T)"
| "pc_ok c q x T H lg (EnqCas v w) = (unat w \<le> T \<and> unat w \<le> q (unat w mod c))"
| "pc_ok c q x T H lg (EnqVal v w) =
     (unat w < T \<and> q (unat w mod c) = unat w \<and> lg ! unat w = v)"
| "pc_ok c q x T H lg (EnqPub v w) =
     (unat w < T \<and> q (unat w mod c) = unat w \<and> lg ! unat w = v \<and> x (unat w mod c) = v)"
| "pc_ok c q x T H lg (DeqSeq w) = (unat w \<le> H)"
| "pc_ok c q x T H lg (DeqCas w) = (unat w \<le> H \<and> unat w + 1 \<le> q (unat w mod c))"
| "pc_ok c q x T H lg (DeqVal w) =
     (unat w < H \<and> q (unat w mod c) = unat w + 1 \<and> x (unat w mod c) = lg ! unat w)"
| "pc_ok c q x T H lg (DeqClear w v) =
     (unat w < H \<and> q (unat w mod c) = unat w + 1 \<and> v = lg ! unat w)"
| "pc_ok c q x T H lg (DeqFree w v) =
     (unat w < H \<and> q (unat w mod c) = unat w + 1 \<and> v = lg ! unat w \<and> x (unat w mod c) = None)"
| "pc_ok c q x T H lg _ = True"

definition view_inv :: "nat \<Rightarrow> (nat \<Rightarrow> nat) \<Rightarrow> (nat \<Rightarrow> 'a option) \<Rightarrow> nat \<Rightarrow> nat \<Rightarrow> 'a option list \<Rightarrow>
    (nat \<Rightarrow> 'a rpc) \<Rightarrow> bool" where
  "view_inv c q x T H lg P \<longleftrightarrow> 2 \<le> c \<and> T = length lg \<and> H \<le> T \<and> T \<le> H + c \<and>
     (\<forall>i < c. \<exists>p. cell_free c q x T H (owners wpos P) i p \<or> cell_filled c q x T H lg (owners rpos P) i p) \<and>
     (\<forall>t. pc_ok c q x T H lg (P t)) \<and> exclusive wpos P \<and> exclusive rpos P"

lemma view_invD:
  assumes "view_inv c q x T H lg P"
  shows "2 \<le> c" "T = length lg" "H \<le> T" "T \<le> H + c" "exclusive wpos P" "exclusive rpos P"
    "pc_ok c q x T H lg (P t)"
    "\<exists>p. cell_free c q x T H (owners wpos P) (j mod c) p \<or>
         cell_filled c q x T H lg (owners rpos P) (j mod c) p"
  using assms unfolding view_inv_def by auto

lemma wpos_facts:
  assumes V: "view_inv c q x T H lg P" and w: "wpos (P t) = Some p"
  shows "p < T" and "q (p mod c) = p" and "cell_free c q x T H (owners wpos P) (p mod c) p"
proof -
  show "p < T" and qp: "q (p mod c) = p"
    using view_invD(7) [OF V, of t] w by (cases "P t"; auto)+
  obtain p' where "cell_free c q x T H (owners wpos P) (p mod c) p' \<or>
      cell_filled c q x T H lg (owners rpos P) (p mod c) p'"
    using view_invD(8) [OF V] by blast
  then show "cell_free c q x T H (owners wpos P) (p mod c) p"
    using qp mod_Suc_neq [OF view_invD(1) [OF V], of p'] by (auto simp: cell_free_def cell_filled_def)
qed

lemma rpos_facts:
  assumes V: "view_inv c q x T H lg P" and r: "rpos (P t) = Some p"
  shows "p < H" and "q (p mod c) = p + 1" and "cell_filled c q x T H lg (owners rpos P) (p mod c) p"
proof -
  show "p < H" and qp: "q (p mod c) = p + 1"
    using view_invD(7) [OF V, of t] r by (cases "P t"; auto)+
  obtain p' where "cell_free c q x T H (owners wpos P) (p mod c) p' \<or>
      cell_filled c q x T H lg (owners rpos P) (p mod c) p'"
    using view_invD(8) [OF V] by blast
  then show "cell_filled c q x T H lg (owners rpos P) (p mod c) p"
    using qp mod_Suc_neq [OF view_invD(1) [OF V], of p] by (auto simp: cell_free_def cell_filled_def)
qed

lemma owned_bounds:
  assumes "view_inv c q x T H lg P"
  shows "p \<in> owners wpos P \<Longrightarrow> p < T \<and> H \<le> p" and "p \<in> owners rpos P \<Longrightarrow> p < H \<and> T \<le> p + c"
  using wpos_facts [OF assms] rpos_facts [OF assms]
  by (auto simp: owners_def cell_free_def cell_filled_def)

text \<open>What another goroutine may rely on survives a change that only raises sequence
  numbers and leaves the cell it works on alone.\<close>

lemma pc_ok_mono:
  assumes "pc_ok c q x T H lg pc" and "T \<le> T'" and "H \<le> H'" and "H \<le> T"
    and "\<And>p. p < T \<Longrightarrow> lg' ! p = lg ! p" and "\<And>i. q i \<le> q' i"
    and "\<And>p. wpos pc = Some p \<or> rpos pc = Some p \<Longrightarrow>
           q' (p mod c) = q (p mod c) \<and> x' (p mod c) = x (p mod c)"
  shows "pc_ok c q' x' T' H' lg' pc"
  using assms by (cases pc) (auto intro: order_trans)

text \<open>A producer or consumer that owns a position is alone with its cell.\<close>

lemma producer_alone:
  assumes V: "view_inv c q x T H lg P" and w: "wpos (P t) = Some w" and "u \<noteq> t"
    and "wpos (P u) = Some p \<or> rpos (P u) = Some p"
  shows "p mod c \<noteq> w mod c"
  using assms(4)
proof
  assume p: "wpos (P u) = Some p"
  then have "p \<noteq> w"
    using view_invD(5) [OF V] assms(3) w unfolding exclusive_def by blast
  then show ?thesis
    using wpos_facts(2) [OF V p] wpos_facts(2) [OF V w] by auto
next
  assume p: "rpos (P u) = Some p"
  show ?thesis
    using rpos_facts(2) [OF V p] wpos_facts(2) [OF V w] mod_Suc_neq [OF view_invD(1) [OF V], of p]
    by auto
qed

lemma consumer_alone:
  assumes V: "view_inv c q x T H lg P" and w: "rpos (P t) = Some w" and "u \<noteq> t"
    and "wpos (P u) = Some p \<or> rpos (P u) = Some p"
  shows "p mod c \<noteq> w mod c"
  using assms(4)
proof
  assume p: "wpos (P u) = Some p"
  show ?thesis
    using wpos_facts(2) [OF V p] rpos_facts(2) [OF V w] mod_Suc_neq [OF view_invD(1) [OF V], of w]
    by auto
next
  assume p: "rpos (P u) = Some p"
  then have "p \<noteq> w"
    using view_invD(6) [OF V] assms(3) w unfolding exclusive_def by blast
  then show ?thesis
    using rpos_facts(2) [OF V p] rpos_facts(2) [OF V w] by auto
qed

subsection \<open>Every step keeps the invariant\<close>

lemma view_move:
  assumes "view_inv c q x T H lg P" and "wpos pc = wpos (P t)" and "rpos pc = rpos (P t)"
    and "pc_ok c q x T H lg pc"
  shows "view_inv c q x T H lg (P(t := pc))"
  using assms unfolding view_inv_def by (auto simp: owners_same)

text \<open>Winning the tail: the cell of position \<open>T\<close> must be the free one the producer saw.\<close>

lemma view_win_tail:
  assumes V: "view_inv c q x T H lg P" and pc: "P t = EnqCas v w" and T: "unat w = T"
  shows "view_inv c q x (T + 1) H (lg @ [v]) (P(t := EnqVal v w))"
proof -
  note D = view_invD [OF V]
  let ?P = "P(t := EnqVal v w)" and ?W = "owners wpos P" and ?R = "owners rpos P"
  have seen: "T \<le> q (T mod c)"
    using D(7) [of t] pc T by simp
  obtain p0 where p0: "cell_free c q x T H ?W (T mod c) p0 \<or> cell_filled c q x T H lg ?R (T mod c) p0"
    using D(8) by blast
  have "\<not> cell_filled c q x T H lg ?R (T mod c) p0"
    using seen D(1) mod_gap [of p0 c T] by (auto simp: cell_filled_def)
  with p0 have fr: "cell_free c q x T H ?W (T mod c) p0" by blast
  moreover have "\<not> T < p0"
    using fr D(3) mod_gap [of T c p0] by (auto simp: cell_free_def)
  ultimately have p0T: "p0 = T" and qT: "q (T mod c) = T" and "T < H + c"
    using seen by (auto simp: cell_free_def)
  have TW: "T \<notin> ?W"
    using owned_bounds(1) [OF V, of T] by auto
  have W: "owners wpos ?P = insert T ?W" "exclusive wpos ?P"
    using owners_add [of wpos P t "EnqVal v w" T] D(5) TW pc T by auto
  have R: "owners rpos ?P = ?R" "exclusive rpos ?P"
    using owners_same [of rpos "EnqVal v w" P t] D(6) pc by auto
  have cell: "\<exists>p. cell_free c q x (T + 1) H (insert T ?W) i p \<or> cell_filled c q x (T + 1) H (lg @ [v]) ?R i p"
    if i: "i < c" for i
  proof (cases "i = T mod c")
    case True
    then have "cell_free c q x (T + 1) H (insert T ?W) i T"
      using fr p0T by (auto simp: cell_free_def)
    then show ?thesis by blast
  next
    case False
    obtain p where p: "cell_free c q x T H ?W i p \<or> cell_filled c q x T H lg ?R i p"
      using D(8) [of i] i by auto
    have "cell_free c q x (T + 1) H (insert T ?W) i p" if "cell_free c q x T H ?W i p"
      using that unfolding cell_free_def by (auto simp: less_Suc_eq)
    moreover have "cell_filled c q x (T + 1) H (lg @ [v]) ?R i p" if f: "cell_filled c q x T H lg ?R i p"
    proof -
      have "T \<noteq> p + c"
        using f False by (auto simp: cell_filled_def)
      with f D(2) show ?thesis
        unfolding cell_filled_def by (auto simp: nth_append)
    qed
    ultimately show ?thesis using p by blast
  qed
  have "pc_ok c q x (T + 1) H (lg @ [v]) (?P u)" for u
    using pc_ok_mono [OF D(7) [of u], of "T + 1" H "lg @ [v]" q x] D(2,3) qT T
    by (auto simp: nth_append)
  then show ?thesis
    unfolding view_inv_def W(1) R(1) using D(1-4) \<open>T < H + c\<close> cell W(2) R(2) by simp
qed

text \<open>Storing the value: the cell is free, so nobody may read its pointer.\<close>

lemma view_store_value:
  assumes V: "view_inv c q x T H lg P" and pc: "P t = EnqVal v w"
  shows "view_inv c q (x(unat w mod c := v)) T H lg (P(t := EnqPub v w))"
proof -
  note D = view_invD [OF V]
  let ?P = "P(t := EnqPub v w)" and ?x = "x(unat w mod c := v)"
  have fr: "cell_free c q x T H (owners wpos P) (unat w mod c) (unat w)"
    using wpos_facts(3) [OF V, of t] pc by simp
  have W: "owners wpos ?P = owners wpos P" "exclusive wpos ?P"
    and R: "owners rpos ?P = owners rpos P" "exclusive rpos ?P"
    using owners_same [of wpos "EnqPub v w" P t] owners_same [of rpos "EnqPub v w" P t] D(5,6) pc
    by auto
  have "cell_filled c q ?x T H lg R i p" if "cell_filled c q x T H lg R i p" for R i p
    using that fr mod_Suc_neq [OF D(1), of p] by (auto simp: cell_free_def cell_filled_def)
  moreover have "cell_free c q ?x T H W i p" if "cell_free c q x T H W i p" for W i p
    using that fr wpos_facts(1) [OF V, of t] pc by (auto simp: cell_free_def)
  moreover have "pc_ok c q ?x T H lg (?P u)" for u
  proof (cases "u = t")
    case True
    then show ?thesis using D(7) [of t] pc by simp
  next
    case False
    have "p mod c \<noteq> unat w mod c" if "wpos (P u) = Some p \<or> rpos (P u) = Some p" for p
      using producer_alone [OF V _ False that] pc by simp
    then have "pc_ok c q ?x T H lg (P u)"
      using D(3) by (intro pc_ok_mono [OF D(7) [of u]]) auto
    with False show ?thesis by simp
  qed
  ultimately show ?thesis
    using V W R unfolding view_inv_def by (metis (no_types, lifting))
qed

text \<open>Publishing: the cell turns from free into filled.\<close>

lemma view_publish:
  assumes V: "view_inv c q x T H lg P" and pc: "P t = EnqPub v w"
  shows "view_inv c (q(unat w mod c := unat w + 1)) x T H lg (P(t := RIdle))"
proof -
  note D = view_invD [OF V]
  let ?P = "P(t := RIdle)" and ?q = "q(unat w mod c := unat w + 1)"
  have fr: "cell_free c q x T H (owners wpos P) (unat w mod c) (unat w)" and wT: "unat w < T"
    using wpos_facts [OF V, of t] pc by simp_all
  have val: "x (unat w mod c) = lg ! unat w"
    using D(7) [of t] pc by simp
  have W: "owners wpos ?P = owners wpos P - {unat w}" "exclusive wpos ?P"
    using owners_del [of wpos P t "unat w" RIdle] D(5) pc by simp_all
  have R: "owners rpos ?P = owners rpos P" "exclusive rpos ?P"
    using owners_same [of rpos RIdle P t] D(6) pc by simp_all
  have cell: "\<exists>p. cell_free c ?q x T H (owners wpos P - {unat w}) i p \<or>
      cell_filled c ?q x T H lg (owners rpos P) i p" if i: "i < c" for i
  proof (cases "i = unat w mod c")
    case True
    then have "cell_filled c ?q x T H lg (owners rpos P) i (unat w)"
      using fr wT val D(4) by (auto simp: cell_free_def cell_filled_def)
    then show ?thesis by blast
  next
    case False
    obtain p where "cell_free c q x T H (owners wpos P) i p \<or> cell_filled c q x T H lg (owners rpos P) i p"
      using D(8) [of i] i by auto
    then have "cell_free c ?q x T H (owners wpos P - {unat w}) i p \<or>
        cell_filled c ?q x T H lg (owners rpos P) i p"
      using False by (auto simp: cell_free_def cell_filled_def)
    then show ?thesis by blast
  qed
  have "pc_ok c ?q x T H lg (?P u)" for u
  proof (cases "u = t")
    case False
    have "p mod c \<noteq> unat w mod c" if "wpos (P u) = Some p \<or> rpos (P u) = Some p" for p
      using producer_alone [OF V _ False that] pc by simp
    then have "pc_ok c ?q x T H lg (P u)"
      using D(3) fr by (intro pc_ok_mono [OF D(7) [of u]]) (auto simp: cell_free_def)
    with False show ?thesis by simp
  qed simp
  then show ?thesis
    unfolding view_inv_def W(1) R(1) using D(1-4) cell W(2) R(2) by simp
qed

text \<open>Winning the head: the cell of position \<open>H\<close> must be the filled one the consumer saw.\<close>

lemma view_win_head:
  assumes V: "view_inv c q x T H lg P" and pc: "P t = DeqCas w" and H: "unat w = H"
  shows "view_inv c q x T (H + 1) lg (P(t := DeqVal w))"
proof -
  note D = view_invD [OF V]
  let ?P = "P(t := DeqVal w)" and ?W = "owners wpos P" and ?R = "owners rpos P"
  have seen: "H + 1 \<le> q (H mod c)"
    using D(7) [of t] pc H by simp
  obtain p0 where p0: "cell_free c q x T H ?W (H mod c) p0 \<or> cell_filled c q x T H lg ?R (H mod c) p0"
    using D(8) by blast
  have "\<not> cell_free c q x T H ?W (H mod c) p0"
    using seen mod_gap [of H c p0] by (auto simp: cell_free_def)
  with p0 have fl: "cell_filled c q x T H lg ?R (H mod c) p0" by blast
  moreover have "\<not> H < p0"
    using fl D(4) mod_gap [of H c p0] by (auto simp: cell_filled_def)
  ultimately have p0H: "p0 = H" and qH: "q (H mod c) = H + 1" and "H < T" and xH: "x (H mod c) = lg ! H"
    using seen by (auto simp: cell_filled_def)
  have HR: "H \<notin> ?R"
    using owned_bounds(2) [OF V, of H] by auto
  have R: "owners rpos ?P = insert H ?R" "exclusive rpos ?P"
    using owners_add [of rpos P t "DeqVal w" H] D(6) HR pc H by auto
  have W: "owners wpos ?P = ?W" "exclusive wpos ?P"
    using owners_same [of wpos "DeqVal w" P t] D(5) pc by auto
  have cell: "\<exists>p. cell_free c q x T (H + 1) ?W i p \<or> cell_filled c q x T (H + 1) lg (insert H ?R) i p"
    if i: "i < c" for i
  proof (cases "i = H mod c")
    case True
    then have "cell_filled c q x T (H + 1) lg (insert H ?R) i H"
      using fl p0H by (auto simp: cell_filled_def)
    then show ?thesis by blast
  next
    case False
    obtain p where p: "cell_free c q x T H ?W i p \<or> cell_filled c q x T H lg ?R i p"
      using D(8) [of i] i by auto
    then have "p \<noteq> H"
      using False by (auto simp: cell_free_def cell_filled_def)
    with p have "cell_free c q x T (H + 1) ?W i p \<or> cell_filled c q x T (H + 1) lg (insert H ?R) i p"
      unfolding cell_free_def cell_filled_def by (auto simp: less_Suc_eq)
    then show ?thesis by blast
  qed
  have "pc_ok c q x T (H + 1) lg (?P u)" for u
    using pc_ok_mono [OF D(7) [of u], of T "H + 1" lg q x] D(3) qH xH H by auto
  then show ?thesis
    unfolding view_inv_def W(1) R(1) using D(1-4) \<open>H < T\<close> cell W(2) R(2) by simp
qed

text \<open>Clearing the pointer of a cell whose value has been read.\<close>

lemma view_clear:
  assumes V: "view_inv c q x T H lg P" and pc: "P t = DeqClear w v"
  shows "view_inv c q (x(unat w mod c := None)) T H lg (P(t := DeqFree w v))"
proof -
  note D = view_invD [OF V]
  let ?P = "P(t := DeqFree w v)" and ?x = "x(unat w mod c := None)"
  have fl: "cell_filled c q x T H lg (owners rpos P) (unat w mod c) (unat w)" and wH: "unat w < H"
    using rpos_facts [OF V, of t] pc by simp_all
  have W: "owners wpos ?P = owners wpos P" "exclusive wpos ?P"
    and R: "owners rpos ?P = owners rpos P" "exclusive rpos ?P"
    using owners_same [of wpos "DeqFree w v" P t] owners_same [of rpos "DeqFree w v" P t] D(5,6) pc
    by auto
  have "cell_filled c q ?x T H lg R i p" if "cell_filled c q x T H lg R i p" for R i p
    using that fl wH by (auto simp: cell_filled_def)
  moreover have "cell_free c q ?x T H W i p" if "cell_free c q x T H W i p" for W i p
    using that by (auto simp: cell_free_def)
  moreover have "pc_ok c q ?x T H lg (?P u)" for u
  proof (cases "u = t")
    case True
    then show ?thesis using D(7) [of t] pc by simp
  next
    case False
    have "p mod c \<noteq> unat w mod c" if "wpos (P u) = Some p \<or> rpos (P u) = Some p" for p
      using consumer_alone [OF V _ False that] pc by simp
    then have "pc_ok c q ?x T H lg (P u)"
      using D(3) by (intro pc_ok_mono [OF D(7) [of u]]) auto
    with False show ?thesis by simp
  qed
  ultimately show ?thesis
    using V W R unfolding view_inv_def by (metis (no_types, lifting))
qed

text \<open>Releasing the cell for the position one lap ahead.\<close>

lemma view_release:
  assumes V: "view_inv c q x T H lg P" and pc: "P t = DeqFree w v"
  shows "view_inv c (q(unat w mod c := unat w + c)) x T H lg (P(t := RIdle))"
proof -
  note D = view_invD [OF V]
  let ?P = "P(t := RIdle)" and ?q = "q(unat w mod c := unat w + c)"
  have fl: "cell_filled c q x T H lg (owners rpos P) (unat w mod c) (unat w)" and wH: "unat w < H"
    using rpos_facts [OF V, of t] pc by simp_all
  have R: "owners rpos ?P = owners rpos P - {unat w}" "exclusive rpos ?P"
    using owners_del [of rpos P t "unat w" RIdle] D(6) pc by simp_all
  have W: "owners wpos ?P = owners wpos P" "exclusive wpos ?P"
    using owners_same [of wpos RIdle P t] D(5) pc by simp_all
  have none: "x (unat w mod c) = None"
    using D(7) [of t] pc by simp
  have cell: "\<exists>p. cell_free c ?q x T H (owners wpos P) i p \<or>
      cell_filled c ?q x T H lg (owners rpos P - {unat w}) i p" if i: "i < c" for i
  proof (cases "i = unat w mod c")
    case True
    then have "cell_free c ?q x T H (owners wpos P) i (unat w + c)"
      using fl wH D(3) none by (auto simp: cell_free_def cell_filled_def)
    then show ?thesis by blast
  next
    case False
    obtain p where "cell_free c q x T H (owners wpos P) i p \<or> cell_filled c q x T H lg (owners rpos P) i p"
      using D(8) [of i] i by auto
    then have "cell_free c ?q x T H (owners wpos P) i p \<or>
        cell_filled c ?q x T H lg (owners rpos P - {unat w}) i p"
      using False by (auto simp: cell_free_def cell_filled_def)
    then show ?thesis by blast
  qed
  have "pc_ok c ?q x T H lg (?P u)" for u
  proof (cases "u = t")
    case False
    have "p mod c \<noteq> unat w mod c" if "wpos (P u) = Some p \<or> rpos (P u) = Some p" for p
      using consumer_alone [OF V _ False that] pc by simp
    then have "pc_ok c ?q x T H lg (P u)"
      using D(1,3) fl by (intro pc_ok_mono [OF D(7) [of u]]) (auto simp: cell_filled_def)
    with False show ?thesis by simp
  qed simp
  then show ?thesis
    unfolding view_inv_def W(1) R(1) using D(1-4) cell W(2) R(2) by simp
qed

subsection \<open>The invariant of the system\<close>

definition cq :: "'a ring \<Rightarrow> nat \<Rightarrow> nat" where
  "cq r = (\<lambda>i. unat (cseq (rbuf r ! i)))"

definition cx :: "'a ring \<Rightarrow> nat \<Rightarrow> 'a option" where
  "cx r = (\<lambda>i. cval (rbuf r ! i))"

lemma cq_cx_counters [simp]:
  "cq (r\<lparr>rtail := a\<rparr>) = cq r" "cx (r\<lparr>rtail := a\<rparr>) = cx r"
  "cq (r\<lparr>rhead := a\<rparr>) = cq r" "cx (r\<lparr>rhead := a\<rparr>) = cx r"
  by (simp_all add: cq_def cx_def)

lemma cq_cx_set_cell:
  assumes "ring_shape r k"
  shows "cq (set_cell r p f) = (cq r)(unat p mod 2 ^ k := unat (cseq (f (rbuf r ! (unat p mod 2 ^ k)))))"
    and "cx (set_cell r p f) = (cx r)(unat p mod 2 ^ k := cval (f (rbuf r ! (unat p mod 2 ^ k))))"
  using cell_index_less [OF assms, of p]
  by (auto simp: cq_def cx_def set_cell_def cell_index_mod [OF assms] fun_eq_iff nth_update_any)

lemma ring_shape_updates [simp]:
  "ring_shape (set_cell r p f) k = ring_shape r k"
  "ring_shape (r\<lparr>rtail := a\<rparr>) k = ring_shape r k" "ring_shape (r\<lparr>rhead := a\<rparr>) k = ring_shape r k"
  by (simp_all add: ring_shape_def set_cell_def)

lemma set_cell_counters [simp]:
  "rtail (set_cell r p f) = rtail r" "rhead (set_cell r p f) = rhead r"
  "length (rbuf (set_cell r p f)) = length (rbuf r)"
  by (simp_all add: set_cell_def)

text \<open>Completed calls of \<open>Dequeue\<close>: each won position is either still being served or has
  been returned once, with the value that won the tail at that position.\<close>

definition outs_ok :: "(nat \<times> 'a option) list \<Rightarrow> nat \<Rightarrow> 'a option list \<Rightarrow> nat set \<Rightarrow> bool" where
  "outs_ok os H lg R \<longleftrightarrow> distinct (map fst os) \<and>
     (\<forall>(p, v) \<in> set os. p < H \<and> v = lg ! p \<and> p \<notin> R) \<and>
     (\<forall>p < H. p \<in> R \<or> p \<in> fst ` set os)"

definition rsys_inv :: "'a rsys \<Rightarrow> bool" where
  "rsys_inv s \<longleftrightarrow> (\<exists>k. ring_shape (mem s) k \<and>
     unat (rtail (mem s)) = length (elog s) \<and> unat (rhead (mem s)) = dcount s \<and>
     view_inv (2 ^ k) (cq (mem s)) (cx (mem s)) (length (elog s)) (dcount s) (elog s) (pcs s) \<and>
     outs_ok (outs s) (dcount s) (elog s) (owners rpos (pcs s)))"

definition rsys_small :: "'a rsys \<Rightarrow> bool" where
  "rsys_small s \<longleftrightarrow> length (elog s) + length (rbuf (mem s)) < 2 ^ 64"

lemma rsys_inv_goto:
  assumes "rsys_inv s" and "pcs s t = pc" and "wpos pc' = wpos pc" and "rpos pc' = rpos pc"
    and "\<And>k. ring_shape (mem s) k \<Longrightarrow> unat (rtail (mem s)) = length (elog s) \<Longrightarrow>
           unat (rhead (mem s)) = dcount s \<Longrightarrow>
           pc_ok (2 ^ k) (cq (mem s)) (cx (mem s)) (length (elog s)) (dcount s) (elog s) pc \<Longrightarrow>
           pc_ok (2 ^ k) (cq (mem s)) (cx (mem s)) (length (elog s)) (dcount s) (elog s) pc'"
  shows "rsys_inv (goto_pc s t pc')"
proof -
  obtain k where k: "ring_shape (mem s) k" "unat (rtail (mem s)) = length (elog s)"
      "unat (rhead (mem s)) = dcount s"
      "view_inv (2 ^ k) (cq (mem s)) (cx (mem s)) (length (elog s)) (dcount s) (elog s) (pcs s)"
      "outs_ok (outs s) (dcount s) (elog s) (owners rpos (pcs s))"
    using assms(1) unfolding rsys_inv_def by blast
  have "pc_ok (2 ^ k) (cq (mem s)) (cx (mem s)) (length (elog s)) (dcount s) (elog s) pc'"
    using assms(5) [OF k(1-3)] view_invD(7) [OF k(4), of t] assms(2) by simp
  then have "view_inv (2 ^ k) (cq (mem s)) (cx (mem s)) (length (elog s)) (dcount s) (elog s)
      ((pcs s)(t := pc'))"
    using view_move [OF k(4)] assms(2-4) by simp
  moreover have "owners rpos ((pcs s)(t := pc')) = owners rpos (pcs s)"
    using assms(2,4) by (intro owners_same(1)) simp
  ultimately show ?thesis
    using k unfolding rsys_inv_def goto_pc_def by auto
qed

lemma rsys_inv_win_tail:
  assumes "rsys_inv s" and "pcs s t = EnqCas v w" and "rtail (mem s) = w"
    and "length (elog s) + 1 < 2 ^ 64"
  shows "rsys_inv (ring_advance s t (EnqCas v w))"
proof -
  obtain k where k: "ring_shape (mem s) k" "unat (rtail (mem s)) = length (elog s)"
      "unat (rhead (mem s)) = dcount s"
      "view_inv (2 ^ k) (cq (mem s)) (cx (mem s)) (length (elog s)) (dcount s) (elog s) (pcs s)"
      "outs_ok (outs s) (dcount s) (elog s) (owners rpos (pcs s))"
    using assms(1) unfolding rsys_inv_def by blast
  have "view_inv (2 ^ k) (cq (mem s)) (cx (mem s)) (length (elog s) + 1) (dcount s) (elog s @ [v])
      ((pcs s)(t := EnqVal v w))"
    using view_win_tail [OF k(4) assms(2)] assms(3) k(2) by simp
  moreover have "unat (w + 1) = length (elog s) + 1"
    using unat_plus_small [of w 1] assms(3,4) k(2) by simp
  moreover have "owners rpos ((pcs s)(t := EnqVal v w)) = owners rpos (pcs s)"
    using assms(2) by (intro owners_same(1)) simp
  moreover have "outs_ok (outs s) (dcount s) (elog s @ [v]) (owners rpos (pcs s))"
    using k(5) view_invD(3) [OF k(4)] by (auto simp: outs_ok_def nth_append)
  ultimately show ?thesis
    using k(1,3) assms(3) unfolding rsys_inv_def goto_pc_def
    by (intro exI [where x = k]) (simp add: goto_pc_def)
qed

lemma rsys_inv_win_head:
  assumes "rsys_inv s" and "pcs s t = DeqCas w" and "rhead (mem s) = w"
    and "length (elog s) + 1 < 2 ^ 64"
  shows "rsys_inv (ring_advance s t (DeqCas w))"
proof -
  obtain k where k: "ring_shape (mem s) k" "unat (rtail (mem s)) = length (elog s)"
      "unat (rhead (mem s)) = dcount s"
      "view_inv (2 ^ k) (cq (mem s)) (cx (mem s)) (length (elog s)) (dcount s) (elog s) (pcs s)"
      "outs_ok (outs s) (dcount s) (elog s) (owners rpos (pcs s))"
    using assms(1) unfolding rsys_inv_def by blast
  have "view_inv (2 ^ k) (cq (mem s)) (cx (mem s)) (length (elog s)) (dcount s + 1) (elog s)
      ((pcs s)(t := DeqVal w))"
    using view_win_head [OF k(4) assms(2)] assms(3) k(3) by simp
  moreover have "unat (w + 1) = dcount s + 1"
    using unat_plus_small [of w 1] assms(3,4) k(3) view_invD(3) [OF k(4)] by simp
  moreover have "owners rpos ((pcs s)(t := DeqVal w)) = insert (dcount s) (owners rpos (pcs s))"
    using assms(2,3) k(3) by (intro owners_add(1)) simp_all
  moreover have "outs_ok (outs s) (dcount s + 1) (elog s) (insert (dcount s) (owners rpos (pcs s)))"
    using k(5) by (auto simp: outs_ok_def less_Suc_eq)
  ultimately show ?thesis
    using k(1,2) assms(3) unfolding rsys_inv_def
    by (intro exI [where x = k]) (simp add: goto_pc_def)
qed

lemma rsys_inv_store_value:
  assumes "rsys_inv s" and "pcs s t = EnqVal v w"
  shows "rsys_inv (ring_advance s t (EnqVal v w))"
proof -
  obtain k where k: "ring_shape (mem s) k" "unat (rtail (mem s)) = length (elog s)"
      "unat (rhead (mem s)) = dcount s"
      "view_inv (2 ^ k) (cq (mem s)) (cx (mem s)) (length (elog s)) (dcount s) (elog s) (pcs s)"
      "outs_ok (outs s) (dcount s) (elog s) (owners rpos (pcs s))"
    using assms(1) unfolding rsys_inv_def by blast
  have "owners rpos ((pcs s)(t := EnqPub v w)) = owners rpos (pcs s)"
    using assms(2) by (intro owners_same(1)) simp
  moreover have "cq (mem s) (unat w mod 2 ^ k) = unat (cseq (rbuf (mem s) ! (unat w mod 2 ^ k)))"
    by (simp add: cq_def)
  ultimately show ?thesis
    using k view_store_value [OF k(4) assms(2)] unfolding rsys_inv_def
    by (intro exI [where x = k]) (simp add: goto_pc_def cq_cx_set_cell [OF k(1)] fun_upd_idem)
qed

lemma rsys_inv_publish:
  assumes "rsys_inv s" and "pcs s t = EnqPub v w" and "length (elog s) + 1 < 2 ^ 64"
  shows "rsys_inv (ring_advance s t (EnqPub v w))"
proof -
  obtain k where k: "ring_shape (mem s) k" "unat (rtail (mem s)) = length (elog s)"
      "unat (rhead (mem s)) = dcount s"
      "view_inv (2 ^ k) (cq (mem s)) (cx (mem s)) (length (elog s)) (dcount s) (elog s) (pcs s)"
      "outs_ok (outs s) (dcount s) (elog s) (owners rpos (pcs s))"
    using assms(1) unfolding rsys_inv_def by blast
  have "owners rpos ((pcs s)(t := RIdle)) = owners rpos (pcs s)"
    using assms(2) by (intro owners_same(1)) simp
  moreover have "cx (mem s) (unat w mod 2 ^ k) = cval (rbuf (mem s) ! (unat w mod 2 ^ k))"
    by (simp add: cx_def)
  moreover have "unat (w + 1) = unat w + 1"
    using unat_plus_small [of w 1] wpos_facts(1) [OF k(4), of t] assms(2,3) by simp
  ultimately show ?thesis
    using k view_publish [OF k(4) assms(2)] unfolding rsys_inv_def
    by (intro exI [where x = k]) (simp add: goto_pc_def cq_cx_set_cell [OF k(1)] fun_upd_idem)
qed

lemma rsys_inv_clear:
  assumes "rsys_inv s" and "pcs s t = DeqClear w v"
  shows "rsys_inv (ring_advance s t (DeqClear w v))"
proof -
  obtain k where k: "ring_shape (mem s) k" "unat (rtail (mem s)) = length (elog s)"
      "unat (rhead (mem s)) = dcount s"
      "view_inv (2 ^ k) (cq (mem s)) (cx (mem s)) (length (elog s)) (dcount s) (elog s) (pcs s)"
      "outs_ok (outs s) (dcount s) (elog s) (owners rpos (pcs s))"
    using assms(1) unfolding rsys_inv_def by blast
  have "owners rpos ((pcs s)(t := DeqFree w v)) = owners rpos (pcs s)"
    using assms(2) by (intro owners_same(1)) simp
  moreover have "cq (mem s) (unat w mod 2 ^ k) = unat (cseq (rbuf (mem s) ! (unat w mod 2 ^ k)))"
    by (simp add: cq_def)
  ultimately show ?thesis
    using k view_clear [OF k(4) assms(2)] unfolding rsys_inv_def
    by (intro exI [where x = k]) (simp add: goto_pc_def cq_cx_set_cell [OF k(1)] fun_upd_idem)
qed

lemma rsys_inv_release:
  assumes "rsys_inv s" and "pcs s t = DeqFree w v" and "rsys_small s"
  shows "rsys_inv (ring_advance s t (DeqFree w v))"
proof -
  obtain k where k: "ring_shape (mem s) k" "unat (rtail (mem s)) = length (elog s)"
      "unat (rhead (mem s)) = dcount s"
      "view_inv (2 ^ k) (cq (mem s)) (cx (mem s)) (length (elog s)) (dcount s) (elog s) (pcs s)"
      "outs_ok (outs s) (dcount s) (elog s) (owners rpos (pcs s))"
    using assms(1) unfolding rsys_inv_def by blast
  have own: "unat w \<in> owners rpos (pcs s)" and wH: "unat w < dcount s"
    and val: "v = elog s ! unat w"
    using rpos_facts(1) [OF k(4), of t] view_invD(7) [OF k(4), of t] assms(2)
    by (auto simp: owners_def intro: exI [where x = t])
  have R: "owners rpos ((pcs s)(t := RIdle)) = owners rpos (pcs s) - {unat w}"
    using owners_del(1) [of rpos "pcs s" t "unat w" RIdle] view_invD(6) [OF k(4)] assms(2) by simp
  have ext: "cx (mem s) (unat w mod 2 ^ k) = cval (rbuf (mem s) ! (unat w mod 2 ^ k))"
    by (simp add: cx_def)
  have exp: "unat (2 ^ k :: u64) = 2 ^ k" and len: "length (rbuf (mem s)) = 2 ^ k"
    using k(1) by (auto simp: ring_shape_def unat_exp)
  have lap: "w + rmask (mem s) + 1 = w + 2 ^ k"
    using k(1) by (simp add: ring_shape_def)
  have seq: "unat (w + rmask (mem s) + 1) = unat w + 2 ^ k"
    using unat_plus_small [of w "2 ^ k"] exp len wH view_invD(3) [OF k(4)] assms(3)
    unfolding lap by (simp add: rsys_small_def)
  have "outs_ok (outs s @ [(unat w, v)]) (dcount s) (elog s) (owners rpos (pcs s) - {unat w})"
    using k(5) own wH val unfolding outs_ok_def by force
  then show ?thesis
    using k(1-3) view_release [OF k(4) assms(2)] R seq ext unfolding rsys_inv_def
    by (intro exI [where x = k]) (simp add: goto_pc_def cq_cx_set_cell [OF k(1)] fun_upd_idem)
qed

lemma rsys_room:
  assumes "rsys_inv s" and "rsys_small s"
  shows "length (elog s) + 1 < 2 ^ 64" and "dcount s \<le> length (elog s)"
proof -
  obtain k where k: "ring_shape (mem s) k"
      "view_inv (2 ^ k) (cq (mem s)) (cx (mem s)) (length (elog s)) (dcount s) (elog s) (pcs s)"
    using assms(1) unfolding rsys_inv_def by blast
  then show "length (elog s) + 1 < 2 ^ 64" and "dcount s \<le> length (elog s)"
    using view_invD(1,3) [OF k(2)] assms(2) by (auto simp: ring_shape_def rsys_small_def)
qed

text \<open>All the steps.\<close>

lemma rsys_inv_step:
  assumes inv: "rsys_inv s" and step: "ring_step s s'" and small: "rsys_small s"
  shows "rsys_inv s'"
proof -
  note room = rsys_room [OF inv small]
  from step show ?thesis
  proof cases
    case (call_enqueue t v)
    with inv show ?thesis by (auto intro: rsys_inv_goto)
  next
    case (call_dequeue t)
    with inv show ?thesis by (auto intro: rsys_inv_goto)
  next
    case (advance t pc)
    show ?thesis
    proof (cases pc)
      case (EnqCas v w)
      then show ?thesis
        using advance inv room rsys_inv_win_tail [of s t v w] rsys_inv_goto [of s t "EnqCas v w"]
        by (cases "rtail (mem s) = w") auto
    next
      case (DeqCas w)
      then show ?thesis
        using advance inv room rsys_inv_win_head [of s t w] rsys_inv_goto [of s t "DeqCas w"]
        by (cases "rhead (mem s) = w") auto
    next
      case (EnqVal v w)
      with advance inv show ?thesis by (metis rsys_inv_store_value)
    next
      case (EnqPub v w)
      with advance inv room show ?thesis by (metis rsys_inv_publish)
    next
      case (DeqClear w v)
      with advance inv show ?thesis by (metis rsys_inv_clear)
    next
      case (DeqFree w v)
      with advance inv small show ?thesis by (metis rsys_inv_release)
    next
      case RIdle
      with advance show ?thesis by simp
    next
      case (EnqLoad v)
      with advance inv show ?thesis by (auto intro: rsys_inv_goto)
    next
      case DeqLoad
      with advance inv show ?thesis by (auto intro: rsys_inv_goto)
    next
      case (EnqSeq v w)
      have "rsys_inv (goto_pc s t (EnqCas v w))" if "cseq (rbuf (mem s) ! cell_index (mem s) w) = w"
        using inv advance EnqSeq that
        by (intro rsys_inv_goto [where pc = "EnqSeq v w"]) (auto simp: cell_index_mod cq_def)
      with EnqSeq advance inv show ?thesis
        by (auto simp: Let_def dif64_eq_0_iff intro: rsys_inv_goto)
    next
      case (DeqSeq w)
      have "rsys_inv (goto_pc s t (DeqCas w))" if "cseq (rbuf (mem s) ! cell_index (mem s) w) = w + 1"
        using inv advance DeqSeq that unat_plus_small [of w 1] room
        by (intro rsys_inv_goto [where pc = "DeqSeq w"]) (auto simp: cell_index_mod cq_def)
      with DeqSeq advance inv show ?thesis
        by (auto simp: Let_def dif64_eq_0_iff intro: rsys_inv_goto)
    next
      case (DeqVal w)
      have "rsys_inv (goto_pc s t (DeqClear w (cval (rbuf (mem s) ! cell_index (mem s) w))))"
        using inv advance DeqVal
        by (intro rsys_inv_goto [where pc = "DeqVal w"]) (auto simp: cell_index_mod cx_def)
      with DeqVal advance show ?thesis by simp
    qed
  qed
qed

lemma ring_step_grows:
  assumes "ring_step s s'"
  shows "length (elog s) \<le> length (elog s')" and "length (rbuf (mem s')) = length (rbuf (mem s))"
proof -
  have "length (elog s) \<le> length (elog (ring_advance s t pc)) \<and>
      length (rbuf (mem (ring_advance s t pc))) = length (rbuf (mem s))" for t pc
    by (cases pc) (simp_all add: goto_pc_def Let_def)
  with assms show "length (elog s) \<le> length (elog s')"
    and "length (rbuf (mem s')) = length (rbuf (mem s))"
    by (auto simp: goto_pc_def)
qed

lemma ring_start_inv:
  assumes "ring_start capacity s"
  shows "rsys_inv s"
proof -
  obtain r where r: "new_ring capacity = Some r"
    and s: "s = \<lparr>mem = r, pcs = \<lambda>_. RIdle, elog = [], dcount = 0, outs = []\<rparr>"
    using assms by (auto simp: ring_start_def)
  have "capacity \<le> 2 ^ 63"
    using r new_ring_large [of capacity] by (metis not_less option.distinct(1))
  then obtain k where k: "1 \<le> k" "k \<le> 63" "length (rbuf r) = 2 ^ k" and inv: "ring_inv r"
    using new_ring_ok [of capacity, where ?'a = 'a] r by auto
  have c0: "rhead r = 0" "rtail r = 0"
    using r by (auto simp: new_ring_def Let_def split: option.splits)
  have cnt: "ring_count r = 0"
    using c0 by (simp add: ring_count_def)
  obtain k' where sh: "ring_shape r k'"
    using inv by (auto simp: ring_inv_def)
  then have "2 ^ k' = (2 :: nat) ^ k"
    using k(3) by (simp add: ring_shape_def)
  with sh have sh: "ring_shape r k" by simp
  have cell: "cq r i = i \<and> cx r i = None" if i: "i < 2 ^ k" for i
  proof -
    have "cell_ok r i"
      using inv i k(3) by (auto simp: ring_inv_def)
    moreover have "cell_index r (of_nat i) = i"
      using cell_index_plus [OF sh, of 0 i] i by simp
    moreover have "unat (of_nat i :: u64) = i"
    proof -
      have "(2::nat) ^ k \<le> 2 ^ 63"
        using k(2) by (rule power_increasing) simp
      with i show ?thesis by (simp add: unat_of_nat)
    qed
    ultimately show ?thesis
      using cnt c0 by (simp add: cell_ok_def cell_at_def Let_def cq_def cx_def)
  qed
  have "\<exists>p. cell_free (2 ^ k) (cq r) (cx r) 0 0 W i p" if "i < 2 ^ k" for i W
    using cell [OF that] that by (intro exI [where x = i]) (simp add: cell_free_def)
  moreover have "2 \<le> (2::nat) ^ k"
    using power_increasing [OF k(1), of "2::nat"] by simp
  ultimately have "view_inv (2 ^ k) (cq r) (cx r) 0 0 [] (\<lambda>_. RIdle)"
    unfolding view_inv_def by (auto simp: exclusive_def)
  then show ?thesis
    using sh c0 unfolding rsys_inv_def s by (auto simp: outs_ok_def owners_def)
qed

lemma rsys_small_back: "ring_step s s' \<Longrightarrow> rsys_small s' \<Longrightarrow> rsys_small s"
  using ring_step_grows [of s s'] by (simp add: rsys_small_def)

interpretation ringsys: bounded_invariant "ring_start capacity" ring_step rsys_inv rsys_small
  for capacity
proof unfold_locales
  fix s :: "'b rsys"
  assume "ring_start capacity s"
  then show "rsys_inv s" by (rule ring_start_inv)
next
  fix s s' :: "'b rsys"
  assume "ring_step s s'" and "rsys_small s'"
  then show "rsys_small s" by (rule rsys_small_back)
next
  fix s s' :: "'b rsys"
  assume inv: "rsys_inv s" and step: "ring_step s s'" and small: "rsys_small s'"
  show "rsys_inv s'"
    using inv step rsys_small_back [OF step small] by (rule rsys_inv_step)
qed

subsection \<open>When nobody is inside\<close>

text \<open>In a state where every goroutine has returned, the memory is a ring in the sequential
  sense, and holds exactly the values not yet taken.\<close>

lemma quiescent_cell:
  assumes V: "view_inv (2 ^ k) q x T H log pc" and idle: "\<And>t. pc t = RIdle" and i: "i < 2 ^ k"
  shows "q ((H + i) mod 2 ^ k) = (if i < T - H then H + i + 1 else H + i) \<and>
    x ((H + i) mod 2 ^ k) = (if i < T - H then log ! (H + i) else None)"
proof -
  note D = view_invD [OF V]
  have none: "owners f pc = {}" if "f RIdle = None" for f
    using idle that by (auto simp: owners_def)
  obtain p where p: "cell_free (2 ^ k) q x T H {} ((H + i) mod 2 ^ k) p \<or>
      cell_filled (2 ^ k) q x T H log {} ((H + i) mod 2 ^ k) p"
    using D(8) [of "H + i"] by (auto simp: none)
  then have "p mod 2 ^ k = (H + i) mod 2 ^ k" and "H \<le> p" and "p < H + 2 ^ k"
    using D(4) by (auto simp: cell_free_def cell_filled_def not_less)
  then have "p = H + i"
    using mod_gap [of p "2 ^ k" "H + i"] mod_gap [of "H + i" "2 ^ k" p] i
    by (cases p "H + i" rule: linorder_cases) auto
  with p show ?thesis
    by (auto simp: cell_free_def cell_filled_def)
qed

lemma quiescent_ring:
  assumes inv: "rsys_inv s" and small: "rsys_small s" and idle: "\<And>t. pcs s t = RIdle"
  shows "ring_inv (mem s)" and "ring_list (mem s) = drop (dcount s) (elog s)"
proof -
  let ?T = "length (elog s)" and ?H = "dcount s" and ?r = "mem s"
  obtain k where sh: "ring_shape ?r k" and T: "unat (rtail ?r) = ?T" and H: "unat (rhead ?r) = ?H"
    and V: "view_inv (2 ^ k) (cq ?r) (cx ?r) ?T ?H (elog s) (pcs s)"
    using inv unfolding rsys_inv_def by blast
  note D = view_invD [OF V]
  have len: "length (rbuf ?r) = 2 ^ k"
    using sh by (simp add: ring_shape_def)
  have "rhead ?r \<le> rtail ?r"
    using D(3) T H by (simp add: word_le_nat_alt)
  then have cnt: "ring_count ?r = ?T - ?H"
    using T H by (simp add: ring_count_def unat_sub)
  have at: "cell_at ?r i = rbuf ?r ! ((?H + i) mod 2 ^ k)" for i
    using cell_index_plus [OF sh, of "rhead ?r" i] H by (simp add: cell_at_def)
  note seq = quiescent_cell [OF V idle]
  have word: "unat (rhead ?r + of_nat i) = ?H + i \<and> unat (rhead ?r + of_nat i + 1) = ?H + i + 1"
    if i: "i < 2 ^ k" for i
  proof -
    have b: "?H + i + 1 < 2 ^ 64"
      using i D(3) small len by (simp add: rsys_small_def)
    then have u: "unat (of_nat i :: u64) = i"
      by (simp add: unat_of_nat)
    then have "unat (rhead ?r + of_nat i) = ?H + i"
      using b H by (subst unat_plus_small) simp_all
    then show ?thesis
      using b by (subst unat_plus_small) simp_all
  qed
  have "cell_ok ?r i" if "i < 2 ^ k" for i
    using seq [OF that] word [OF that] cnt at [of i]
    by (auto simp: cell_ok_def Let_def cq_def cx_def word_unat_eq_iff)
  then show "ring_inv ?r"
    using sh cnt len D(4) by (auto simp: ring_inv_def)
  show "ring_list ?r = drop ?H (elog s)"
  proof (rule nth_equalityI)
    show "length (ring_list ?r) = length (drop ?H (elog s))"
      using cnt by simp
    fix i
    assume "i < length (ring_list ?r)"
    then have i: "i < ?T - ?H" and "i < 2 ^ k"
      using cnt D(4) by simp_all
    then show "ring_list ?r ! i = drop ?H (elog s) ! i"
      using seq [of i] at [of i] cnt by (simp add: ring_list_def cx_def)
  qed
qed

subsection \<open>What has been handed out\<close>

lemma reach_outs:
  assumes "reach (ring_start capacity) ring_step s"
    and "length (elog s) + length (rbuf (mem s)) < 2 ^ 64"
  shows "distinct (map fst (outs s))" and "\<forall>(p, v) \<in> set (outs s). p < dcount s \<and> v = elog s ! p"
    and "dcount s \<le> length (elog s)" and "length (elog s) \<le> dcount s + length (rbuf (mem s))"
proof -
  have "rsys_inv s"
    using ringsys.reach_small [OF assms(1)] assms(2) by (simp add: rsys_small_def)
  then obtain k where "ring_shape (mem s) k"
      and V: "view_inv (2 ^ k) (cq (mem s)) (cx (mem s)) (length (elog s)) (dcount s) (elog s) (pcs s)"
      and o: "outs_ok (outs s) (dcount s) (elog s) (owners rpos (pcs s))"
    unfolding rsys_inv_def by blast
  then show "distinct (map fst (outs s))" and "\<forall>(p, v) \<in> set (outs s). p < dcount s \<and> v = elog s ! p"
    and "dcount s \<le> length (elog s)" and "length (elog s) \<le> dcount s + length (rbuf (mem s))"
    using view_invD(3,4) [OF V] by (auto simp: outs_ok_def ring_shape_def)
qed

lemma reach_rest:
  assumes "reach (ring_start capacity) ring_step s"
    and "length (elog s) + length (rbuf (mem s)) < 2 ^ 64"
    and "\<And>t. pcs s t = RIdle"
  shows "ring_inv (mem s) \<and> ring_list (mem s) = drop (dcount s) (elog s) \<and>
    distinct (map fst (outs s)) \<and> set (outs s) = {(p, elog s ! p) | p. p < dcount s}"
proof -
  have small: "rsys_small s"
    using assms(2) by (simp add: rsys_small_def)
  have inv: "rsys_inv s"
    using ringsys.reach_small [OF assms(1) small] .
  have "owners rpos (pcs s) = {}"
    using assms(3) by (simp add: owners_def)
  then have "outs_ok (outs s) (dcount s) (elog s) {}"
    using inv unfolding rsys_inv_def by auto
  then have "distinct (map fst (outs s)) \<and> set (outs s) = {(p, elog s ! p) | p. p < dcount s}"
    unfolding outs_ok_def by force
  then show ?thesis
    using quiescent_ring [OF inv small assms(3)] by simp
qed

subsection \<open>Schedules\<close>

text \<open>A schedule names, step by step, who calls what or who makes the next access.\<close>

datatype 'a ract = CallEnq nat "'a option" | CallDeq nat | Run nat

fun ring_act :: "'a rsys \<Rightarrow> 'a ract \<Rightarrow> 'a rsys" where
  "ring_act s (CallEnq t v) = (case pcs s t of RIdle \<Rightarrow> goto_pc s t (EnqLoad v) | _ \<Rightarrow> s)"
| "ring_act s (CallDeq t) = (case pcs s t of RIdle \<Rightarrow> goto_pc s t DeqLoad | _ \<Rightarrow> s)"
| "ring_act s (Run t) = ring_advance s t (pcs s t)"

lemma ring_act_cases: "ring_act s a = s \<or> ring_step s (ring_act s a)"
proof (cases a)
  case (Run t)
  then show ?thesis
    by (cases "pcs s t = RIdle") (auto intro: ring_step.intros)
qed (auto split: rpc.split intro: ring_step.intros)

lemma reach_ring_schedule:
  "reach (ring_start capacity) ring_step s \<Longrightarrow>
     reach (ring_start capacity) ring_step (run_schedule ring_act s acts)"
  using reach_run_schedule [where f = ring_act] ring_act_cases by blast

definition ring2_start :: "nat rsys" where
  "ring2_start = \<lparr>mem = \<lparr>rmask = 1, rbuf = [\<lparr>cseq = 0, cval = None\<rparr>, \<lparr>cseq = 1, cval = None\<rparr>],
     rhead = 0, rtail = 0\<rparr>, pcs = \<lambda>_. RIdle, elog = [], dcount = 0, outs = []\<rparr>"

lemma ring2_start: "ring_start 2 ring2_start"
proof -
  have "round_up 1 2 = Some 2"
    by (simp add: round_up.simps push_bit_eq_mult)
  then show ?thesis
    by (simp add: ring_start_def ring2_start_def new_ring_def upt_rec)
qed

text \<open>Two producers race for the tail, the later one wins; a consumer takes the first value
  before the second is published.\<close>

definition ring2_race :: "nat ract list" where
  "ring2_race = [CallEnq 0 (Some 10), Run 0, Run 0, CallEnq 1 (Some 20), Run 1, Run 1, Run 1,
     Run 0, Run 0, Run 0, Run 0, CallDeq 2, Run 1, Run 1, Run 2, Run 2, Run 2, Run 2, Run 2, Run 2]"

lemma ring2_race_end:
  "outs (run_schedule ring_act ring2_start ring2_race) = [(0, Some 20)]"
  "elog (run_schedule ring_act ring2_start ring2_race) = [Some 20, Some 10]"
  "dcount (run_schedule ring_act ring2_start ring2_race) = 1"
  "pcs (run_schedule ring_act ring2_start ring2_race) 0 = EnqVal (Some 10) 1"
  "length (rbuf (mem (run_schedule ring_act ring2_start ring2_race))) = 2"
  by (simp_all add: ring2_race_def ring2_start_def goto_pc_def set_cell_def cell_index_def
      dif64_def wrap64_def)

lemma ring2_race_reached: "reach (ring_start 2) ring_step (run_schedule ring_act ring2_start ring2_race)"
  by (intro reach_ring_schedule reach_start ring2_start)

text \<open>The same race run to its end, with a second \<open>Dequeue\<close>.\<close>

definition ring2_settled :: "nat ract list" where
  "ring2_settled = ring2_race @ [Run 0, Run 0]"

lemma ring2_settled_end:
  "pcs (run_schedule ring_act ring2_start ring2_settled) = (\<lambda>_. RIdle)"
  "elog (run_schedule ring_act ring2_start ring2_settled) = [Some 20, Some 10]"
  "dcount (run_schedule ring_act ring2_start ring2_settled) = 1"
  "length (rbuf (mem (run_schedule ring_act ring2_start ring2_settled))) = 2"
  by (simp_all add: ring2_settled_def ring2_race_def ring2_start_def goto_pc_def set_cell_def
      cell_index_def dif64_def wrap64_def fun_eq_iff)

lemma ring2_settled_reached:
  "reach (ring_start 2) ring_step (run_schedule ring_act ring2_start ring2_settled)"
  by (intro reach_ring_schedule reach_start ring2_start)

subsection \<open>A goroutine alone\<close>

text \<open>A goroutine that nobody interrupts computes what the sequential operations compute:
  five accesses for a successful call, two for a refused one.\<close>

definition ring_solo :: "nat \<Rightarrow> nat \<Rightarrow> 'a rsys \<Rightarrow> 'a rsys" where
  "ring_solo t n s = run_schedule ring_act s (replicate n (Run t))"

lemma ring_cell_rebuild: "(c :: 'a ring_cell)\<lparr>cval := v, cseq := p\<rparr> = \<lparr>cseq = p, cval = v\<rparr>"
  by (cases c) simp

lemma ring_solo_simps [simp]:
  "ring_solo t 0 s = s"
  "ring_solo t (Suc n) s = ring_solo t n (ring_advance s t (pcs s t))"
  by (simp_all add: ring_solo_def)

subsection \<open>Properties\<close>

text \<open>C1. Concurrent FIFO safety of the lock-free ring. In every interleaving of any number
  of producers and consumers, as long as the 64-bit counters have not been used up: no
  position is returned by two calls of \<open>Dequeue\<close>, every call returns exactly the value
  whose producer won the tail at that position (nothing is lost in between, invented or
  reordered), and the number of values taken in but not taken out never exceeds the
  capacity.\<close>

theorem ring_concurrent_fifo:
  assumes "reach (ring_start capacity) ring_step s"
    and "length (elog s) + length (rbuf (mem s)) < 2 ^ 64"
  shows "distinct (map fst (outs s)) \<and> (\<forall>(p, v) \<in> set (outs s). p < dcount s \<and> v = elog s ! p) \<and>
    dcount s \<le> length (elog s) \<and> length (elog s) \<le> dcount s + length (rbuf (mem s))"
  using reach_outs [OF assms] by blast

theorem ring_concurrent_fifo_witness:
  "\<exists>s :: nat rsys. reach (ring_start 2) ring_step s \<and> outs s = [(0, Some 20)] \<and>
     pcs s 0 = EnqVal (Some 10) 1 \<and> Some 20 = elog s ! 0 \<and> length (elog s) \<le> dcount s + 2"
proof -
  let ?s = "run_schedule ring_act ring2_start ring2_race"
  note run = ring2_race_end
  have small: "length (elog ?s) + length (rbuf (mem ?s)) < 2 ^ 64"
    by (simp add: run)
  have "(0, Some 20) \<in> set (outs ?s)"
    by (simp add: run)
  then have "Some 20 = elog ?s ! 0"
    using ring_concurrent_fifo [OF ring2_race_reached small] by blast
  moreover have "length (elog ?s) \<le> dcount ?s + 2"
    using ring_concurrent_fifo [OF ring2_race_reached small] by (simp add: run)
  ultimately show ?thesis
    using ring2_race_reached run(1,4) by (intro exI [where x = ?s]) simp
qed

text \<open>C25. When the calls have all returned, the memory of the ring satisfies the sequential
  invariant again, it holds exactly the values that were taken in and not yet taken out, in
  the order in which the producers won the tail, and every value taken out was returned to
  exactly one caller.\<close>

theorem ring_concurrent_quiescent:
  assumes "reach (ring_start capacity) ring_step s"
    and "length (elog s) + length (rbuf (mem s)) < 2 ^ 64"
    and "\<And>t. pcs s t = RIdle"
  shows "ring_inv (mem s) \<and> ring_list (mem s) = drop (dcount s) (elog s) \<and>
    distinct (map fst (outs s)) \<and> set (outs s) = {(p, elog s ! p) | p. p < dcount s}"
  using reach_rest [OF assms] by blast

theorem ring_concurrent_quiescent_witness:
  "ring_list (mem (run_schedule ring_act ring2_start ring2_settled)) = [Some 10]"
proof -
  let ?s = "run_schedule ring_act ring2_start ring2_settled"
  have "length (elog ?s) + length (rbuf (mem ?s)) < 2 ^ 64" and "pcs ?s t = RIdle" for t
    by (simp_all add: ring2_settled_end)
  then show ?thesis
    using ring_concurrent_quiescent [OF ring2_settled_reached] by (simp add: ring2_settled_end)
qed



end
