(* ===== verification/Segmented.thy ===== *)
theory Segmented
  imports Ring
begin

text \<open>
  \<open>mailbox/segmented.go\<close>: a queue that grows by linking ring buffers, as one goroutine at a
  time executes it. Segments live in a store and are named by their address, so that the
  pointers \<open>head\<close>, \<open>tail\<close> and \<open>next\<close> are what they are in the code. The executions that
  interleave are in \<open>SegmentedConc\<close>.
\<close>

subsection \<open>State and operations\<close>

record 'a segment =
  sq :: "'a ring"
  snext :: "nat option"

record 'a segq =
  smem :: "'a segment list"
  shead :: nat
  stail :: nat
  seg_cap :: u64
  seg_count :: u64
  max_seg :: u64

definition new_segq :: "u64 \<Rightarrow> u64 \<Rightarrow> 'a segq option" where
  "new_segq segment_capacity max_segments =
     (let maxs = (if max_segments = 0 then 1 else max_segments) in
      case new_ring segment_capacity of
        None \<Rightarrow> None
      | Some r \<Rightarrow> Some \<lparr>smem = [\<lparr>sq = r, snext = None\<rparr>], shead = 0, stail = 0,
          seg_cap = segment_capacity, seg_count = 1, max_seg = maxs\<rparr>)"

definition segq_capacity :: "'a segq \<Rightarrow> u64" where
  "segq_capacity q = seg_cap q * max_seg q"

definition len_segments :: "'a segq \<Rightarrow> u64" where
  "len_segments q = seg_count q"

definition set_ring :: "'a segq \<Rightarrow> nat \<Rightarrow> 'a ring \<Rightarrow> 'a segq" where
  "set_ring q a r = q\<lparr>smem := (smem q)[a := (smem q ! a)\<lparr>sq := r\<rparr>]\<rparr>"

text \<open>\<open>t.next.CompareAndSwap(nil, ns)\<close>, \<open>q.tail.CompareAndSwap(t, ns)\<close> and
  \<open>q.segs.Add(1)\<close>, which all succeed when nobody interferes.\<close>

definition link_segment :: "'a segq \<Rightarrow> 'a ring \<Rightarrow> 'a segq" where
  "link_segment q r =
     (let t = stail q; ns = length (smem q) in
      q\<lparr>smem := (smem q)[t := (smem q ! t)\<lparr>snext := Some ns\<rparr>] @ [\<lparr>sq = r, snext = None\<rparr>],
        stail := ns, seg_count := seg_count q + 1\<rparr>)"

partial_function (option) segq_enqueue :: "'a segq \<Rightarrow> 'a option \<Rightarrow> ('a segq \<times> bool) option" where
  "segq_enqueue q v =
     (case ring_enqueue (sq (smem q ! stail q)) v of
        None \<Rightarrow> None
      | Some (r, ok) \<Rightarrow>
          if ok then Some (set_ring q (stail q) r, True)
          else if max_seg q \<le> seg_count q then Some (set_ring q (stail q) r, False)
          else (case snext (smem q ! stail q) of
                  None \<Rightarrow> (case new_ring (seg_cap q) of
                      None \<Rightarrow> None
                    | Some nr \<Rightarrow> segq_enqueue (link_segment (set_ring q (stail q) r) nr) v)
                | Some n \<Rightarrow> segq_enqueue ((set_ring q (stail q) r)\<lparr>stail := n\<rparr>) v))"

partial_function (option) segq_dequeue :: "'a segq \<Rightarrow> ('a segq \<times> 'a option \<times> bool) option" where
  "segq_dequeue q =
     (case ring_dequeue (sq (smem q ! shead q)) of
        None \<Rightarrow> None
      | Some (r, v, ok) \<Rightarrow>
          if ok then Some (set_ring q (shead q) r, v, True)
          else (case snext (smem q ! shead q) of
                  None \<Rightarrow> Some (set_ring q (shead q) r, None, False)
                | Some n \<Rightarrow> segq_dequeue ((set_ring q (shead q) r)
                      \<lparr>shead := n, seg_count := seg_count q + NOT 0\<rparr>)))"

subsection \<open>The queue it stands for\<close>

definition seg_list :: "'a segq \<Rightarrow> nat \<Rightarrow> 'a option list" where
  "seg_list q a = ring_list (sq (smem q ! a))"

definition segq_list :: "'a segq \<Rightarrow> 'a option list" where
  "segq_list q = concat (map (seg_list q) [shead q..<length (smem q)])"

definition live_segs :: "'a segq \<Rightarrow> nat" where
  "live_segs q = length (smem q) - shead q"

text \<open>Without interference the segments from the head on form the chain of addresses from
  \<open>shead\<close> to the last one allocated, which is the tail; every segment strictly between
  head and tail is full; all rings have \<open>c\<close> cells.\<close>

definition segq_shape :: "'a segq \<Rightarrow> nat \<Rightarrow> bool" where
  "segq_shape q c \<longleftrightarrow> shead q < length (smem q) \<and> Suc (stail q) = length (smem q) \<and>
     (\<exists>r. (new_ring (seg_cap q) :: 'a ring option) = Some r \<and> length (rbuf r) = c) \<and>
     (\<forall>a < length (smem q). ring_inv (sq (smem q ! a)) \<and> length (rbuf (sq (smem q ! a))) = c \<and>
        snext (smem q ! a) = (if a = stail q then None else Some (Suc a)) \<and>
        (shead q < a \<and> a < stail q \<longrightarrow> ring_full (sq (smem q ! a))))"

definition segq_inv :: "'a segq \<Rightarrow> bool" where
  "segq_inv q \<longleftrightarrow> (\<exists>c. segq_shape q c) \<and> seg_count q = of_nat (live_segs q) \<and>
     live_segs q \<le> unat (max_seg q)"

definition segq_full :: "'a segq \<Rightarrow> bool" where
  "segq_full q \<longleftrightarrow> ring_full (sq (smem q ! stail q)) \<and> live_segs q = unat (max_seg q)"

lemma segq_shapeD:
  assumes "segq_shape q c" and "a < length (smem q)"
  shows "ring_inv (sq (smem q ! a))" "length (rbuf (sq (smem q ! a))) = c"
    "snext (smem q ! a) = (if a = stail q then None else Some (Suc a))"
    "shead q < a \<Longrightarrow> a < stail q \<Longrightarrow> ring_full (sq (smem q ! a))"
  using assms unfolding segq_shape_def by blast+

lemma seg_count_eq:
  assumes "segq_inv q"
  shows "unat (seg_count q) = live_segs q"
  using assms unat_bound [of "max_seg q"] by (simp add: segq_inv_def unat_of_nat_small)

lemma segq_list_tail:
  assumes "segq_shape q c"
  shows "segq_list q = concat (map (seg_list q) [shead q..<stail q]) @ seg_list q (stail q)"
proof -
  have "length (smem q) = Suc (stail q)" and "shead q \<le> stail q"
    using assms by (auto simp: segq_shape_def)
  then show ?thesis
    by (simp add: segq_list_def)
qed

lemma segq_list_head:
  assumes "shead q < length (smem q)"
  shows "segq_list q = seg_list q (shead q) @ concat (map (seg_list q) [Suc (shead q)..<length (smem q)])"
  using assms by (simp add: segq_list_def upt_conv_Cons)

lemma set_ring_simps [simp]:
  "shead (set_ring q a r) = shead q" "stail (set_ring q a r) = stail q"
  "seg_cap (set_ring q a r) = seg_cap q" "seg_count (set_ring q a r) = seg_count q"
  "max_seg (set_ring q a r) = max_seg q" "length (smem (set_ring q a r)) = length (smem q)"
  by (simp_all add: set_ring_def)

lemma set_ring_nth:
  assumes "a < length (smem q)"
  shows "smem (set_ring q a r) ! b = (if b = a then (smem q ! a)\<lparr>sq := r\<rparr> else smem q ! b)"
  using assms by (simp add: set_ring_def nth_update_any)

lemma set_ring_same: "set_ring q a (sq (smem q ! a)) = q"
  by (simp add: set_ring_def)

lemma seg_list_set_ring:
  assumes "a < length (smem q)"
  shows "seg_list (set_ring q a r) b = (if b = a then ring_list r else seg_list q b)"
  using set_ring_nth [OF assms] by (simp add: seg_list_def)

lemma shape_set_ring:
  assumes "segq_shape q c" and "a < length (smem q)" and "ring_inv r" and "length (rbuf r) = c"
    and "shead q < a \<Longrightarrow> a < stail q \<Longrightarrow> ring_full r"
  shows "segq_shape (set_ring q a r) c"
  using assms segq_shapeD [OF assms(1)]
  by (auto simp: segq_shape_def set_ring_nth [OF assms(2)])

lemma live_set_ring [simp]: "live_segs (set_ring q a r) = live_segs q"
  by (simp add: live_segs_def)

subsection \<open>Enqueue\<close>

lemma segq_list_set_tail:
  assumes "segq_shape q c"
  shows "segq_list (set_ring q (stail q) r) =
    concat (map (seg_list q) [shead q..<stail q]) @ ring_list r"
proof -
  have t: "stail q < length (smem q)" and h: "shead q \<le> stail q"
    using assms by (auto simp: segq_shape_def)
  have same: "map (seg_list (set_ring q (stail q) r)) [shead q..<stail q] =
      map (seg_list q) [shead q..<stail q]"
    by (simp add: seg_list_set_ring [OF t])
  have "length (smem q) = Suc (stail q)"
    using assms by (simp add: segq_shape_def)
  then have "segq_list (set_ring q (stail q) r) =
      concat (map (seg_list (set_ring q (stail q) r)) [shead q..<stail q]) @ ring_list r"
    using h by (simp add: segq_list_def seg_list_set_ring [OF t])
  then show ?thesis
    by (simp only: same)
qed

lemma segq_enqueue_room:
  assumes "segq_inv q" and "\<not> ring_full (sq (smem q ! stail q))"
  shows "\<exists>q'. segq_enqueue q v = Some (q', True) \<and> segq_inv q' \<and> segq_list q' = segq_list q @ [v]"
proof -
  obtain c where sh: "segq_shape q c"
    using assms(1) by (auto simp: segq_inv_def)
  have t: "stail q < length (smem q)"
    using sh by (auto simp: segq_shape_def)
  note D = segq_shapeD [OF sh t]
  obtain r where r: "ring_enqueue (sq (smem q ! stail q)) v = Some (r, True)" "ring_inv r"
    "ring_list r = ring_list (sq (smem q ! stail q)) @ [v]" "length (rbuf r) = c"
    using ring_enqueue_step [OF D(1) assms(2), of v] D(2) by blast
  have "segq_shape (set_ring q (stail q) r) c"
    using shape_set_ring [OF sh t r(2,4)] by simp
  then have "segq_inv (set_ring q (stail q) r)"
    using assms(1) unfolding segq_inv_def by auto
  moreover have "segq_list (set_ring q (stail q) r) = segq_list q @ [v]"
    using segq_list_set_tail [OF sh] segq_list_tail [OF sh] r(3) by (simp add: seg_list_def)
  moreover have "segq_enqueue q v = Some (set_ring q (stail q) r, True)"
    by (subst segq_enqueue.simps) (simp add: r(1))
  ultimately show ?thesis by blast
qed

lemma segq_enqueue_full:
  assumes "segq_inv q" and "segq_full q"
  shows "segq_enqueue q v = Some (q, False)"
proof -
  obtain c where sh: "segq_shape q c"
    using assms(1) by (auto simp: segq_inv_def)
  have t: "stail q < length (smem q)"
    using sh by (auto simp: segq_shape_def)
  have "max_seg q \<le> seg_count q"
    using assms seg_count_eq [OF assms(1)] by (simp add: segq_full_def word_le_nat_alt)
  moreover have "ring_enqueue (sq (smem q ! stail q)) v = Some (sq (smem q ! stail q), False)"
    using assms(2) by (intro ring_enqueue_full segq_shapeD(1) [OF sh t]) (simp add: segq_full_def)
  ultimately show ?thesis
    by (subst segq_enqueue.simps) (simp add: set_ring_same)
qed

text \<open>Linking a fresh segment behind a full tail.\<close>

lemma link_segment_ok:
  assumes sh: "segq_shape q c" and full: "ring_full (sq (smem q ! stail q))"
    and nr: "new_ring (seg_cap q) = Some nr"
  shows "segq_shape (link_segment q nr) c" and "segq_list (link_segment q nr) = segq_list q"
    and "live_segs (link_segment q nr) = Suc (live_segs q)"
    and "\<not> ring_full (sq (smem (link_segment q nr) ! stail (link_segment q nr)))"
proof -
  let ?q = "link_segment q nr"
  have t: "stail q < length (smem q)" "Suc (stail q) = length (smem q)" "shead q \<le> stail q"
    using sh by (auto simp: segq_shape_def)
  have nrc: "length (rbuf nr) = c"
    using sh nr by (auto simp: segq_shape_def)
  have ni: "ring_inv nr" "ring_list nr = []" "0 < c"
    using new_ring_Some [OF nr] nrc by auto
  have tl: "stail ?q = length (smem q)" and hd: "shead ?q = shead q" and cap: "seg_cap ?q = seg_cap q"
    and len: "length (smem ?q) = Suc (length (smem q))"
    by (simp_all add: link_segment_def Let_def)
  have at: "smem ?q ! a = (if a = length (smem q) then \<lparr>sq = nr, snext = None\<rparr>
      else if a = stail q then (smem q ! a)\<lparr>snext := Some (length (smem q))\<rparr> else smem q ! a)"
    if "a \<le> length (smem q)" for a
    using that t by (auto simp: link_segment_def Let_def nth_append)
  have rings: "sq (smem ?q ! a) = sq (smem q ! a)" if "a < length (smem q)" for a
    using at [of a] that by auto
  have mid: "ring_full (sq (smem q ! a))" if "shead q < a" "a < length (smem q)" for a
    using that full segq_shapeD(4) [OF sh that(2)] t by (cases "a = stail q") auto
  have "ring_inv (sq (smem ?q ! a)) \<and> length (rbuf (sq (smem ?q ! a))) = c \<and>
      snext (smem ?q ! a) = (if a = stail ?q then None else Some (Suc a)) \<and>
      (shead ?q < a \<and> a < stail ?q \<longrightarrow> ring_full (sq (smem ?q ! a)))" if "a < length (smem ?q)" for a
    using that at [of a] ni nrc segq_shapeD(1-3) [OF sh, of a] mid [of a] tl hd len t
    by (cases "a = length (smem q)") auto
  then show "segq_shape ?q c"
    using sh tl hd len cap unfolding segq_shape_def by auto
  have same: "map (seg_list ?q) [shead q..<length (smem q)] = map (seg_list q) [shead q..<length (smem q)]"
    using rings by (intro map_cong) (auto simp: seg_list_def)
  have "seg_list ?q (length (smem q)) = []"
    using at [of "length (smem q)"] ni by (simp add: seg_list_def)
  then have "segq_list ?q = concat (map (seg_list ?q) [shead q..<length (smem q)])"
    using t hd len by (simp add: segq_list_def)
  then show "segq_list ?q = segq_list q"
    by (simp only: same segq_list_def)
  show "live_segs ?q = Suc (live_segs q)"
    using t hd len by (simp add: live_segs_def Suc_diff_le)
  show "\<not> ring_full (sq (smem ?q ! stail ?q))"
    using at [of "length (smem q)"] tl ni nrc
    by (simp add: ring_full_def ring_list_length [symmetric] del: ring_list_length)
qed

lemma segq_enqueue_grow:
  assumes "segq_inv q" and "ring_full (sq (smem q ! stail q))" and "\<not> segq_full q"
  shows "\<exists>q'. segq_enqueue q v = Some (q', True) \<and> segq_inv q' \<and> segq_list q' = segq_list q @ [v]"
proof -
  obtain c where sh: "segq_shape q c"
    using assms(1) by (auto simp: segq_inv_def)
  have t: "stail q < length (smem q)"
    using sh by (auto simp: segq_shape_def)
  have less: "live_segs q < unat (max_seg q)"
    using assms by (auto simp: segq_inv_def segq_full_def)
  obtain nr :: "'a ring" where nr: "new_ring (seg_cap q) = Some nr"
    using sh by (auto simp: segq_shape_def)
  have "\<not> max_seg q \<le> seg_count q"
    using less seg_count_eq [OF assms(1)] by (simp add: word_le_nat_alt)
  moreover have "ring_enqueue (sq (smem q ! stail q)) v = Some (sq (smem q ! stail q), False)"
    using segq_shapeD(1) [OF sh t] assms(2) by (rule ring_enqueue_full)
  ultimately have eq: "segq_enqueue q v = segq_enqueue (link_segment q nr) v"
    using segq_shapeD(3) [OF sh t]
    by (subst segq_enqueue.simps) (simp add: nr set_ring_same)
  have "segq_inv (link_segment q nr)"
    using link_segment_ok(1,3) [OF sh assms(2) nr] assms(1) less
    unfolding segq_inv_def by (auto simp: link_segment_def Let_def)
  then show ?thesis
    using segq_enqueue_room link_segment_ok(2,4) [OF sh assms(2) nr] eq by metis
qed

subsection \<open>Dequeue\<close>

lemma segq_list_set_head:
  assumes "shead q < length (smem q)"
  shows "segq_list (set_ring q (shead q) r) =
    ring_list r @ concat (map (seg_list q) [Suc (shead q)..<length (smem q)])"
proof -
  have same: "map (seg_list (set_ring q (shead q) r)) [Suc (shead q)..<length (smem q)] =
      map (seg_list q) [Suc (shead q)..<length (smem q)]"
    by (simp add: seg_list_set_ring [OF assms])
  have "segq_list (set_ring q (shead q) r) =
      ring_list r @ concat (map (seg_list (set_ring q (shead q) r)) [Suc (shead q)..<length (smem q)])"
    using segq_list_head [of "set_ring q (shead q) r"] assms by (simp add: seg_list_set_ring [OF assms])
  then show ?thesis
    by (simp only: same)
qed

lemma segq_dequeue_here:
  assumes "segq_inv q" and "seg_list q (shead q) = x # xs"
  shows "\<exists>q'. segq_dequeue q = Some (q', x, True) \<and> segq_inv q' \<and> segq_list q = x # segq_list q'"
proof -
  obtain c where sh: "segq_shape q c"
    using assms(1) by (auto simp: segq_inv_def)
  have h: "shead q < length (smem q)"
    using sh by (auto simp: segq_shape_def)
  note D = segq_shapeD [OF sh h]
  have l: "ring_list (sq (smem q ! shead q)) = x # xs"
    using assms(2) by (simp add: seg_list_def)
  then have "0 < ring_count (sq (smem q ! shead q))"
    using ring_list_length [of "sq (smem q ! shead q)"] by simp
  then obtain r where r: "ring_dequeue (sq (smem q ! shead q)) = Some (r, x, True)" "ring_inv r"
    "ring_list r = xs" "length (rbuf r) = c"
    using ring_dequeue_step [OF D(1)] l D(2) by auto
  have "segq_shape (set_ring q (shead q) r) c"
    using shape_set_ring [OF sh h r(2,4)] by simp
  then have "segq_inv (set_ring q (shead q) r)"
    using assms(1) unfolding segq_inv_def by auto
  moreover have "segq_list q = x # segq_list (set_ring q (shead q) r)"
    using segq_list_head [OF h] segq_list_set_head [OF h, of r] r(3) assms(2) by simp
  moreover have "segq_dequeue q = Some (set_ring q (shead q) r, x, True)"
    by (subst segq_dequeue.simps) (simp add: r(1))
  ultimately show ?thesis by blast
qed

text \<open>Stepping over an exhausted segment.\<close>

lemma segq_advance:
  assumes inv: "segq_inv q" and e: "seg_list q (shead q) = []" and lt: "shead q < stail q"
  defines "q1 \<equiv> q\<lparr>shead := Suc (shead q), seg_count := seg_count q + NOT 0\<rparr>"
  shows "segq_inv q1" and "segq_list q1 = segq_list q" and "segq_dequeue q = segq_dequeue q1"
proof -
  obtain c where sh: "segq_shape q c"
    using inv by (auto simp: segq_inv_def)
  have h: "shead q < length (smem q)" "Suc (shead q) < length (smem q)"
    using sh lt by (auto simp: segq_shape_def)
  have sh1: "segq_shape q1 c"
    using sh h unfolding segq_shape_def q1_def by auto
  have live: "live_segs q = Suc (live_segs q1)"
    using h by (simp add: live_segs_def q1_def)
  have "seg_count q1 = of_nat (live_segs q) - 1"
    using inv by (simp add: segq_inv_def q1_def)
  also have "\<dots> = of_nat (live_segs q1)"
    unfolding live by simp
  finally have "seg_count q1 = of_nat (live_segs q1)" .
  moreover have "live_segs q1 \<le> unat (max_seg q1)"
    using inv live by (simp add: segq_inv_def q1_def)
  ultimately show "segq_inv q1"
    using sh1 unfolding segq_inv_def by blast
  show "segq_list q1 = segq_list q"
  proof -
    have "seg_list q1 = seg_list q"
      by (simp add: seg_list_def q1_def fun_eq_iff)
    then have "segq_list q1 = concat (map (seg_list q) [Suc (shead q)..<length (smem q)])"
      by (simp add: segq_list_def q1_def)
    then show ?thesis
      by (simp only: segq_list_head [OF h(1)] e append_Nil)
  qed
  have "ring_count (sq (smem q ! shead q)) = 0"
    using e ring_list_length [of "sq (smem q ! shead q)"] by (simp add: seg_list_def del: ring_list_length)
  then have "ring_dequeue (sq (smem q ! shead q)) = Some (sq (smem q ! shead q), None, False)"
    by (rule ring_dequeue_empty [OF segq_shapeD(1) [OF sh h(1)]])
  then show "segq_dequeue q = segq_dequeue q1"
    using segq_shapeD(3) [OF sh h(1)] lt
    by (subst segq_dequeue.simps) (simp add: q1_def set_ring_same)
qed

lemma segq_dequeue_ok:
  assumes "segq_inv q"
  shows "\<exists>q'. segq_dequeue q = Some (q', (case segq_list q of [] \<Rightarrow> None | x # _ \<Rightarrow> x), segq_list q \<noteq> []) \<and>
           segq_inv q' \<and> segq_list q' = tl (segq_list q)"
  using assms
proof (induction "stail q - shead q" arbitrary: q)
  case (Suc n)
  show ?case
  proof (cases "seg_list q (shead q)")
    case (Cons x xs)
    then show ?thesis
      using segq_dequeue_here [OF Suc.prems] by fastforce
  next
    case Nil
    have lt: "shead q < stail q"
      using Suc.hyps(2) by simp
    note A = segq_advance [OF Suc.prems Nil lt]
    show ?thesis
      using Suc.hyps(1) [OF _ A(1)] Suc.hyps(2) unfolding A(2,3) by simp
  qed
next
  case 0
  obtain c where sh: "segq_shape q c"
    using 0 by (auto simp: segq_inv_def)
  have h: "shead q < length (smem q)" and last: "shead q = stail q" "length (smem q) = Suc (shead q)"
    using sh 0 by (auto simp: segq_shape_def)
  show ?case
  proof (cases "seg_list q (shead q)")
    case (Cons x xs)
    then show ?thesis
      using segq_dequeue_here [OF "0.prems"] by fastforce
  next
    case Nil
    have e: "segq_list q = []"
      using Nil last by (simp add: segq_list_def)
    have "ring_count (sq (smem q ! shead q)) = 0"
      using Nil ring_list_length [of "sq (smem q ! shead q)"] by (simp add: seg_list_def del: ring_list_length)
    then have "ring_dequeue (sq (smem q ! shead q)) = Some (sq (smem q ! shead q), None, False)"
      by (rule ring_dequeue_empty [OF segq_shapeD(1) [OF sh h]])
    then have "segq_dequeue q = Some (q, None, False)"
      using segq_shapeD(3) [OF sh h] last(1)
      by (subst segq_dequeue.simps) (simp add: set_ring_same)
    with e "0.prems" show ?thesis by simp
  qed
qed

interpretation segqq: bounded_fifo segq_enqueue segq_dequeue segq_list segq_inv segq_full None
proof unfold_locales
  fix q :: "'a segq" and v :: "'a option"
  assume "segq_inv q" and "\<not> segq_full q"
  then show "\<exists>q'. segq_enqueue q v = Some (q', True) \<and> segq_inv q' \<and> segq_list q' = segq_list q @ [v]"
    using segq_enqueue_room segq_enqueue_grow by blast
next
  fix q :: "'a segq" and v :: "'a option"
  assume "segq_inv q" and "segq_full q"
  then show "segq_enqueue q v = Some (q, False)"
    by (rule segq_enqueue_full)
next
  fix q :: "'a segq" and x xs
  assume "segq_inv q" and "segq_list q = x # xs"
  then show "\<exists>q'. segq_dequeue q = Some (q', x, True) \<and> segq_inv q' \<and> segq_list q' = xs"
    using segq_dequeue_ok [of q] by simp
next
  fix q :: "'a segq"
  assume "segq_inv q" and "segq_list q = []"
  then show "\<exists>q'. segq_dequeue q = Some (q', None, False) \<and> segq_inv q' \<and> segq_list q' = []"
    using segq_dequeue_ok [of q] by simp
qed

subsection \<open>The constructor and the capacity\<close>

lemma new_segq_ok:
  fixes q :: "'a segq"
  assumes "new_segq segment_capacity max_segments = Some q"
  shows "segq_inv q" and "segq_list q = []" and "seg_cap q = segment_capacity"
    and "max_seg q = (if max_segments = 0 then 1 else max_segments)"
proof -
  obtain r :: "'a ring" where r: "new_ring segment_capacity = Some r"
    and q: "q = \<lparr>smem = [\<lparr>sq = r, snext = None\<rparr>], shead = 0, stail = 0,
          seg_cap = segment_capacity, seg_count = 1,
          max_seg = (if max_segments = 0 then 1 else max_segments)\<rparr>"
    using assms by (auto simp: new_segq_def Let_def split: option.splits)
  have "segq_shape q (length (rbuf r))"
    using new_ring_Some(2) [OF r] r by (auto simp: q segq_shape_def)
  moreover have "1 \<le> unat (max_seg q)"
    by (simp add: q Suc_le_eq unat_gt_0)
  ultimately show "segq_inv q"
    unfolding segq_inv_def by (auto simp: q live_segs_def)
  show "segq_list q = []"
    using new_ring_Some(3) [OF r] by (simp add: q segq_list_def seg_list_def)
qed (use assms in \<open>auto simp: new_segq_def Let_def split: option.splits\<close>)

lemma length_concat_const:
  assumes "\<And>a. a \<in> set as \<Longrightarrow> length (f a) = c"
  shows "length (concat (map f as)) = length as * c"
  using assms by (induction as) auto

lemma length_concat_le:
  assumes "\<And>a. a \<in> set as \<Longrightarrow> length (f a) \<le> c"
  shows "length (concat (map f as)) \<le> length as * c"
  using assms by (induction as) (auto intro: add_mono)

lemma seg_list_length:
  assumes "segq_shape q c" and "a < length (smem q)"
  shows "length (seg_list q a) \<le> c" and "ring_full (sq (smem q ! a)) \<Longrightarrow> length (seg_list q a) = c"
  using ringq.within_cap [OF segq_shapeD(1) [OF assms]] ringq.full_cap [OF segq_shapeD(1) [OF assms]]
    segq_shapeD(2) [OF assms] by (simp_all add: seg_list_def)

lemma segq_list_length_le:
  assumes "segq_shape q c"
  shows "length (segq_list q) \<le> live_segs q * c"
  using length_concat_le [of "[shead q..<length (smem q)]" "seg_list q" c] seg_list_length(1) [OF assms]
  by (simp add: segq_list_def live_segs_def)

lemma segq_full_length:
  assumes "segq_shape q c" and "ring_full (sq (smem q ! stail q))"
  shows "length (segq_list q) = (live_segs q - 1) * c + length (seg_list q (shead q))"
proof -
  have h: "shead q < length (smem q)" and n: "length (smem q) = Suc (stail q)"
    using assms(1) by (auto simp: segq_shape_def)
  have "length (seg_list q a) = c" if "a \<in> set [Suc (shead q)..<length (smem q)]" for a
    using that n assms(2) segq_shapeD(4) [OF assms(1), of a]
    by (intro seg_list_length(2) [OF assms(1)]) (auto simp: less_Suc_eq)
  then have "length (concat (map (seg_list q) [Suc (shead q)..<length (smem q)])) = (live_segs q - 1) * c"
    by (subst length_concat_const [where c = c]) (auto simp: live_segs_def)
  then show ?thesis
    using segq_list_head [OF h] by simp
qed

subsection \<open>Properties\<close>

lemma segq_history_fifo_core:
  assumes "new_segq segment_capacity max_segments = Some q"
  shows "\<exists>q' rs. q_run segq_enqueue segq_dequeue q ops = Some (q', rs) \<and>
           accepted rs = delivered rs @ segq_list q'"
  using segqq.run_conserves [OF new_segq_ok(1) [OF assms], of ops] new_segq_ok(2) [OF assms] by auto

text \<open>C15. A segmented queue made by the constructor is a FIFO queue through all its growth
  and shrinking: every sequence of calls returns, no accepted value is lost, duplicated or
  overtaken, and the accepted values are the delivered ones followed by those still held.\<close>

theorem segq_history_fifo:
  assumes "new_segq segment_capacity max_segments = Some q"
  shows "\<exists>q' rs. q_run segq_enqueue segq_dequeue q ops = Some (q', rs) \<and>
           length rs = length ops \<and> accepted rs = delivered rs @ segq_list q'"
proof -
  obtain q' rs where r: "q_run segq_enqueue segq_dequeue q ops = Some (q', rs)"
    "accepted rs = delivered rs @ segq_list q'"
    using segq_history_fifo_core [OF assms, of ops] by blast
  then show ?thesis
    using q_run_length [OF r(1)] by simp
qed

text \<open>A queue of two segments of two cells, after five calls of \<open>Enqueue\<close> (the last one
  refused) and two of \<open>Dequeue\<close>.\<close>

definition segq2 :: "nat segq" where
  "segq2 = \<lparr>smem = [\<lparr>sq = \<lparr>rmask = 1, rbuf = [\<lparr>cseq = 0, cval = None\<rparr>, \<lparr>cseq = 1, cval = None\<rparr>],
     rhead = 0, rtail = 0\<rparr>, snext = None\<rparr>], shead = 0, stail = 0, seg_cap = 2, seg_count = 1, max_seg = 2\<rparr>"

lemma segq2_new: "new_segq 2 2 = Some segq2"
  by (simp add: new_segq_def new_ring_def segq2_def round_up.simps push_bit_eq_mult upt_rec)

definition fill5 :: "nat option qop list" where
  "fill5 = map (\<lambda>n. QEnq (Some n)) [1, 2, 3, 4, 5]"

theorem segq_history_fifo_witness:
  "\<exists>q' rs. q_run segq_enqueue segq_dequeue segq2 fill5 = Some (q', rs) \<and>
     length rs = 5 \<and> accepted rs = delivered rs @ segq_list q'"
proof -
  have "length fill5 = 5"
    by (simp add: fill5_def)
  then show ?thesis
    using segq_history_fifo [OF segq2_new, of fill5] by (simp only:)
qed

text \<open>Capacity. The queue never holds more than the segment limit times the real ring
  capacity \<open>c\<close> (which is at least the requested one). It refuses a value only when all
  segments but the first are full, and then it is left unchanged; so the number of values it
  holds at a refusal is that of the full segments plus what is left in the head segment.\<close>

theorem segq_capacity_bounds:
  assumes "segq_inv q" and "c = length (rbuf (sq (smem q ! stail q)))"
  shows "length (segq_list q) \<le> unat (max_seg q) * c \<and> unat (seg_cap q) \<le> c \<and>
    (\<forall>v q'. segq_enqueue q v = Some (q', False) \<longrightarrow> q' = q \<and>
      length (segq_list q) = (unat (max_seg q) - 1) * c + length (seg_list q (shead q)))"
proof -
  obtain c' where sh: "segq_shape q c'"
    using assms(1) by (auto simp: segq_inv_def)
  have t: "stail q < length (smem q)"
    using sh by (auto simp: segq_shape_def)
  have c: "c' = c"
    using segq_shapeD(2) [OF sh t] assms(2) by simp
  have "live_segs q * c \<le> unat (max_seg q) * c"
    using assms(1) by (intro mult_right_mono) (simp_all add: segq_inv_def)
  with segq_list_length_le [OF sh] have 1: "length (segq_list q) \<le> unat (max_seg q) * c"
    unfolding c by (rule order_trans)
  obtain r :: "'a ring" where "new_ring (seg_cap q) = Some r" "length (rbuf r) = c"
    using sh c by (auto simp: segq_shape_def)
  then have 2: "unat (seg_cap q) \<le> c"
    using new_ring_Some(6) by blast
  have "q' = q \<and> length (segq_list q) = (unat (max_seg q) - 1) * c + length (seg_list q (shead q))"
    if refused: "segq_enqueue q v = Some (q', False)" for v q'
  proof -
    have full: "segq_full q"
      using segqq.enq_free [OF assms(1), of v] refused by auto
    then have "q' = q"
      using segq_enqueue_full [OF assms(1)] refused by simp
    then show ?thesis
      using segq_full_length [OF sh] full c by (simp add: segq_full_def)
  qed
  with 1 2 show ?thesis by blast
qed

lemmas segq_eval = segq2_def fill5_def segq_enqueue.simps segq_dequeue.simps ring_enqueue_def
  ring_dequeue_def cell_index_def dif64_def wrap64_def set_ring_def link_segment_def new_ring_def
  round_up.simps push_bit_eq_mult upt_rec

definition segq2_half :: "nat segq" where
  "segq2_half = \<lparr>smem =
     [\<lparr>sq = \<lparr>rmask = 1, rbuf = [\<lparr>cseq = 2, cval = None\<rparr>, \<lparr>cseq = 3, cval = None\<rparr>],
        rhead = 2, rtail = 2\<rparr>, snext = Some 1\<rparr>,
      \<lparr>sq = \<lparr>rmask = 1, rbuf = [\<lparr>cseq = 1, cval = Some 3\<rparr>, \<lparr>cseq = 2, cval = Some 4\<rparr>],
        rhead = 0, rtail = 2\<rparr>, snext = None\<rparr>],
     shead = 0, stail = 1, seg_cap = 2, seg_count = 2, max_seg = 2\<rparr>"

lemma segq2_half_run:
  "q_run segq_enqueue segq_dequeue segq2 (fill5 @ [QDeq, QDeq, QEnq (Some 6)]) =
     Some (segq2_half, map (\<lambda>n. Accepted (Some n)) [1, 2, 3, 4] @
       [Refused (Some 5), Delivered (Some 1), Delivered (Some 2), Refused (Some 6)])"
  by (simp add: segq_eval segq2_half_def word_le_nat_alt)

theorem segq_capacity_bounds_witness:
  "segq_enqueue segq2_half (Some 6) = Some (segq2_half, False) \<and>
   length (segq_list segq2_half) = 2 + length (seg_list segq2_half 0)"
proof -
  have inv: "segq_inv segq2_half"
    using segqq.run_inv [OF new_segq_ok(1) [OF segq2_new] segq2_half_run] .
  have "segq_enqueue segq2_half (Some 6) = Some (segq2_half, False)"
    by (simp add: segq_eval segq2_half_def word_le_nat_alt)
  then show ?thesis
    using segq_capacity_bounds [OF inv refl] by (simp add: segq2_half_def)
qed

text \<open>The advertised capacity is not always usable. A queue of two segments of two cells
  reports a capacity of 4, yet after four values went in and two came out it refuses the
  next value while holding only two: the drained head segment still counts against the
  segment limit until the consumer steps past it.\<close>

theorem segq_refuses_half_empty:
  "\<exists>q' rs. q_run segq_enqueue segq_dequeue segq2 (fill5 @ [QDeq, QDeq, QEnq (Some 6)]) = Some (q', rs) \<and>
     last rs = Refused (Some 6) \<and> length (segq_list q') = 2 \<and> segq_capacity q' = 4"
proof -
  have "segq_list segq2_half = [Some 3, Some 4]"
    by (simp add: segq2_half_def segq_list_def seg_list_def ring_list_def ring_count_def cell_at_def
        cell_index_def upt_rec)
  then show ?thesis
    using segq2_half_run by (intro exI conjI) (auto simp: segq_capacity_def segq2_half_def)
qed

end
