(* ===== verification/SegmentedConc.thy ===== *)
theory SegmentedConc
  imports Segmented RingConc "HOL-Library.Multiset"
begin

text \<open>
  \<open>mailbox/segmented.go\<close> between goroutines, with every atomic access one step: those to the
  fields of the queue and of its segments, and those inside the calls of the ring buffers,
  which are the steps of \<open>RingConc\<close>. A segment holds its ring together with the positions of the
  goroutines inside its calls and the history of the ring. Two further history variables
  record the values whose \<open>Enqueue\<close> has returned true and those a \<open>Dequeue\<close> has returned.
\<close>

subsection \<open>Steps\<close>

datatype 'a spc =
    SIdle
  | SEnqLoad "'a option"            \<comment> \<open>before \<open>q.tail.Load()\<close>\<close>
  | SEnqRing "'a option" nat        \<comment> \<open>inside \<open>t.q.Enqueue(v)\<close>\<close>
  | SEnqSegs "'a option" nat        \<comment> \<open>before \<open>q.segs.Load()\<close>\<close>
  | SEnqNext "'a option" nat        \<comment> \<open>before \<open>t.next.Load()\<close>\<close>
  | SEnqLink "'a option" nat        \<comment> \<open>before \<open>t.next.CompareAndSwap(nil, ns)\<close>\<close>
  | SEnqTail "'a option" nat nat    \<comment> \<open>before \<open>q.tail.CompareAndSwap(t, ns)\<close>\<close>
  | SEnqAdd "'a option"             \<comment> \<open>before \<open>q.segs.Add(1)\<close>\<close>
  | SEnqMove "'a option" nat nat    \<comment> \<open>before \<open>q.tail.CompareAndSwap(t, n)\<close>\<close>
  | SDeqLoad                        \<comment> \<open>before \<open>q.head.Load()\<close>\<close>
  | SDeqRing nat                    \<comment> \<open>inside \<open>h.q.Dequeue()\<close>\<close>
  | SDeqNext nat                    \<comment> \<open>before \<open>h.next.Load()\<close>\<close>
  | SDeqHead nat                    \<comment> \<open>before \<open>q.head.Store(n)\<close>\<close>
  | SDeqSub                         \<comment> \<open>before \<open>q.segs.Add(^uint64(0))\<close>\<close>

record 'a cseg =
  cring :: "'a rsys"
  cnext :: "nat option"

record 'a ssys =
  segs :: "'a cseg list"
  qhead :: nat
  qtail :: nat
  qcap :: u64
  qsegs :: u64
  qmax :: u64
  spcs :: "nat \<Rightarrow> 'a spc"
  taken :: "'a option list"
  given :: "'a option list"

definition ring_at :: "'a ssys \<Rightarrow> nat \<Rightarrow> 'a rsys" where
  "ring_at s a = cring (segs s ! a)"

definition put_ring :: "'a ssys \<Rightarrow> nat \<Rightarrow> 'a rsys \<Rightarrow> 'a ssys" where
  "put_ring s a r = s\<lparr>segs := (segs s)[a := (segs s ! a)\<lparr>cring := r\<rparr>]\<rparr>"

definition goto_spc :: "'a ssys \<Rightarrow> nat \<Rightarrow> 'a spc \<Rightarrow> 'a ssys" where
  "goto_spc s t pc = s\<lparr>spcs := (spcs s)(t := pc)\<rparr>"

text \<open>A fresh ring, with nobody inside a call.\<close>

definition idle_ring :: "'a ring \<Rightarrow> 'a rsys" where
  "idle_ring r = \<lparr>mem = r, pcs = \<lambda>_. RIdle, elog = [], dcount = 0, outs = []\<rparr>"

text \<open>How a ring call ends: a successful \<open>Enqueue\<close> with the access that publishes the value, a
  successful \<open>Dequeue\<close> with the one that frees the cell; every other return is a refusal.\<close>

fun published :: "'a rpc \<Rightarrow> bool" where
  "published (EnqPub v p) = True"
| "published _ = False"

fun fetched :: "'a rpc \<Rightarrow> 'a option option" where
  "fetched (DeqFree p v) = Some v"
| "fetched _ = None"

fun seg_advance :: "'a ssys \<Rightarrow> nat \<Rightarrow> 'a spc \<Rightarrow> 'a ssys" where
  "seg_advance s t SIdle = s"
| "seg_advance s t (SEnqLoad v) =
     (let a = qtail s in goto_spc (put_ring s a (goto_pc (ring_at s a) t (EnqLoad v))) t (SEnqRing v a))"
| "seg_advance s t (SEnqRing v a) =
     (let rp = pcs (ring_at s a) t; r = ring_advance (ring_at s a) t rp; s' = put_ring s a r in
      case pcs r t of
        RIdle \<Rightarrow> if published rp then goto_spc (s'\<lparr>taken := taken s @ [v]\<rparr>) t SIdle
                 else goto_spc s' t (SEnqSegs v a)
      | _ \<Rightarrow> s')"
| "seg_advance s t (SEnqSegs v a) =
     goto_spc s t (if qmax s \<le> qsegs s then SIdle else SEnqNext v a)"
| "seg_advance s t (SEnqNext v a) =
     goto_spc s t (case cnext (segs s ! a) of None \<Rightarrow> SEnqLink v a | Some n \<Rightarrow> SEnqMove v a n)"
| "seg_advance s t (SEnqLink v a) =
     (case new_ring (qcap s) of
        None \<Rightarrow> s
      | Some r \<Rightarrow>
          (case cnext (segs s ! a) of
             None \<Rightarrow> goto_spc (s\<lparr>segs := (segs s)[a := (segs s ! a)\<lparr>cnext := Some (length (segs s))\<rparr>] @
                 [\<lparr>cring = idle_ring r, cnext = None\<rparr>]\<rparr>) t (SEnqTail v a (length (segs s)))
           | Some n \<Rightarrow> goto_spc s t (SEnqLoad v)))"
| "seg_advance s t (SEnqTail v a ns) =
     goto_spc (s\<lparr>qtail := if qtail s = a then ns else qtail s\<rparr>) t (SEnqAdd v)"
| "seg_advance s t (SEnqAdd v) = goto_spc (s\<lparr>qsegs := qsegs s + 1\<rparr>) t (SEnqLoad v)"
| "seg_advance s t (SEnqMove v a n) =
     goto_spc (s\<lparr>qtail := if qtail s = a then n else qtail s\<rparr>) t (SEnqLoad v)"
| "seg_advance s t SDeqLoad =
     (let a = qhead s in goto_spc (put_ring s a (goto_pc (ring_at s a) t DeqLoad)) t (SDeqRing a))"
| "seg_advance s t (SDeqRing a) =
     (let rp = pcs (ring_at s a) t; r = ring_advance (ring_at s a) t rp; s' = put_ring s a r in
      case pcs r t of
        RIdle \<Rightarrow> (case fetched rp of
            Some v \<Rightarrow> goto_spc (s'\<lparr>given := given s @ [v]\<rparr>) t SIdle
          | None \<Rightarrow> goto_spc s' t (SDeqNext a))
      | _ \<Rightarrow> s')"
| "seg_advance s t (SDeqNext a) =
     goto_spc s t (case cnext (segs s ! a) of None \<Rightarrow> SIdle | Some n \<Rightarrow> SDeqHead n)"
| "seg_advance s t (SDeqHead n) = goto_spc (s\<lparr>qhead := n\<rparr>) t SDeqSub"
| "seg_advance s t SDeqSub = goto_spc (s\<lparr>qsegs := qsegs s + NOT 0\<rparr>) t SDeqLoad"

inductive seg_step :: "'a ssys \<Rightarrow> 'a ssys \<Rightarrow> bool" where
  call_enqueue: "spcs s t = SIdle \<Longrightarrow> seg_step s (goto_spc s t (SEnqLoad v))"
| call_dequeue: "spcs s t = SIdle \<Longrightarrow> seg_step s (goto_spc s t SDeqLoad)"
| advance: "spcs s t = pc \<Longrightarrow> pc \<noteq> SIdle \<Longrightarrow> seg_step s (seg_advance s t pc)"

inductive_cases seg_stepE [elim!]: "seg_step s s'"

text \<open>The memory of the queue, without the goroutines inside its calls.\<close>

definition segq_of :: "'a ssys \<Rightarrow> 'a segq" where
  "segq_of s = \<lparr>smem = map (\<lambda>g. \<lparr>sq = mem (cring g), snext = cnext g\<rparr>) (segs s), shead = qhead s, stail = qtail s,
     seg_cap = qcap s, seg_count = qsegs s, max_seg = qmax s\<rparr>"

definition seg_start :: "u64 \<Rightarrow> u64 \<Rightarrow> 'a ssys \<Rightarrow> bool" where
  "seg_start segment_capacity max_segments s \<longleftrightarrow>
     (\<exists>r. new_ring segment_capacity = Some r \<and>
        s = \<lparr>segs = [\<lparr>cring = idle_ring r, cnext = None\<rparr>], qhead = 0, qtail = 0, qcap = segment_capacity,
          qsegs = 1, qmax = (if max_segments = 0 then 1 else max_segments), spcs = \<lambda>_. SIdle, taken = [], given = []\<rparr>)"

lemma seg_start_new: "seg_start c m s \<Longrightarrow> new_segq c m = Some (segq_of s)"
  by (auto simp: seg_start_def new_segq_def segq_of_def idle_ring_def)

datatype 'a sact = SCallEnq nat "'a option" | SCallDeq nat | SRun nat

fun seg_act :: "'a ssys \<Rightarrow> 'a sact \<Rightarrow> 'a ssys" where
  "seg_act s (SCallEnq t v) = (case spcs s t of SIdle \<Rightarrow> goto_spc s t (SEnqLoad v) | _ \<Rightarrow> s)"
| "seg_act s (SCallDeq t) = (case spcs s t of SIdle \<Rightarrow> goto_spc s t SDeqLoad | _ \<Rightarrow> s)"
| "seg_act s (SRun t) = seg_advance s t (spcs s t)"

lemma seg_act_cases: "seg_act s a = s \<or> seg_step s (seg_act s a)"
proof (cases a)
  case (SRun t)
  then show ?thesis
    by (cases "spcs s t = SIdle") (auto intro: seg_step.intros)
qed (auto split: spc.split intro: seg_step.intros)

text \<open>The addresses a goroutine holds, and the segment whose ring it is inside of.\<close>

fun spc_addrs :: "'a spc \<Rightarrow> nat set" where
  "spc_addrs (SEnqRing v a) = {a}"
| "spc_addrs (SEnqSegs v a) = {a}"
| "spc_addrs (SEnqNext v a) = {a}"
| "spc_addrs (SEnqLink v a) = {a}"
| "spc_addrs (SEnqTail v a n) = {a, n}"
| "spc_addrs (SEnqMove v a n) = {a, n}"
| "spc_addrs (SDeqRing a) = {a}"
| "spc_addrs (SDeqNext a) = {a}"
| "spc_addrs (SDeqHead n) = {n}"
| "spc_addrs _ = {}"

fun in_ring :: "'a spc \<Rightarrow> nat option" where
  "in_ring (SEnqRing v a) = Some a"
| "in_ring (SDeqRing a) = Some a"
| "in_ring _ = None"

lemma goto_spc_simps [simp]:
  "segs (goto_spc s t pc) = segs s" "qhead (goto_spc s t pc) = qhead s" "qtail (goto_spc s t pc) = qtail s"
  "qcap (goto_spc s t pc) = qcap s" "qsegs (goto_spc s t pc) = qsegs s" "qmax (goto_spc s t pc) = qmax s"
  "taken (goto_spc s t pc) = taken s" "given (goto_spc s t pc) = given s"
  "spcs (goto_spc s t pc) = (spcs s)(t := pc)" "ring_at (goto_spc s t pc) = ring_at s"
  by (simp_all add: goto_spc_def ring_at_def fun_eq_iff)

lemma put_ring_simps [simp]:
  "length (segs (put_ring s a r)) = length (segs s)" "qhead (put_ring s a r) = qhead s" "qtail (put_ring s a r) = qtail s"
  "qcap (put_ring s a r) = qcap s" "qsegs (put_ring s a r) = qsegs s" "qmax (put_ring s a r) = qmax s"
  "taken (put_ring s a r) = taken s" "given (put_ring s a r) = given s" "spcs (put_ring s a r) = spcs s"
  by (simp_all add: put_ring_def)

lemma put_ring_at:
  "a < length (segs s) \<Longrightarrow> ring_at (put_ring s a r) b = (if b = a then r else ring_at s b)"
  "a < length (segs s) \<Longrightarrow> cnext (segs (put_ring s a r) ! b) = cnext (segs s ! b)"
  by (auto simp: put_ring_def ring_at_def nth_list_update)

lemma ring_at_updates [simp]:
  "ring_at (s\<lparr>taken := x\<rparr>) = ring_at s" "ring_at (s\<lparr>given := x\<rparr>) = ring_at s" "ring_at (s\<lparr>qhead := a\<rparr>) = ring_at s"
  "ring_at (s\<lparr>qtail := a\<rparr>) = ring_at s" "ring_at (s\<lparr>qsegs := c\<rparr>) = ring_at s"
  by (simp_all add: ring_at_def fun_eq_iff)

subsection \<open>Every segment is a ring of its own\<close>

fun enq_pc :: "'a option \<Rightarrow> 'a rpc \<Rightarrow> bool" where
  "enq_pc v (EnqLoad w) = (w = v)"
| "enq_pc v (EnqSeq w p) = (w = v)"
| "enq_pc v (EnqCas w p) = (w = v)"
| "enq_pc v (EnqVal w p) = (w = v)"
| "enq_pc v (EnqPub w p) = (w = v)"
| "enq_pc v _ = False"

fun deq_pc :: "'a rpc \<Rightarrow> bool" where
  "deq_pc DeqLoad = True"
| "deq_pc (DeqSeq p) = True"
| "deq_pc (DeqCas p) = True"
| "deq_pc (DeqVal p) = True"
| "deq_pc (DeqClear p v) = True"
| "deq_pc (DeqFree p v) = True"
| "deq_pc _ = False"

text \<open>The pointers are valid, every ring is in a state that calls of the ring alone lead to, and a
  goroutine is inside exactly the ring call that its position in the queue's code says.\<close>

definition pcs_ok :: "'a ssys \<Rightarrow> nat \<Rightarrow> bool" where
  "pcs_ok s t \<longleftrightarrow> (\<forall>a \<in> spc_addrs (spcs s t). a < length (segs s)) \<and>
     (\<forall>a < length (segs s). in_ring (spcs s t) \<noteq> Some a \<longrightarrow> pcs (ring_at s a) t = RIdle) \<and>
     (\<forall>v a. spcs s t = SEnqRing v a \<longrightarrow> enq_pc v (pcs (ring_at s a) t)) \<and>
     (\<forall>a. spcs s t = SDeqRing a \<longrightarrow> deq_pc (pcs (ring_at s a) t))"

definition rings_ok :: "u64 \<Rightarrow> 'a ssys \<Rightarrow> bool" where
  "rings_ok c s \<longleftrightarrow> qcap s = c \<and> qhead s < length (segs s) \<and> qtail s < length (segs s) \<and>
     (\<forall>a < length (segs s). reach (ring_start c) ring_step (ring_at s a) \<and>
        (\<forall>n. cnext (segs s ! a) = Some n \<longrightarrow> n < length (segs s)))"

definition segs_ok :: "u64 \<Rightarrow> 'a ssys \<Rightarrow> bool" where
  "segs_ok c s \<longleftrightarrow> rings_ok c s \<and> (\<forall>t. pcs_ok s t)"

lemma segs_okD:
  assumes "segs_ok c s"
  shows "rings_ok c s" "pcs_ok s t" "qcap s = c" "qhead s < length (segs s)" "qtail s < length (segs s)"
    "a < length (segs s) \<Longrightarrow> reach (ring_start c) ring_step (ring_at s a)"
    "a < length (segs s) \<Longrightarrow> cnext (segs s ! a) = Some n \<Longrightarrow> n < length (segs s)"
    "a \<in> spc_addrs (spcs s t) \<Longrightarrow> a < length (segs s)"
    "a < length (segs s) \<Longrightarrow> in_ring (spcs s t) \<noteq> Some a \<Longrightarrow> pcs (ring_at s a) t = RIdle"
    "spcs s t = SEnqRing v a \<Longrightarrow> enq_pc v (pcs (ring_at s a) t)"
    "spcs s t = SDeqRing a \<Longrightarrow> deq_pc (pcs (ring_at s a) t)"
  using assms unfolding segs_ok_def rings_ok_def pcs_ok_def by blast+

text \<open>A step of goroutine \<open>t\<close> concerns nobody else.\<close>

lemma segs_ok_step:
  assumes ok: "segs_ok c s" and "rings_ok c s'" and "pcs_ok s' t"
    and len: "length (segs s) \<le> length (segs s')"
    and pc: "\<And>u. u \<noteq> t \<Longrightarrow> spcs s' u = spcs s u"
    and old: "\<And>a u. a < length (segs s) \<Longrightarrow> u \<noteq> t \<Longrightarrow> pcs (ring_at s' a) u = pcs (ring_at s a) u"
    and new: "\<And>a u. length (segs s) \<le> a \<Longrightarrow> a < length (segs s') \<Longrightarrow> pcs (ring_at s' a) u = RIdle"
  shows "segs_ok c s'"
proof -
  have "pcs_ok s' u" if u: "u \<noteq> t" for u
  proof -
    note D = segs_okD(8-11) [OF ok, where t = u]
    have a: "a < length (segs s)" if "a \<in> spc_addrs (spcs s' u)" for a
      using D(1) that pc [OF u] by simp
    moreover have "pcs (ring_at s' a) u = RIdle" if "a < length (segs s')" "in_ring (spcs s' u) \<noteq> Some a" for a
      using that D(2) [of a] old [OF _ u, of a] new [of a u] pc [OF u] by (cases "a < length (segs s)") auto
    moreover have "enq_pc v (pcs (ring_at s' a) u)" if "spcs s' u = SEnqRing v a" for v a
      using that D(3) a [of a] old [OF _ u, of a] pc [OF u] by simp
    moreover have "deq_pc (pcs (ring_at s' a) u)" if "spcs s' u = SDeqRing a" for a
      using that D(4) a [of a] old [OF _ u, of a] pc [OF u] by simp
    ultimately show ?thesis
      using len unfolding pcs_ok_def by force
  qed
  then show ?thesis
    using assms(2,3) unfolding segs_ok_def by metis
qed

text \<open>A step outside the rings.\<close>

lemma segs_ok_move:
  assumes ok: "segs_ok c s" and "in_ring (spcs s t) = None" and "in_ring pc = None"
    and "\<forall>a \<in> spc_addrs pc. a < length (segs s)" and "h < length (segs s)" and "k < length (segs s)"
  shows "segs_ok c (goto_spc (s\<lparr>qhead := h, qtail := k, qsegs := n\<rparr>) t pc)"
proof (rule segs_ok_step [OF ok])
  let ?s = "goto_spc (s\<lparr>qhead := h, qtail := k, qsegs := n\<rparr>) t pc"
  note D = segs_okD [OF ok]
  show "rings_ok c ?s"
    using D(1) assms(5,6) by (simp add: rings_ok_def)
  show "pcs_ok ?s t"
    using assms(2-4) D(9) [of _ t] by (auto simp: pcs_ok_def)
qed simp_all

text \<open>Entering a ring call, an access inside it, and its return.\<close>

lemma ring_advance_other: "u \<noteq> t \<Longrightarrow> pcs (ring_advance r t rp) u = pcs r u"
  by (cases rp) (simp_all add: goto_pc_def Let_def)

lemma segs_ok_ring:
  assumes ok: "segs_ok c s" and a: "a < length (segs s)" and "ring_step (ring_at s a) r"
    and "\<And>u. u \<noteq> t \<Longrightarrow> pcs r u = pcs (ring_at s a) u"
    and "in_ring (spcs s t) = None \<or> in_ring (spcs s t) = Some a"
    and "\<forall>b \<in> spc_addrs pc. b = a" and "in_ring pc = None \<Longrightarrow> pcs r t = RIdle"
    and "\<And>v. pc = SEnqRing v a \<Longrightarrow> enq_pc v (pcs r t)" and "pc = SDeqRing a \<Longrightarrow> deq_pc (pcs r t)"
  shows "segs_ok c (goto_spc ((put_ring s a r)\<lparr>taken := x, given := y\<rparr>) t pc)"
proof (rule segs_ok_step [OF ok])
  let ?s = "goto_spc ((put_ring s a r)\<lparr>taken := x, given := y\<rparr>) t pc"
  note D = segs_okD [OF ok]
  have at: "ring_at ?s b = (if b = a then r else ring_at s b)" "cnext (segs ?s ! b) = cnext (segs s ! b)" for b
    using a by (simp_all add: put_ring_at)
  have "reach (ring_start c) ring_step r"
    using D(6) [OF a] assms(3) by (rule reach_step)
  then show "rings_ok c ?s"
    using D(1) unfolding rings_ok_def at by simp
  have pc: "in_ring pc = Some a \<or> in_ring pc = None" "\<And>v b. pc = SEnqRing v b \<Longrightarrow> b = a" "\<And>b. pc = SDeqRing b \<Longrightarrow> b = a"
    using assms(6) by (cases pc; simp)+
  have idle: "pcs (ring_at s b) t = RIdle" if "b < length (segs s)" "b \<noteq> a" for b
    using that D(9) [of b t] assms(5) by auto
  have t: "spcs ?s t = pc" "length (segs ?s) = length (segs s)" by simp_all
  show "pcs_ok ?s t"
    unfolding pcs_ok_def t
  proof (intro conjI ballI allI impI)
    show "b < length (segs s)" if "b \<in> spc_addrs pc" for b
      using that assms(6) a by simp
    show "pcs (ring_at ?s b) t = RIdle" if "b < length (segs s)" "in_ring pc \<noteq> Some b" for b
      using that idle [of b] assms(7) pc(1) unfolding at by (cases "b = a") simp_all
    show "enq_pc v (pcs (ring_at ?s b) t)" if "pc = SEnqRing v b" for v b
      using that pc(2) assms(8) unfolding at by simp
    show "deq_pc (pcs (ring_at ?s b) t)" if "pc = SDeqRing b" for b
      using that pc(3) assms(9) unfolding at by simp
  qed
  show "pcs (ring_at ?s b) u = pcs (ring_at s b) u" if "u \<noteq> t" for b u
    using assms(4) [OF that] unfolding at by simp
qed simp_all

text \<open>The value of an \<open>Enqueue\<close> that has won its place and not returned yet.\<close>

fun flying_pc :: "'a rpc \<Rightarrow> 'a option multiset" where
  "flying_pc (EnqVal v p) = {#v#}"
| "flying_pc (EnqPub v p) = {#v#}"
| "flying_pc _ = {#}"

lemma ring_advance_enq:
  assumes "enq_pc v rp" and "pcs r t = rp"
  shows "pcs (ring_advance r t rp) t = RIdle \<or> enq_pc v (pcs (ring_advance r t rp) t)"
    and "published rp \<Longrightarrow> pcs (ring_advance r t rp) t = RIdle"
    and "outs (ring_advance r t rp) = outs r"
    and "mset (elog (ring_advance r t rp)) + flying_pc rp =
      mset (elog r) + flying_pc (pcs (ring_advance r t rp) t) + mset (if published rp then [v] else [])"
  using assms by (cases rp; simp add: goto_pc_def Let_def)+

lemma ring_advance_deq:
  assumes "deq_pc rp" and "pcs r t = rp"
  shows "pcs (ring_advance r t rp) t = RIdle \<or> deq_pc (pcs (ring_advance r t rp) t)"
    and "fetched rp \<noteq> None \<Longrightarrow> pcs (ring_advance r t rp) t = RIdle"
    and "elog (ring_advance r t rp) = elog r"
    and "mset (map snd (outs (ring_advance r t rp))) =
      mset (map snd (outs r)) + mset (case fetched rp of Some v \<Rightarrow> [v] | None \<Rightarrow> [])"
    and "flying_pc rp = {#}" and "flying_pc (pcs (ring_advance r t rp) t) = {#}"
  using assms by (cases rp; simp add: goto_pc_def Let_def)+

text \<open>One access inside a ring call, and what the queue does when the call returns.\<close>

definition enq_return :: "'a option \<Rightarrow> nat \<Rightarrow> 'a rpc \<Rightarrow> 'a rpc \<Rightarrow> 'a spc" where
  "enq_return v a rp rp' = (if rp' = RIdle then if published rp then SIdle else SEnqSegs v a else SEnqRing v a)"

definition deq_return :: "nat \<Rightarrow> 'a rpc \<Rightarrow> 'a rpc \<Rightarrow> 'a spc" where
  "deq_return a rp rp' = (if rp' = RIdle then if fetched rp = None then SDeqNext a else SIdle else SDeqRing a)"

lemma goto_spc_stay: "spcs s t = pc \<Longrightarrow> goto_spc (s\<lparr>taken := taken s, given := given s\<rparr>) t pc = s"
  by (cases s) (auto simp: goto_spc_def)

lemma seg_advance_enq_ring:
  assumes "spcs s t = SEnqRing v a" and "enq_pc v (pcs (ring_at s a) t)"
  defines "rp \<equiv> pcs (ring_at s a) t" and "r \<equiv> ring_advance (ring_at s a) t (pcs (ring_at s a) t)"
  shows "seg_advance s t (SEnqRing v a) = goto_spc ((put_ring s a r)\<lparr>taken := taken s @ (if published rp then [v] else []),
    given := given s\<rparr>) t (enq_return v a rp (pcs r t))"
proof -
  have p: "published rp \<Longrightarrow> pcs r t = RIdle"
    using ring_advance_enq(2) [OF assms(2)] unfolding rp_def r_def by blast
  show ?thesis
  proof (cases "pcs r t = RIdle")
    case True
    then show ?thesis
      by (simp add: enq_return_def Let_def rp_def r_def goto_spc_def put_ring_def)
  next
    case False
    then have "seg_advance s t (SEnqRing v a) = put_ring s a r"
      by (simp add: Let_def rp_def r_def split: rpc.split)
    then show ?thesis
      using False p goto_spc_stay [of "put_ring s a r" t "SEnqRing v a"] assms(1) by (auto simp: enq_return_def)
  qed
qed

lemma seg_advance_deq_ring:
  assumes "spcs s t = SDeqRing a" and "deq_pc (pcs (ring_at s a) t)"
  defines "rp \<equiv> pcs (ring_at s a) t" and "r \<equiv> ring_advance (ring_at s a) t (pcs (ring_at s a) t)"
  shows "seg_advance s t (SDeqRing a) = goto_spc ((put_ring s a r)\<lparr>taken := taken s,
    given := given s @ (case fetched rp of Some v \<Rightarrow> [v] | None \<Rightarrow> [])\<rparr>) t (deq_return a rp (pcs r t))"
proof -
  have p: "fetched rp \<noteq> None \<Longrightarrow> pcs r t = RIdle"
    using ring_advance_deq(2) [OF assms(2)] unfolding rp_def r_def by blast
  show ?thesis
  proof (cases "pcs r t = RIdle")
    case True
    then show ?thesis
      by (simp add: deq_return_def Let_def rp_def r_def goto_spc_def put_ring_def split: option.split)
  next
    case False
    then have "seg_advance s t (SDeqRing a) = put_ring s a r"
      by (simp add: Let_def rp_def r_def split: rpc.split)
    moreover have "fetched rp = None" using False p by blast
    ultimately show ?thesis
      using False goto_spc_stay [of "put_ring s a r" t "SDeqRing a"] assms(1)
      by (simp del: seg_advance.simps add: deq_return_def)
  qed
qed

subsection \<open>Accounting\<close>

definition flying_of :: "'a ssys \<Rightarrow> nat \<Rightarrow> 'a option multiset" where
  "flying_of s t = (case in_ring (spcs s t) of None \<Rightarrow> {#} | Some a \<Rightarrow> flying_pc (pcs (ring_at s a) t))"

definition busy :: "'a ssys \<Rightarrow> nat set" where
  "busy s = {t. spcs s t \<noteq> SIdle}"

text \<open>The values on their way, taken in by some ring, and handed out by some ring.\<close>

definition flying :: "'a ssys \<Rightarrow> 'a option multiset" where
  "flying s = (\<Sum>t \<in> busy s. flying_of s t)"

definition won :: "'a ssys \<Rightarrow> 'a option multiset" where
  "won s = (\<Sum>a < length (segs s). mset (elog (ring_at s a)))"

definition handed :: "'a ssys \<Rightarrow> 'a option multiset" where
  "handed s = (\<Sum>a < length (segs s). mset (map snd (outs (ring_at s a))))"

definition tally :: "'a ssys \<Rightarrow> bool" where
  "tally s \<longleftrightarrow> finite (busy s) \<and> won s = mset (taken s) + flying s \<and> handed s = mset (given s)"

lemma flying_change:
  assumes "finite (busy s)" and "\<And>u. u \<noteq> t \<Longrightarrow> spcs s' u = spcs s u \<and> flying_of s' u = flying_of s u"
  shows "flying s' + flying_of s t = flying s + flying_of s' t" and "finite (busy s')"
proof -
  have idle: "flying_of x u = {#}" if "u \<notin> busy x" for x u
    using that by (simp add: busy_def flying_of_def)
  have "(u \<in> busy s' \<longleftrightarrow> u \<in> busy s) \<and> flying_of s' u = flying_of s u" if "u \<noteq> t" for u
    using assms(2) [OF that] by (simp add: busy_def)
  from active_change [OF assms(1) this idle idle]
  show "flying s' + flying_of s t = flying s + flying_of s' t" "finite (busy s')"
    by (simp_all add: flying_def)
qed

lemma tally_move:
  assumes "tally s" and "in_ring (spcs s t) = None" and "in_ring pc = None"
  shows "tally (goto_spc (s\<lparr>qhead := h, qtail := k, qsegs := n\<rparr>) t pc)"
proof -
  let ?s = "goto_spc (s\<lparr>qhead := h, qtail := k, qsegs := n\<rparr>) t pc"
  have "flying_of ?s u = flying_of s u" if "u \<noteq> t" for u
    using that by (simp add: flying_of_def split: option.split)
  then have "flying ?s + flying_of s t = flying s + flying_of ?s t" "finite (busy ?s)"
    using flying_change [of s t ?s] assms(1) by (simp_all add: tally_def)
  moreover have "flying_of s t = {#}" "flying_of ?s t = {#}"
    using assms(2,3) by (simp_all add: flying_of_def)
  ultimately show ?thesis
    using assms(1) by (simp add: tally_def won_def handed_def)
qed

lemma tally_ring:
  assumes tl: "tally s" and ok: "segs_ok c s" and a: "a < length (segs s)"
    and oth: "\<And>u. u \<noteq> t \<Longrightarrow> pcs r u = pcs (ring_at s a) u"
    and was: "in_ring (spcs s t) = None \<or> in_ring (spcs s t) = Some a"
    and now: "in_ring pc = Some a \<or> in_ring pc = None \<and> pcs r t = RIdle"
    and e: "mset (elog r) + flying_pc (pcs (ring_at s a) t) =
      mset (elog (ring_at s a)) + flying_pc (pcs r t) + mset x"
    and o: "mset (map snd (outs r)) = mset (map snd (outs (ring_at s a))) + mset y"
  shows "tally (goto_spc ((put_ring s a r)\<lparr>taken := taken s @ x, given := given s @ y\<rparr>) t pc)"
proof -
  let ?s = "goto_spc ((put_ring s a r)\<lparr>taken := taken s @ x, given := given s @ y\<rparr>) t pc"
  have at: "ring_at ?s b = (if b = a then r else ring_at s b)" for b
    using a by (simp add: put_ring_at)
  have "flying_of ?s u = flying_of s u" if "u \<noteq> t" for u
    using that oth unfolding flying_of_def at by (auto split: option.split)
  then have f: "flying ?s + flying_of s t = flying s + flying_of ?s t" "finite (busy ?s)"
    using flying_change [of s t ?s] tl by (simp_all add: tally_def)
  have "pcs (ring_at s a) t = RIdle" if "in_ring (spcs s t) = None"
    using that segs_okD(9) [OF ok a] by simp
  then have fs: "flying_of s t = flying_pc (pcs (ring_at s a) t)"
    using was by (auto simp: flying_of_def)
  have ft: "flying_of ?s t = flying_pc (pcs r t)"
    using now unfolding flying_of_def at by auto
  have "won ?s + mset (elog (ring_at s a)) = won s + mset (elog (ring_at ?s a))"
    using a unfolding won_def by (subst sum_change [where a = a]) (auto simp: put_ring_at)
  then have "won ?s + mset (elog (ring_at s a)) + flying_pc (pcs (ring_at s a) t) =
      won s + (mset (elog r) + flying_pc (pcs (ring_at s a) t))"
    unfolding at by (simp add: ac_simps)
  also have "\<dots> = mset (taken s) + flying s + (mset (elog (ring_at s a)) + flying_pc (pcs r t) + mset x)"
    using tl unfolding e by (simp add: tally_def)
  also have "\<dots> = mset (taken s @ x) + (flying s + flying_of ?s t) + mset (elog (ring_at s a))"
    unfolding ft by simp
  finally have "won ?s = mset (taken s @ x) + flying ?s"
    unfolding f(1) [symmetric] fs by simp
  moreover have "handed ?s + mset (map snd (outs (ring_at s a))) = handed s + mset (map snd (outs (ring_at ?s a)))"
    using a unfolding handed_def by (subst sum_change [where a = a]) (auto simp: put_ring_at)
  then have "handed ?s = mset (given s @ y)"
    using tl o unfolding at by (simp add: tally_def)
  ultimately show ?thesis
    using f(2) by (simp add: tally_def)
qed

subsection \<open>The invariant\<close>

definition segs_inv :: "u64 \<Rightarrow> 'a ssys \<Rightarrow> bool" where
  "segs_inv c s \<longleftrightarrow> segs_ok c s \<and> tally s"

text \<open>The state after \<open>t.next.CompareAndSwap(nil, ns)\<close> has succeeded.\<close>

definition with_next :: "'a ssys \<Rightarrow> nat \<Rightarrow> 'a ring \<Rightarrow> 'a ssys" where
  "with_next s a r = s\<lparr>segs := (segs s)[a := (segs s ! a)\<lparr>cnext := Some (length (segs s))\<rparr>] @
     [\<lparr>cring = idle_ring r, cnext = None\<rparr>]\<rparr>"

lemma with_next_simps [simp]:
  "length (segs (with_next s a r)) = Suc (length (segs s))" "qhead (with_next s a r) = qhead s"
  "qtail (with_next s a r) = qtail s" "qcap (with_next s a r) = qcap s" "qsegs (with_next s a r) = qsegs s"
  "qmax (with_next s a r) = qmax s" "taken (with_next s a r) = taken s" "given (with_next s a r) = given s"
  "spcs (with_next s a r) = spcs s"
  by (simp_all add: with_next_def)

lemma with_next_at:
  assumes "a < length (segs s)"
  shows "b < length (segs s) \<Longrightarrow> ring_at (with_next s a r) b = ring_at s b"
    and "ring_at (with_next s a r) (length (segs s)) = idle_ring r"
    and "b < length (segs s) \<Longrightarrow>
      cnext (segs (with_next s a r) ! b) = (if b = a then Some (length (segs s)) else cnext (segs s ! b))"
    and "cnext (segs (with_next s a r) ! length (segs s)) = None"
  using assms by (auto simp: with_next_def ring_at_def nth_append nth_list_update)

lemma segs_inv_link:
  assumes inv: "segs_inv c s" and pc: "spcs s t = SEnqLink v a" and r: "new_ring c = Some r"
  shows "segs_inv c (goto_spc (with_next s a r) t (SEnqTail v a (length (segs s))))"
proof -
  have ok: "segs_ok c s" and tl: "tally s" using inv by (simp_all add: segs_inv_def)
  note D = segs_okD [OF ok]
  have a: "a < length (segs s)" using D(8) [of a t] pc by simp
  let ?s = "goto_spc (with_next s a r) t (SEnqTail v a (length (segs s)))"
  note at = with_next_at [OF a, where r = r]
  have "rings_ok c ?s"
    using D(3-7) at r unfolding rings_ok_def
    by (auto simp: less_Suc_eq ring_start_def idle_ring_def intro!: reach_start)
  moreover have "pcs_ok ?s t"
    using D(9) [of _ t] pc at a by (auto simp: pcs_ok_def less_Suc_eq idle_ring_def)
  ultimately have "segs_ok c ?s"
    using at by (intro segs_ok_step [OF ok]) (auto simp: less_Suc_eq idle_ring_def)
  moreover have "flying_of ?s u = flying_of s u" if "u \<noteq> t" for u
    using that D(8) [of _ u] at(1) by (cases "spcs s u") (simp_all add: flying_of_def)
  then have "flying ?s + flying_of s t = flying s + flying_of ?s t" "finite (busy ?s)"
    using flying_change [of s t ?s] tl by (simp_all add: tally_def)
  then have "tally ?s"
    using tl pc at by (simp add: tally_def won_def handed_def flying_of_def idle_ring_def)
  ultimately show ?thesis by (simp add: segs_inv_def)
qed

lemma segs_inv_move:
  assumes "segs_inv c s" and "in_ring (spcs s t) = None" and "in_ring pc = None"
    and "\<forall>a \<in> spc_addrs pc. a < length (segs s)" and "h < length (segs s)" and "k < length (segs s)"
  shows "segs_inv c (goto_spc (s\<lparr>qhead := h, qtail := k, qsegs := n\<rparr>) t pc)"
  using assms segs_ok_move tally_move unfolding segs_inv_def by blast

lemma segs_inv_goto:
  assumes "segs_inv c s" and "in_ring (spcs s t) = None" and "in_ring pc = None"
    and "\<forall>a \<in> spc_addrs pc. a < length (segs s)"
  shows "segs_inv c (goto_spc s t pc)"
proof -
  have "qhead s < length (segs s)" "qtail s < length (segs s)"
    using assms(1) segs_okD(4,5) unfolding segs_inv_def by blast+
  from segs_inv_move [OF assms this, of "qsegs s"] show ?thesis by simp
qed

lemma segs_inv_ring:
  assumes "segs_inv c s" and "a < length (segs s)" and "ring_step (ring_at s a) r"
    and "\<And>u. u \<noteq> t \<Longrightarrow> pcs r u = pcs (ring_at s a) u"
    and "in_ring (spcs s t) = None \<or> in_ring (spcs s t) = Some a"
    and "\<forall>b \<in> spc_addrs pc. b = a"
    and "\<And>v. pc = SEnqRing v a \<Longrightarrow> enq_pc v (pcs r t)" and "pc = SDeqRing a \<Longrightarrow> deq_pc (pcs r t)"
    and "in_ring pc = Some a \<or> in_ring pc = None \<and> pcs r t = RIdle"
    and "mset (elog r) + flying_pc (pcs (ring_at s a) t) = mset (elog (ring_at s a)) + flying_pc (pcs r t) + mset x"
    and "mset (map snd (outs r)) = mset (map snd (outs (ring_at s a))) + mset y"
  shows "segs_inv c (goto_spc ((put_ring s a r)\<lparr>taken := taken s @ x, given := given s @ y\<rparr>) t pc)"
  using assms(1) segs_ok_ring [OF _ assms(2-6) _ assms(7,8)] tally_ring [OF _ _ assms(2,4,5,9-11)] assms(9)
  unfolding segs_inv_def by auto

lemma history_same: "taken s = tk \<Longrightarrow> given s = gv \<Longrightarrow> s\<lparr>taken := tk, given := gv\<rparr> = s"
  by (cases s) simp

lemma segs_inv_enter:
  assumes "segs_inv c s" and "a < length (segs s)" and "in_ring (spcs s t) = None"
    and "rp = EnqLoad v \<and> pc = SEnqRing v a \<or> rp = DeqLoad \<and> pc = SDeqRing a"
  shows "segs_inv c (goto_spc (put_ring s a (goto_pc (ring_at s a) t rp)) t pc)"
proof -
  have idle: "pcs (ring_at s a) t = RIdle"
    using segs_okD(9) [of c s a t] assms(1-3) by (simp add: segs_inv_def)
  then have "ring_step (ring_at s a) (goto_pc (ring_at s a) t rp)"
    using assms(4) by (auto intro: ring_step.intros)
  then have "segs_inv c (goto_spc ((put_ring s a (goto_pc (ring_at s a) t rp))\<lparr>taken := taken s @ [], given := given s @ []\<rparr>) t pc)"
    using assms(2-4) idle by (intro segs_inv_ring [OF assms(1)]) (auto simp: goto_pc_def)
  moreover have "(put_ring s a r)\<lparr>taken := taken s @ [], given := given s @ []\<rparr> = put_ring s a r" for r
    by (rule history_same) simp_all
  ultimately show ?thesis by metis
qed

lemma segs_inv_enq_ring:
  assumes "segs_inv c s" and "spcs s t = SEnqRing v a"
  shows "segs_inv c (seg_advance s t (SEnqRing v a))"
proof -
  let ?rp = "pcs (ring_at s a) t" let ?r = "ring_advance (ring_at s a) t ?rp"
  have ok: "segs_ok c s" using assms(1) by (simp add: segs_inv_def)
  have e: "enq_pc v ?rp" and a: "a < length (segs s)"
    using segs_okD(10) [OF ok assms(2)] segs_okD(8) [OF ok, of a t] assms(2) by simp_all
  note R = ring_advance_enq [OF e refl]
  have "ring_step (ring_at s a) ?r"
    using e by (intro ring_step.advance) auto
  then have "segs_inv c (goto_spc ((put_ring s a ?r)\<lparr>taken := taken s @ (if published ?rp then [v] else []),
      given := given s @ []\<rparr>) t (enq_return v a ?rp (pcs ?r t)))"
    using R assms(2)
    by (intro segs_inv_ring [OF assms(1) a] ring_advance_other) (auto simp: enq_return_def split: if_splits)
  then show ?thesis
    unfolding seg_advance_enq_ring [OF assms(2) e] by simp
qed

lemma segs_inv_deq_ring:
  assumes "segs_inv c s" and "spcs s t = SDeqRing a"
  shows "segs_inv c (seg_advance s t (SDeqRing a))"
proof -
  let ?rp = "pcs (ring_at s a) t" let ?r = "ring_advance (ring_at s a) t ?rp"
  have ok: "segs_ok c s" using assms(1) by (simp add: segs_inv_def)
  have e: "deq_pc ?rp" and a: "a < length (segs s)"
    using segs_okD(11) [OF ok assms(2)] segs_okD(8) [OF ok, of a t] assms(2) by simp_all
  note R = ring_advance_deq [OF e refl]
  have "ring_step (ring_at s a) ?r"
    using e by (intro ring_step.advance) auto
  then have "segs_inv c (goto_spc ((put_ring s a ?r)\<lparr>taken := taken s @ [],
      given := given s @ (case fetched ?rp of Some v \<Rightarrow> [v] | None \<Rightarrow> [])\<rparr>) t (deq_return a ?rp (pcs ?r t)))"
    using R assms(2)
    by (intro segs_inv_ring [OF assms(1) a] ring_advance_other) (auto simp: deq_return_def split: if_splits)
  then show ?thesis
    unfolding seg_advance_deq_ring [OF assms(2) e] by simp
qed

lemma seg_advance_inv:
  assumes inv: "segs_inv c s" and pc: "spcs s t = pc"
  shows "segs_inv c (seg_advance s t pc)"
proof -
  have ok: "segs_ok c s" using inv by (simp add: segs_inv_def)
  note D = segs_okD(3-7) [OF ok] and T = segs_okD(8) [OF ok, of _ t, unfolded pc]
  note go = segs_inv_goto [OF inv, of t, unfolded pc] and mv = segs_inv_move [OF inv, of t, unfolded pc]
  have hd: "segs_inv c (goto_spc (s\<lparr>qhead := n\<rparr>) t SDeqSub)" if "pc = SDeqHead n" for n
    using mv [of SDeqSub n "qtail s" "qsegs s"] that T D(3) by simp
  have tl: "segs_inv c (goto_spc (s\<lparr>qtail := k\<rparr>) t pc')"
    if "in_ring pc = None" "k < length (segs s)" "in_ring pc' = None" "spc_addrs pc' = {}" for k pc'
    using mv [of pc' "qhead s" k "qsegs s"] that D(2) by simp
  have cn: "segs_inv c (goto_spc (s\<lparr>qsegs := n\<rparr>) t pc')"
    if "in_ring pc = None" "in_ring pc' = None" "spc_addrs pc' = {}" for n pc'
    using mv [of pc' "qhead s" "qtail s" n] that D(2,3) by simp
  show ?thesis
  proof (cases pc)
    case (SEnqRing v a)
    then show ?thesis using segs_inv_enq_ring [OF inv] pc by simp
  next
    case (SDeqRing a)
    then show ?thesis using segs_inv_deq_ring [OF inv] pc by simp
  next
    case (SEnqLoad v)
    then show ?thesis using segs_inv_enter [OF inv D(3), of t] pc by (simp add: Let_def)
  next
    case SDeqLoad
    then show ?thesis using segs_inv_enter [OF inv D(2), of t] pc by (simp add: Let_def)
  next
    case (SEnqLink v a)
    then have "segs_inv c (goto_spc (with_next s a r) t (SEnqTail v a (length (segs s))))" if "new_ring c = Some r" for r
      using segs_inv_link [OF inv] pc that by simp
    then show ?thesis
      using SEnqLink go D(1) inv by (simp add: with_next_def split: option.split)
  qed (use go tl hd cn T D inv in \<open>simp_all split: option.split\<close>)
qed

lemma seg_start_inv: "seg_start c m s \<Longrightarrow> segs_inv c s"
  by (auto simp: seg_start_def segs_inv_def segs_ok_def rings_ok_def pcs_ok_def ring_at_def idle_ring_def ring_start_def
      tally_def busy_def won_def handed_def flying_def intro: reach_start)

interpretation segsys: inductive_invariant "seg_start c m" seg_step "segs_inv c"
  for c m
proof unfold_locales
  fix s s' :: "'a ssys"
  show "segs_inv c s" if "seg_start c m s" using that by (rule seg_start_inv)
  assume inv: "segs_inv c s" and "seg_step s s'"
  from this(2) show "segs_inv c s'"
  proof cases
    case (advance t pc)
    then show ?thesis using seg_advance_inv [OF inv advance(2)] by (simp only:)
  qed (use segs_inv_goto [OF inv] in auto)
qed

text \<open>A queue of one segment stays one segment.\<close>

definition single :: "'a ssys \<Rightarrow> bool" where
  "single s \<longleftrightarrow> length (segs s) = 1 \<and> cnext (segs s ! 0) = None \<and> qmax s = 1 \<and> qsegs s = 1 \<and> qhead s = 0 \<and> qtail s = 0 \<and>
     (\<forall>t. (\<exists>v. spcs s t = SEnqLoad v \<or> spcs s t = SEnqRing v 0 \<or> spcs s t = SEnqSegs v 0) \<or>
        spcs s t \<in> {SIdle, SDeqLoad, SDeqRing 0, SDeqNext 0})"

lemma single_goto:
  assumes "single s" and "spcs (goto_spc s t pc) t = pc"
    and "(\<exists>v. pc = SEnqLoad v \<or> pc = SEnqRing v 0 \<or> pc = SEnqSegs v 0) \<or> pc \<in> {SIdle, SDeqLoad, SDeqRing 0, SDeqNext 0}"
  shows "single (goto_spc ((put_ring s 0 r)\<lparr>taken := x, given := y\<rparr>) t pc)"
    and "single (goto_spc s t pc)" and "single (put_ring s 0 r)"
  using assms by (auto simp: single_def put_ring_at)

interpretation one: inductive_invariant "seg_start c m" seg_step "\<lambda>s. m \<le> 1 \<longrightarrow> single s \<and> segs_inv c s"
  for c m
proof unfold_locales
  fix s s' :: "'a ssys"
  show "m \<le> 1 \<longrightarrow> single s \<and> segs_inv c s" if "seg_start c m s"
  proof
    assume "m \<le> 1"
    then have "m = 0 \<or> m = 1" by (simp add: word_le_nat_alt word_unat_eq_iff le_Suc_eq)
    then show "single s \<and> segs_inv c s"
      using that seg_start_inv [OF that] by (auto simp: seg_start_def single_def)
  qed
  assume inv: "m \<le> 1 \<longrightarrow> single s \<and> segs_inv c s" and st: "seg_step s s'"
  show "m \<le> 1 \<longrightarrow> single s' \<and> segs_inv c s'"
  proof
    assume m: "m \<le> 1"
    then have s: "single s" and si: "segs_inv c s" using inv by simp_all
    from st have "single s'"
    proof cases
      case (advance t pc)
      have ok: "segs_ok c s" using si by (simp add: segs_inv_def)
      consider v where "pc = SEnqRing v 0" | "pc = SDeqRing 0" | v where "pc = SEnqLoad v" | v where "pc = SEnqSegs v 0" |
          "pc = SIdle" | "pc = SDeqLoad" | "pc = SDeqNext 0"
        using s advance(2) unfolding single_def by (metis empty_iff insert_iff)
      then show ?thesis
      proof cases
        case 1
        note e = segs_okD(10) [OF ok advance(2) [unfolded 1]]
        show ?thesis
          unfolding advance(1) 1 seg_advance_enq_ring [OF advance(2) [unfolded 1] e] enq_return_def
          by (intro single_goto [OF s]) auto
      next
        case 2
        note e = segs_okD(11) [OF ok advance(2) [unfolded 2]]
        show ?thesis
          unfolding advance(1) 2 seg_advance_deq_ring [OF advance(2) [unfolded 2] e] deq_return_def
          by (intro single_goto [OF s]) auto
      qed (use s advance(1) single_goto [OF s] in \<open>auto simp: Let_def single_def put_ring_at\<close>)
    qed (use single_goto [OF s] in auto)
    moreover have "segs_inv c s'"
      using segsys.step_inv [OF si st] .
    ultimately show "single s' \<and> segs_inv c s'" ..
  qed
qed

subsection \<open>What the rings give\<close>

lemma mset_nth_distinct:
  assumes "distinct ps" and "set ps \<subseteq> {..<length xs}"
  shows "mset (map (\<lambda>p. xs ! p) ps) \<subseteq># mset xs"
proof -
  have "mset ps = mset_set (set ps)"
    using assms(1) by (simp add: mset_set_set)
  also have "\<dots> \<subseteq># mset_set {..<length xs}"
    using assms(2) by (intro subset_imp_msubset_mset_set) auto
  finally have "image_mset (\<lambda>p. xs ! p) (mset ps) \<subseteq># image_mset (\<lambda>p. xs ! p) (mset_set {..<length xs})"
    by (rule image_mset_subseteq_mono)
  moreover have "image_mset (\<lambda>p. xs ! p) (mset_set {..<length xs}) = mset (map (\<lambda>p. xs ! p) [0..<length xs])"
    by (simp add: mset_set_set [symmetric, of "[0..<length xs]"] lessThan_atLeast0)
  ultimately show ?thesis
    by (simp add: map_nth)
qed

lemma subset_mset_sum: "finite A \<Longrightarrow> (\<And>a. a \<in> A \<Longrightarrow> f a \<subseteq># g a) \<Longrightarrow> sum f A \<subseteq># sum g A"
  by (induction rule: finite_induct) (auto intro: subset_mset.add_mono)

lemma handed_by_ring:
  assumes "distinct (map fst os)" and "\<forall>(p, v) \<in> set os. p < n \<and> v = lg ! p" and "n \<le> length lg"
  shows "mset (map snd os) \<subseteq># mset lg"
proof -
  have "map snd os = map (\<lambda>p. lg ! p) (map fst os)"
    using assms(2) by (auto simp: case_prod_beta)
  moreover have "set (map fst os) \<subseteq> {..<length lg}"
    using assms(2,3) by (force simp: case_prod_beta)
  ultimately show ?thesis
    using mset_nth_distinct [OF assms(1)] by metis
qed

lemma handed_at_rest:
  assumes "distinct (map fst os)" and "set os = {(p, lg ! p) | p. p < n}" and "n \<le> length lg"
  shows "mset (map snd os) = mset (take n lg)"
proof -
  have os: "map snd os = map (\<lambda>p. take n lg ! p) (map fst os)"
    using assms(2) by auto
  have "set (map fst os) = {..<n}"
    using assms(2) by force
  then have "mset (map fst os) = mset [0..<n]"
    using assms(1) by (metis atLeast_upt mset_set_set distinct_upt)
  then have "mset (map (\<lambda>p. take n lg ! p) (map fst os)) = mset (map (\<lambda>p. take n lg ! p) [0..<n])"
    by (simp only: mset_map)
  also have "map (\<lambda>p. take n lg ! p) [0..<n] = take n lg"
    using assms(3) map_nth [of "take n lg"] by simp
  finally show ?thesis
    unfolding os .
qed

text \<open>The 64-bit counters of the rings have not been used up.\<close>

definition fresh_counters :: "'a ssys \<Rightarrow> bool" where
  "fresh_counters s \<longleftrightarrow> (\<forall>g \<in> set (segs s). length (elog (cring g)) + length (rbuf (mem (cring g))) < 2 ^ 64)"

lemma fresh_countersD:
  "fresh_counters s \<Longrightarrow> a < length (segs s) \<Longrightarrow> length (elog (ring_at s a)) + length (rbuf (mem (ring_at s a))) < 2 ^ 64"
  by (simp add: fresh_counters_def ring_at_def)

lemma seg_list_of: "a < length (segs s) \<Longrightarrow> seg_list (segq_of s) a = ring_list (mem (ring_at s a))"
  by (simp add: seg_list_def segq_of_def ring_at_def)

lemma segs_at_rest:
  assumes "segs_inv c s" and "fresh_counters s" and "busy s = {}" and "a < length (segs s)"
  shows "ring_inv (mem (ring_at s a))" and "seg_list (segq_of s) a = drop (dcount (ring_at s a)) (elog (ring_at s a))"
    and "mset (map snd (outs (ring_at s a))) = mset (take (dcount (ring_at s a)) (elog (ring_at s a)))"
proof -
  have ok: "segs_ok c s" using assms(1) by (simp add: segs_inv_def)
  have "spcs s t = SIdle" for t
    using assms(3) by (auto simp: busy_def)
  then have idle: "pcs (ring_at s a) t = RIdle" for t
    using segs_okD(9) [OF ok assms(4), of t] by simp
  note r = segs_okD(6) [OF ok assms(4)] and small = fresh_countersD [OF assms(2,4)]
  note rest = reach_rest [OF r small idle]
  show "ring_inv (mem (ring_at s a))" using rest by blast
  show "seg_list (segq_of s) a = drop (dcount (ring_at s a)) (elog (ring_at s a))"
    using rest by (simp add: seg_list_of [OF assms(4)])
  show "mset (map snd (outs (ring_at s a))) = mset (take (dcount (ring_at s a)) (elog (ring_at s a)))"
    using rest by (intro handed_at_rest reach_outs(3) [OF r small]) blast+
qed

subsection \<open>Segments behind the head are never visited again\<close>

text \<open>Nobody can reach segment 0 any more, and it holds \<open>g\<close>.\<close>

definition addr_ok :: "'a ssys \<Rightarrow> nat \<Rightarrow> bool" where
  "addr_ok s a \<longleftrightarrow> 0 < a \<and> a < length (segs s)"

definition beyond :: "'a cseg \<Rightarrow> 'a ssys \<Rightarrow> bool" where
  "beyond g s \<longleftrightarrow> segs s ! 0 = g \<and> addr_ok s (qhead s) \<and> addr_ok s (qtail s) \<and>
     (\<forall>a n. addr_ok s a \<longrightarrow> cnext (segs s ! a) = Some n \<longrightarrow> addr_ok s n)"

definition stranded :: "'a cseg \<Rightarrow> 'a ssys \<Rightarrow> bool" where
  "stranded g s \<longleftrightarrow> beyond g s \<and> (\<forall>t. \<forall>a \<in> spc_addrs (spcs s t). addr_ok s a)"

lemma strandedD:
  assumes "stranded g s"
  shows "addr_ok s (qhead s)" "addr_ok s (qtail s)" "addr_ok s a \<Longrightarrow> cnext (segs s ! a) = Some n \<Longrightarrow> addr_ok s n"
    "a \<in> spc_addrs (spcs s t) \<Longrightarrow> addr_ok s a"
  using assms by (auto simp: stranded_def beyond_def)

lemma addr_ok_cong: "length (segs s') = length (segs s) \<Longrightarrow> addr_ok s' = addr_ok s"
  by (simp add: addr_ok_def fun_eq_iff)

text \<open>A step that links nothing.\<close>

lemma stranded_same:
  assumes st: "stranded g s" and l: "length (segs s') = length (segs s)" and "segs s' ! 0 = segs s ! 0"
    and c: "\<And>a. a < length (segs s) \<Longrightarrow> cnext (segs s' ! a) = cnext (segs s ! a)"
    and "addr_ok s (qhead s')" and "addr_ok s (qtail s')" and "\<And>u. u \<noteq> t \<Longrightarrow> spcs s' u = spcs s u"
    and "\<forall>a \<in> spc_addrs (spcs s' t). addr_ok s a"
  shows "stranded g s'"
proof -
  have "addr_ok s a" if "a \<in> spc_addrs (spcs s' u)" for u a
    using that assms(7,8) strandedD(4) [OF st, of a u] by (cases "u = t") auto
  moreover have "addr_ok s n" if "addr_ok s a" "cnext (segs s' ! a) = Some n" for a n
    using that c [of a] strandedD(3) [OF st that(1)] by (auto simp: addr_ok_def)
  moreover have "segs s' ! 0 = g" using assms(1,3) by (simp add: stranded_def beyond_def)
  ultimately show ?thesis
    using assms(5,6) unfolding stranded_def beyond_def addr_ok_cong [OF l] by blast
qed

lemma stranded_move:
  assumes "stranded g s" and "addr_ok s h" and "addr_ok s k" and "\<forall>a \<in> spc_addrs pc. addr_ok s a"
  shows "stranded g (goto_spc (s\<lparr>qhead := h, qtail := k, qsegs := n, taken := x, given := y\<rparr>) t pc)"
  by (rule stranded_same [OF assms(1), where t = t]) (use assms in simp_all)

lemma stranded_goto: "stranded g s \<Longrightarrow> \<forall>a \<in> spc_addrs pc. addr_ok s a \<Longrightarrow> stranded g (goto_spc s t pc)"
  by (rule stranded_same [where s = s and t = t]) (simp_all add: strandedD)

lemma stranded_put_ring:
  assumes "stranded g s" and "addr_ok s a"
  shows "stranded g (put_ring s a r)"
proof (rule stranded_same [OF assms(1)])
  have a: "a < length (segs s)" "a \<noteq> 0" using assms(2) by (simp_all add: addr_ok_def)
  show "segs (put_ring s a r) ! 0 = segs s ! 0" using a(2) by (simp add: put_ring_def)
  show "cnext (segs (put_ring s a r) ! b) = cnext (segs s ! b)" for b
    using a(1) by (simp add: put_ring_at)
qed (use strandedD [OF assms(1)] in auto)

lemma stranded_history:
  assumes "stranded g s"
  shows "stranded g (s\<lparr>taken := x\<rparr>)" and "stranded g (s\<lparr>given := x\<rparr>)"
  by (rule stranded_same [OF assms, where t = 0]; use strandedD [OF assms] in simp)+

lemma stranded_link:
  assumes st: "stranded g s" and a: "addr_ok s a"
  shows "stranded g (goto_spc (with_next s a r) t (SEnqTail v a (length (segs s))))"
proof -
  have a': "a < length (segs s)" "a \<noteq> 0" "0 < length (segs s)" using a by (auto simp: addr_ok_def)
  note at = with_next_at [OF a'(1), where r = r]
  have up: "addr_ok (with_next s a r) b \<longleftrightarrow> 0 < b \<and> b \<le> length (segs s)" for b
    by (auto simp: addr_ok_def)
  have "addr_ok (with_next s a r) n"
    if b: "addr_ok (with_next s a r) b" "cnext (segs (with_next s a r) ! b) = Some n" for b n
  proof (cases "b = length (segs s) \<or> b = a")
    case True
    then show ?thesis using b(2) at(3) [of b] at(4) a'(1,3) unfolding up by (auto split: if_splits)
  next
    case False
    then have b': "addr_ok s b" using b(1) unfolding up by (auto simp: addr_ok_def)
    then have "cnext (segs s ! b) = Some n" using b(2) at(3) [of b] False by (simp add: addr_ok_def)
    then have "addr_ok s n" using strandedD(3) [OF st b'] by blast
    then show ?thesis unfolding up by (simp add: addr_ok_def)
  qed
  moreover have "addr_ok s b \<Longrightarrow> addr_ok (with_next s a r) b" for b
    by (simp add: addr_ok_def)
  moreover have "segs (with_next s a r) ! 0 = segs s ! 0"
    using a'(2,3) by (simp add: with_next_def nth_append)
  moreover have "addr_ok (goto_spc x t pc) = addr_ok x" for x :: "'a ssys" and pc
    by (rule addr_ok_cong) simp
  moreover have "addr_ok (with_next s a r) (length (segs s))"
    using a'(3) by (simp add: addr_ok_def)
  ultimately show ?thesis
    using st a unfolding stranded_def beyond_def by simp
qed

lemma seg_advance_stranded:
  assumes st: "stranded g s" and pc: "spcs s t = pc"
  shows "stranded g (seg_advance s t pc)"
proof -
  note D = strandedD [OF st] and T = strandedD(4) [OF st, of _ t, unfolded pc]
  note go = stranded_goto [OF st] and put = stranded_put_ring [OF st]
  have mv: "stranded g (goto_spc (s\<lparr>qhead := h, qtail := k, qsegs := n\<rparr>) t pc')"
    if "addr_ok s h" "addr_ok s k" "\<forall>a \<in> spc_addrs pc'. addr_ok s a" for h k n pc'
    using stranded_move [OF st that, where n = n and x = "taken s" and y = "given s"] by simp
  have hd: "stranded g (goto_spc (s\<lparr>qhead := h\<rparr>) t SDeqSub)" if "addr_ok s h" for h
    using mv [OF that D(2), of SDeqSub "qsegs s"] by simp
  have tl: "stranded g (goto_spc (s\<lparr>qtail := k\<rparr>) t pc')" if "addr_ok s k" "spc_addrs pc' = {}" for k pc'
    using mv [OF D(1) that(1), of pc' "qsegs s"] that(2) by simp
  have cn: "stranded g (goto_spc (s\<lparr>qsegs := n\<rparr>) t pc')" if "spc_addrs pc' = {}" for n pc'
    using mv [OF D(1,2), of pc' n] that by simp
  have ring: "stranded g (goto_spc (put_ring s a r) t pc')" if "addr_ok s a" "\<forall>b \<in> spc_addrs pc'. b = a" for a r pc'
    using that put [OF that(1), of r] by (auto intro!: stranded_goto simp: addr_ok_def)
  have ended: "stranded g (goto_spc ((put_ring s a r)\<lparr>taken := x\<rparr>) t SIdle)"
      "stranded g (goto_spc ((put_ring s a r)\<lparr>given := x\<rparr>) t SIdle)" if "addr_ok s a" for a r x
    using stranded_history [OF put [OF that]] by (auto intro!: stranded_goto)
  show ?thesis
  proof (cases pc)
    case (SEnqRing v a)
    then have "addr_ok s a" using T by simp
    then show ?thesis using SEnqRing put ring ended by (simp add: Let_def split: rpc.split)
  next
    case (SDeqRing a)
    then have "addr_ok s a" using T by simp
    then show ?thesis using SDeqRing put ring ended by (simp add: Let_def split: rpc.split option.split)
  next
    case (SEnqLink v a)
    then have "addr_ok s a" using T by simp
    then show ?thesis
      using SEnqLink st go stranded_link [OF st] by (simp add: with_next_def split: option.split)
  qed (use go tl hd cn ring T D st in \<open>simp_all add: Let_def split: option.split\<close>)
qed

interpretation strand: inductive_invariant "stranded g" seg_step "stranded g"
  for g
proof unfold_locales
  fix s s' :: "'a ssys"
  assume st: "stranded g s" and "seg_step s s'"
  from this(2) show "stranded g s'"
  proof cases
    case (advance t pc)
    then show ?thesis using seg_advance_stranded [OF st advance(2)] by (simp only:)
  qed (use stranded_goto [OF st] in auto)
qed

subsection \<open>Values lost by one producer and one consumer\<close>

text \<open>The consumer (goroutine 1) finds the first segment empty and is about to load its
  \<open>next\<close>. The producer (goroutine 0) now fills that segment with 1 and 2, and its third
  value makes it link a second segment. The consumer goes on: it moves \<open>head\<close> to the second
  segment and returns 3. The first segment, still full, is behind \<open>head\<close> for good.\<close>

definition loss_schedule :: "nat sact list" where
  "loss_schedule =
     [SCallDeq 1, SRun 1, SRun 1, SRun 1,
      SCallEnq 0 (Some 1), SRun 0, SRun 0, SRun 0, SRun 0, SRun 0, SRun 0,
      SCallEnq 0 (Some 2), SRun 0, SRun 0, SRun 0, SRun 0, SRun 0, SRun 0,
      SCallEnq 0 (Some 3), SRun 0, SRun 0, SRun 0, SRun 0, SRun 0, SRun 0, SRun 0, SRun 0,
      SRun 0, SRun 0, SRun 0, SRun 0, SRun 0, SRun 0,
      SRun 1, SRun 1, SRun 1, SRun 1, SRun 1, SRun 1, SRun 1, SRun 1, SRun 1, SRun 1]"

definition lost_segment :: "nat cseg" where
  "lost_segment = \<lparr>cring = \<lparr>mem = \<lparr>rmask = 1, rbuf = [\<lparr>cseq = 1, cval = Some 1\<rparr>, \<lparr>cseq = 2, cval = Some 2\<rparr>],
     rhead = 0, rtail = 2\<rparr>, pcs = \<lambda>_. RIdle, elog = [Some 1, Some 2], dcount = 0, outs = []\<rparr>, cnext = Some 1\<rparr>"

definition seg2_start :: "nat ssys" where
  "seg2_start = \<lparr>segs = [\<lparr>cring = idle_ring \<lparr>rmask = 1, rbuf = [\<lparr>cseq = 0, cval = None\<rparr>, \<lparr>cseq = 1, cval = None\<rparr>],
     rhead = 0, rtail = 0\<rparr>, cnext = None\<rparr>], qhead = 0, qtail = 0, qcap = 2, qsegs = 1, qmax = 2,
     spcs = \<lambda>_. SIdle, taken = [], given = []\<rparr>"

definition seg2_lost :: "nat ssys" where
  "seg2_lost = \<lparr>segs = [lost_segment, \<lparr>cring = \<lparr>mem = \<lparr>rmask = 1,
        rbuf = [\<lparr>cseq = 2, cval = None\<rparr>, \<lparr>cseq = 1, cval = None\<rparr>], rhead = 1, rtail = 1\<rparr>,
        pcs = \<lambda>_. RIdle, elog = [Some 3], dcount = 1, outs = [(0, Some 3)]\<rparr>, cnext = None\<rparr>],
     qhead = 1, qtail = 1, qcap = 2, qsegs = 1, qmax = 2, spcs = \<lambda>_. SIdle,
     taken = [Some 1, Some 2, Some 3], given = [Some 3]\<rparr>"

lemma seg2_ring: "(new_ring 2 :: nat ring option) = Some \<lparr>rmask = 1, rbuf = [\<lparr>cseq = 0, cval = None\<rparr>, \<lparr>cseq = 1, cval = None\<rparr>],
     rhead = 0, rtail = 0\<rparr>"
  using ring2_start by (auto simp: ring_start_def ring2_start_def)

lemma seg2_start: "seg_start 2 2 seg2_start"
  by (simp add: seg_start_def seg2_start_def seg2_ring)

lemma upd_const:
  "(\<lambda>_. c)(a := c) = (\<lambda>_. c)"
  "(\<lambda>_. c)(a := x, b := c) = (if a = b then \<lambda>_. c else (\<lambda>_. c)(a := x))"
  by (auto simp: fun_eq_iff)

lemmas run_eval = seg2_start_def seg2_ring idle_ring_def ring_at_def put_ring_def goto_spc_def goto_pc_def
  set_cell_def cell_index_def dif64_def wrap64_def upd_const word_le_nat_alt

lemma loss_run: "run_schedule seg_act seg2_start loss_schedule = seg2_lost"
  by (simp add: loss_schedule_def seg2_lost_def lost_segment_def run_eval)

lemma reach_seg_schedule: "seg_start c m s \<Longrightarrow> reach (seg_start c m) seg_step (run_schedule seg_act s acts)"
  using reach_run_schedule [where f = seg_act and step = seg_step] seg_act_cases reach_start by metis

lemma loss_reach: "reach (seg_start 2 2) seg_step seg2_lost"
  using reach_seg_schedule [OF seg2_start] loss_run by metis

lemma seg2_lost_facts [simp]:
  "taken seg2_lost = [Some 1, Some 2, Some 3]" "given seg2_lost = [Some 3]" "busy seg2_lost = {}"
  "spcs seg2_lost t = SIdle" "length (segs seg2_lost) = 2"
  by (simp_all add: seg2_lost_def busy_def)

lemma seg2_lost_fresh: "fresh_counters seg2_lost"
  by (simp add: fresh_counters_def seg2_lost_def lost_segment_def)

lemma seg2_lost_stranded: "stranded lost_segment seg2_lost"
  by (auto simp: stranded_def beyond_def addr_ok_def seg2_lost_def less_Suc_eq)

lemma seg2_lost_empty: "segq_dequeue (segq_of seg2_lost) = Some (segq_of seg2_lost, None, False)"
  by (simp add: seg2_lost_def segq_of_def segq_eval)

text \<open>One segment, one value.\<close>

definition seg1_start :: "nat ssys" where
  "seg1_start = seg2_start\<lparr>qmax := 1\<rparr>"

definition one_schedule :: "nat sact list" where
  "one_schedule = [SCallEnq 0 (Some 7), SRun 0, SRun 0, SRun 0, SRun 0, SRun 0, SRun 0]"

lemma one_run: "run_schedule seg_act seg1_start one_schedule =
  \<lparr>segs = [\<lparr>cring = \<lparr>mem = \<lparr>rmask = 1, rbuf = [\<lparr>cseq = 1, cval = Some 7\<rparr>, \<lparr>cseq = 1, cval = None\<rparr>],
     rhead = 0, rtail = 1\<rparr>, pcs = \<lambda>_. RIdle, elog = [Some 7], dcount = 0, outs = []\<rparr>, cnext = None\<rparr>],
   qhead = 0, qtail = 0, qcap = 2, qsegs = 1, qmax = 1, spcs = \<lambda>_. SIdle, taken = [Some 7], given = []\<rparr>"
  by (simp add: one_schedule_def seg1_start_def run_eval)

lemma one_reach: "reach (seg_start 2 1) seg_step (run_schedule seg_act seg1_start one_schedule)"
  by (rule reach_seg_schedule) (simp add: seg_start_def seg1_start_def seg2_start_def seg2_ring)

subsection \<open>Properties\<close>



text \<open>With one segment, which a maximum of 0 or 1 gives, the queue is first in first out under
  every interleaving: there is one segment, it has one log of accepted values, every value
  returned is the one at its position in the log, and when no call is running the values left
  are the end of the log, in a state that the sequential theorems are about.\<close>

theorem segq_single_segment_fifo:
  assumes "reach (seg_start c m) seg_step s" and "fresh_counters s" and "m \<le> 1"
  shows "\<exists>r. segs s = [\<lparr>cring = r, cnext = None\<rparr>] \<and> distinct (map fst (outs r)) \<and>
    (\<forall>(p, v) \<in> set (outs r). p < dcount r \<and> v = elog r ! p) \<and> mset (map snd (outs r)) = mset (given s) \<and>
    mset (elog r) = mset (taken s) + flying s \<and>
    (busy s = {} \<longrightarrow> segq_list (segq_of s) = drop (dcount r) (elog r) \<and> ring_inv (mem r) \<and>
       mset (given s) = mset (take (dcount r) (elog r)))"
proof -
  have si: "single s" and inv: "segs_inv c s" using one.reach_inv [OF assms(1)] assms(3) by simp_all
  then have ok: "segs_ok c s" and tl: "tally s" by (simp_all add: segs_inv_def)
  obtain g where g: "segs s = [g]" using si by (auto simp: single_def length_Suc_conv)
  have l: "0 < length (segs s)" and at: "ring_at s 0 = cring g" by (simp_all add: g ring_at_def)
  note o = reach_outs [OF segs_okD(6) [OF ok l] fresh_countersD [OF assms(2) l], unfolded at]
  note rest = segs_at_rest [OF inv assms(2) _ l, unfolded at]
  have t: "mset (map snd (outs (cring g))) = mset (given s)" "mset (elog (cring g)) = mset (taken s) + flying s"
    using tl by (simp_all add: tally_def handed_def won_def g at)
  have "segq_list (segq_of s) = seg_list (segq_of s) 0"
    using si by (simp add: segq_list_def segq_of_def single_def g)
  moreover have "segs s = [\<lparr>cring = cring g, cnext = None\<rparr>]"
    using si by (cases g) (simp add: single_def g)
  ultimately show ?thesis
    using o(1,2) t rest by (intro exI [of _ "cring g"]) simp
qed

theorem segq_single_segment_fifo_witness:
  "\<exists>s. reach (seg_start 2 1) seg_step s \<and> given s = [] \<and> segq_list (segq_of s) = [Some (7 :: nat)]"
proof -
  note run = one_run
  have b: "busy (run_schedule seg_act seg1_start one_schedule) = {}"
    by (simp add: run busy_def)
  have f: "fresh_counters (run_schedule seg_act seg1_start one_schedule)"
    by (simp add: run fresh_counters_def)
  obtain r where r: "segs (run_schedule seg_act seg1_start one_schedule) = [\<lparr>cring = r, cnext = None\<rparr>]"
      "segq_list (segq_of (run_schedule seg_act seg1_start one_schedule)) = drop (dcount r) (elog r)"
    using segq_single_segment_fifo [OF one_reach f] b by auto
  from r(1) have "dcount r = 0" "elog r = [Some 7]" by (auto simp: run)
  then show ?thesis
    using r(2) one_reach by (intro exI [of _ "run_schedule seg_act seg1_start one_schedule"]) (simp add: run)
qed

text \<open>C28. The segmented queue loses values, already with a single producer and a single
  consumer. An execution from a fresh queue reaches a state in which all three
  \<open>Enqueue\<close> calls have returned true, the one \<open>Dequeue\<close> has returned 3, and no goroutine is
  inside a call, while the values 1 and 2 sit in the first segment; and in every state that
  any further calls of any goroutines lead to, that segment is still there unchanged, so no
  \<open>Dequeue\<close> ever returns them.\<close>

theorem segq_concurrent_loss:
  "\<exists>s g. reach (seg_start 2 2) seg_step s \<and> (\<forall>t. spcs s t = SIdle) \<and>
     taken s = [Some 1, Some 2, Some (3 :: nat)] \<and> given s = [Some 3] \<and>
     segq_dequeue (segq_of s) = Some (segq_of s, None, False) \<and>
     ring_list (mem (cring g)) = [Some 1, Some 2] \<and>
     {s'. reach ((=) s) seg_step s'} \<subseteq>
       {s'. segs s' ! 0 = g \<and> qhead s' \<noteq> 0 \<and> (\<forall>t. 0 \<notin> spc_addrs (spcs s' t))}"
proof -
  have l: "ring_list (mem (cring lost_segment)) = [Some 1, Some 2]"
    by (simp add: lost_segment_def ring_list_def ring_count_def cell_at_def cell_index_def upt_rec)
  have "segs s' ! 0 = lost_segment \<and> qhead s' \<noteq> 0 \<and> (\<forall>t. 0 \<notin> spc_addrs (spcs s' t))"
    if "reach ((=) seg2_lost) seg_step s'" for s'
  proof -
    have "reach (stranded lost_segment) seg_step s'"
      using reach_weaken [OF that] seg2_lost_stranded by blast
    from strand.reach_inv [OF this] show ?thesis
      by (auto simp: stranded_def beyond_def addr_ok_def)
  qed
  with l show ?thesis
    using loss_reach seg2_lost_facts seg2_lost_empty by (intro exI [of _ seg2_lost] exI [of _ lost_segment]) auto
qed

end
