(* ===== verification/Mailbox.thy ===== *)
theory Mailbox
  imports Segmented
begin

text \<open>
  \<open>mailbox/mailbox.go\<close>: an urgent and a normal lane, each a segmented queue, behind one
  \<open>Push\<close> and one \<open>Pop\<close>. The persistence hook acts on a world \<open>'w\<close> (the file system) that
  \<open>Push\<close> threads through; the encoder is a function of the payload. A buffered channel of
  capacity one is the flag "holds a token", a channel that is only ever closed is the flag
  "closed". \<open>Push\<close> under the blocking policy is a loop: what other goroutines do to the
  mailbox between two of its attempts is the list \<open>fs\<close> of their effects, and \<open>PushWaiting\<close>
  says that the call is still in the loop when the list is used up.
\<close>

subsection \<open>State and operations\<close>

record ('p, 'm) envelope =
  prio :: u8
  payload :: 'p
  meta :: 'm
  persist_flag :: bool

definition backpressure_expand :: u8 where "backpressure_expand = 0"
definition backpressure_block :: u8 where "backpressure_block = 1"
definition backpressure_drop_newest :: u8 where "backpressure_drop_newest = 2"

lemmas policies = backpressure_expand_def backpressure_block_def backpressure_drop_newest_def

type_synonym 'w persist_hook = "u8 list \<Rightarrow> 'w \<Rightarrow> 'w \<times> bool"

record ('p, 'm, 'w) mailbox =
  mb_urgent :: "('p, 'm) envelope segq"
  mb_normal :: "('p, 'm) envelope segq"
  mb_policy :: u8
  mb_closed :: bool
  mb_notify :: bool
  mb_size :: int
  mb_persist :: "'w persist_hook option"
  mb_encode :: "('p \<Rightarrow> u8 list option) option"

record ('p, 'w) mb_options =
  opt_capacity :: u64
  opt_urgent_capacity :: u64
  opt_max_segments :: u64
  opt_policy :: u8
  opt_persist :: "'w persist_hook option"
  opt_encode :: "('p \<Rightarrow> u8 list option) option"

definition new_mailbox :: "('p, 'w) mb_options \<Rightarrow> ('p, 'm, 'w) mailbox option" where
  "new_mailbox opts =
     (let capacity = (if opt_capacity opts = 0 then 65536 else opt_capacity opts);
          uc = (if opt_urgent_capacity opts = 0 then 1024 else opt_urgent_capacity opts);
          ms = (if opt_max_segments opts = 0 then 8 else opt_max_segments opts);
          p = (if opt_policy opts = 0 then backpressure_expand else opt_policy opts)
      in case new_segq uc ms of
           None \<Rightarrow> None
         | Some u \<Rightarrow> (case new_segq capacity ms of
               None \<Rightarrow> None
             | Some n \<Rightarrow> Some \<lparr>mb_urgent = u, mb_normal = n, mb_policy = p, mb_closed = False,
                 mb_notify = False, mb_size = 0, mb_persist = opt_persist opts,
                 mb_encode = opt_encode opts\<rparr>))"

definition mb_close :: "('p, 'm, 'w) mailbox \<Rightarrow> ('p, 'm, 'w) mailbox" where
  "mb_close m = (if mb_closed m then m else m\<lparr>mb_closed := True\<rparr>)"

datatype push_result = PushOk | PushClosed | PushFull | PushUnknownPolicy | PushWaiting

definition lane :: "('p, 'm) envelope \<Rightarrow> ('p, 'm, 'w) mailbox \<Rightarrow> ('p, 'm) envelope segq" where
  "lane e m = (if prio e \<noteq> 0 then mb_urgent m else mb_normal m)"

definition set_lane ::
    "('p, 'm) envelope \<Rightarrow> ('p, 'm) envelope segq \<Rightarrow> ('p, 'm, 'w) mailbox \<Rightarrow> ('p, 'm, 'w) mailbox" where
  "set_lane e q m = (if prio e \<noteq> 0 then m\<lparr>mb_urgent := q\<rparr> else m\<lparr>mb_normal := q\<rparr>)"

text \<open>\<open>m.size.Add(1)\<close> and the non-blocking send on \<open>notify\<close>.\<close>

definition mb_signal :: "('p, 'm, 'w) mailbox \<Rightarrow> ('p, 'm, 'w) mailbox" where
  "mb_signal m = m\<lparr>mb_size := wrap64 (mb_size m + 1), mb_notify := True\<rparr>"

definition run_persist :: "('p, 'm, 'w) mailbox \<Rightarrow> ('p, 'm) envelope \<Rightarrow> 'w \<Rightarrow> 'w" where
  "run_persist m e w =
     (if persist_flag e then
        (case (mb_persist m, mb_encode m) of
           (Some hook, Some enc) \<Rightarrow> (case enc (payload e) of Some b \<Rightarrow> fst (hook b w) | None \<Rightarrow> w)
         | _ \<Rightarrow> w)
      else w)"

text \<open>The loop of the blocking policy. The third component lists how long it slept (in
  nanoseconds).\<close>

fun push_block :: "('p, 'm) envelope \<Rightarrow> int \<Rightarrow> (('p, 'm, 'w) mailbox \<Rightarrow> ('p, 'm, 'w) mailbox) list \<Rightarrow>
    ('p, 'm, 'w) mailbox \<Rightarrow> (('p, 'm, 'w) mailbox \<times> push_result \<times> int list) option" where
  "push_block e backoff fs m =
     (case segq_enqueue (lane e m) (Some e) of
        None \<Rightarrow> None
      | Some (q, ok) \<Rightarrow>
          (let m' = set_lane e q m in
           if ok then Some (mb_signal m', PushOk, [])
           else if mb_closed m' then Some (m', PushClosed, [])
           else case fs of
               [] \<Rightarrow> Some (m', PushWaiting, [])
             | f # fs' \<Rightarrow>
                 map_option (\<lambda>(m'', r, ds). (m'', r, backoff # ds))
                   (push_block e (if backoff < 2000000 then backoff * 2 else backoff) fs' (f m'))))"

declare push_block.simps [simp del]

definition mb_push :: "('p, 'm) envelope \<Rightarrow> (('p, 'm, 'w) mailbox \<Rightarrow> ('p, 'm, 'w) mailbox) list \<Rightarrow>
    ('p, 'm, 'w) mailbox \<Rightarrow> 'w \<Rightarrow> (('p, 'm, 'w) mailbox \<times> 'w \<times> push_result) option" where
  "mb_push e fs m w =
     (if mb_closed m then Some (m, w, PushClosed)
      else let w' = run_persist m e w in
        if mb_policy m = backpressure_expand then
          (case segq_enqueue (lane e m) (Some e) of
             None \<Rightarrow> None
           | Some (q, ok) \<Rightarrow>
               if ok then Some (mb_signal (set_lane e q m), w', PushOk)
               else Some (set_lane e q m, w', PushFull))
        else if mb_policy m = backpressure_drop_newest then
          (case segq_enqueue (lane e m) (Some e) of
             None \<Rightarrow> None
           | Some (q, ok) \<Rightarrow>
               if ok then Some (mb_signal (set_lane e q m), w', PushOk)
               else Some (set_lane e q m, w', PushOk))
        else if mb_policy m = backpressure_block then
          map_option (\<lambda>(m', r, _). (m', w', r)) (push_block e 1000 fs m)
        else Some (m, w', PushUnknownPolicy))"

text \<open>\<open>Pop\<close>: \<open>None\<close> inside the pair is the zero envelope with false.\<close>

definition mb_pop :: "('p, 'm, 'w) mailbox \<Rightarrow> (('p, 'm, 'w) mailbox \<times> ('p, 'm) envelope option) option" where
  "mb_pop m =
     (case segq_dequeue (mb_urgent m) of
        None \<Rightarrow> None
      | Some (u, v, ok) \<Rightarrow>
          (let m1 = m\<lparr>mb_urgent := u\<rparr> in
           if ok \<and> v \<noteq> None then Some (m1\<lparr>mb_size := wrap64 (mb_size m1 - 1)\<rparr>, v)
           else (case segq_dequeue (mb_normal m1) of
                   None \<Rightarrow> None
                 | Some (n, v, ok) \<Rightarrow>
                     (let m2 = m1\<lparr>mb_normal := n\<rparr> in
                      if ok \<and> v \<noteq> None then Some (m2\<lparr>mb_size := wrap64 (mb_size m2 - 1)\<rparr>, v)
                      else Some (m2, None)))))"

definition mb_len :: "('p, 'm, 'w) mailbox \<Rightarrow> int" where
  "mb_len m = mb_size m"

text \<open>\<open>Wait\<close>: the outcomes that the \<open>select\<close> may choose, none while it blocks.\<close>

definition mb_wait :: "('p, 'm, 'w) mailbox \<Rightarrow> (('p, 'm, 'w) mailbox \<times> bool) list" where
  "mb_wait m = (if mb_notify m then [(m\<lparr>mb_notify := False\<rparr>, True)] else []) @
     (if mb_closed m then [(m, False)] else [])"

subsection \<open>The abstract mailbox: two lists\<close>

type_synonym ('p, 'm) lanes = "('p, 'm) envelope list \<times> ('p, 'm) envelope list"

fun lanes_push :: "('p, 'm) envelope \<Rightarrow> ('p, 'm) lanes \<Rightarrow> ('p, 'm) lanes" where
  "lanes_push e (us, ns) = (if prio e \<noteq> 0 then (us @ [e], ns) else (us, ns @ [e]))"

fun lanes_pop :: "('p, 'm) lanes \<Rightarrow> ('p, 'm) lanes \<times> ('p, 'm) envelope option" where
  "lanes_pop (u # us, ns) = ((us, ns), Some u)"
| "lanes_pop ([], n # ns) = (([], ns), Some n)"
| "lanes_pop ([], []) = (([], []), None)"

definition urgents :: "('p, 'm, 'w) mailbox \<Rightarrow> ('p, 'm) envelope list" where
  "urgents m = map the (segq_list (mb_urgent m))"

definition normals :: "('p, 'm, 'w) mailbox \<Rightarrow> ('p, 'm) envelope list" where
  "normals m = map the (segq_list (mb_normal m))"

definition lanes :: "('p, 'm, 'w) mailbox \<Rightarrow> ('p, 'm) lanes" where
  "lanes m = (urgents m, normals m)"

definition lane_ok :: "'a segq \<Rightarrow> bool" where
  "lane_ok q \<longleftrightarrow> segq_inv q \<and> None \<notin> set (segq_list q)"

definition mb_inv :: "('p, 'm, 'w) mailbox \<Rightarrow> bool" where
  "mb_inv m \<longleftrightarrow> lane_ok (mb_urgent m) \<and> lane_ok (mb_normal m) \<and>
     mb_size m = wrap64 (int (length (urgents m)) + int (length (normals m)))"

definition mb_full :: "('p, 'm) envelope \<Rightarrow> ('p, 'm, 'w) mailbox \<Rightarrow> bool" where
  "mb_full e m \<longleftrightarrow> segq_full (lane e m)"

lemma mb_inv_lane: "mb_inv m \<Longrightarrow> lane_ok (lane e m)"
  by (simp add: mb_inv_def lane_def)

lemma set_lane_same [simp]: "set_lane e (lane e m) m = m"
  by (simp add: set_lane_def lane_def)

lemma set_lane_simps [simp]:
  "mb_policy (set_lane e q m) = mb_policy m" "mb_closed (set_lane e q m) = mb_closed m"
  "mb_notify (set_lane e q m) = mb_notify m" "mb_size (set_lane e q m) = mb_size m"
  "mb_persist (set_lane e q m) = mb_persist m" "mb_encode (set_lane e q m) = mb_encode m"
  by (simp_all add: set_lane_def)

lemma mb_signal_simps [simp]:
  "mb_policy (mb_signal m) = mb_policy m" "mb_closed (mb_signal m) = mb_closed m"
  "mb_notify (mb_signal m) = True" "mb_size (mb_signal m) = wrap64 (mb_size m + 1)"
  "mb_urgent (mb_signal m) = mb_urgent m" "mb_normal (mb_signal m) = mb_normal m"
  "mb_persist (mb_signal m) = mb_persist m" "mb_encode (mb_signal m) = mb_encode m"
  by (simp_all add: mb_signal_def)

lemma mb_close_closed [simp]: "mb_closed (mb_close m)" "mb_closed m \<Longrightarrow> mb_close m = m"
  by (simp_all add: mb_close_def)

lemma mb_inv_close: "mb_inv m \<Longrightarrow> mb_inv (mb_close m)"
  by (simp add: mb_inv_def mb_close_def urgents_def normals_def)

text \<open>One attempt to enqueue.\<close>

lemma attempt_full: "mb_inv m \<Longrightarrow> mb_full e m \<Longrightarrow> segq_enqueue (lane e m) (Some e) = Some (lane e m, False)"
  using mb_inv_lane [of m e] by (simp add: mb_full_def lane_ok_def segqq.enq_full)

lemma attempt_free:
  assumes "mb_inv m" and "\<not> mb_full e m"
  obtains q where "segq_enqueue (lane e m) (Some e) = Some (q, True)"
    "mb_inv (mb_signal (set_lane e q m))"
    "lanes (mb_signal (set_lane e q m)) = lanes_push e (lanes m)"
proof -
  have ok: "lane_ok (lane e m)" using assms(1) by (rule mb_inv_lane)
  obtain q where q: "segq_enqueue (lane e m) (Some e) = Some (q, True)" "segq_inv q"
    "segq_list q = segq_list (lane e m) @ [Some e]"
    using segqq.enq_free [of "lane e m" "Some e"] ok assms(2) by (auto simp: lane_ok_def mb_full_def)
  have lq: "lane_ok q"
    using ok q by (simp add: lane_ok_def)
  have ls: "lanes (mb_signal (set_lane e q m)) = lanes_push e (lanes m)"
    using q(3) by (simp add: lanes_def urgents_def normals_def set_lane_def lane_def)
  have "mb_inv (mb_signal (set_lane e q m))"
    using assms(1) lq q(3)
    by (simp add: mb_inv_def urgents_def normals_def set_lane_def lane_def add_ac)
  with q(1) ls show ?thesis using that by blast
qed

lemma lane_cases:
  assumes "lane_ok q"
  obtains x q' where "segq_list q = Some x # segq_list q'" "segq_dequeue q = Some (q', Some x, True)" "lane_ok q'"
  | q' where "segq_list q = []" "segq_dequeue q = Some (q', None, False)" "lane_ok q'" "segq_list q' = []"
proof -
  have i: "segq_inv q" and n: "None \<notin> set (segq_list q)"
    using assms by (simp_all add: lane_ok_def)
  show thesis
    using i
  proof (cases rule: segqq.deq_cases)
    case (1 v q')
    then obtain x where "v = Some x" using n by (cases v) auto
    with 1 n show ?thesis by (intro that(1)) (auto simp: lane_ok_def)
  next
    case (2 q')
    then show ?thesis by (intro that(2) [of q']) (auto simp: lane_ok_def)
  qed
qed

lemma mb_pop_spec:
  assumes "mb_inv m"
  shows "\<exists>m' r. mb_pop m = Some (m', r) \<and> mb_inv m' \<and> lanes_pop (lanes m) = (lanes m', r) \<and>
    mb_closed m' = mb_closed m \<and> mb_notify m' = mb_notify m \<and> mb_policy m' = mb_policy m \<and>
    mb_persist m' = mb_persist m \<and> mb_encode m' = mb_encode m"
proof -
  have u: "lane_ok (mb_urgent m)" and n: "lane_ok (mb_normal m)"
    and s: "mb_size m = wrap64 (int (length (urgents m)) + int (length (normals m)))"
    using assms by (simp_all add: mb_inv_def)
  note defs = mb_pop_def mb_inv_def lanes_def urgents_def normals_def Let_def
  show ?thesis
    using u
  proof (cases rule: lane_cases)
    case (1 x q')
    then show ?thesis using n s by (simp add: defs)
  next
    case up: (2 u')
    show ?thesis
      using n
    proof (cases rule: lane_cases)
      case (1 x n')
      then show ?thesis using up s by (simp add: defs)
    next
      case (2 n')
      then show ?thesis using up s by (simp add: defs)
    qed
  qed
qed

lemma new_mailbox_ok:
  assumes "new_mailbox opts = Some (m :: ('p, 'm, 'w) mailbox)"
  shows "mb_inv m" and "lanes m = ([], [])" and "\<not> mb_closed m" and "\<not> mb_notify m"
    and "mb_policy m = opt_policy opts"
    and "seg_cap (mb_normal m) = (if opt_capacity opts = 0 then 65536 else opt_capacity opts)"
    and "seg_cap (mb_urgent m) = (if opt_urgent_capacity opts = 0 then 1024 else opt_urgent_capacity opts)"
    and "max_seg (mb_normal m) = (if opt_max_segments opts = 0 then 8 else opt_max_segments opts)"
proof -
  let ?ms = "if opt_max_segments opts = 0 then 8 else opt_max_segments opts"
  obtain u n :: "('p, 'm) envelope segq" where
    u: "new_segq (if opt_urgent_capacity opts = 0 then 1024 else opt_urgent_capacity opts) ?ms = Some u"
    and n: "new_segq (if opt_capacity opts = 0 then 65536 else opt_capacity opts) ?ms = Some n"
    and m: "m = \<lparr>mb_urgent = u, mb_normal = n, mb_policy = opt_policy opts, mb_closed = False,
                 mb_notify = False, mb_size = 0, mb_persist = opt_persist opts, mb_encode = opt_encode opts\<rparr>"
    using assms by (auto simp: new_mailbox_def Let_def policies split: option.splits if_splits)
  note U = new_segq_ok [OF u] and N = new_segq_ok [OF n]
  show "mb_inv m" and "lanes m = ([], [])"
    using U(1,2) N(1,2) by (simp_all add: m mb_inv_def lane_ok_def lanes_def urgents_def normals_def)
  show "seg_cap (mb_normal m) = (if opt_capacity opts = 0 then 65536 else opt_capacity opts)"
    using N(3) by (simp add: m)
  show "seg_cap (mb_urgent m) = (if opt_urgent_capacity opts = 0 then 1024 else opt_urgent_capacity opts)"
    using U(3) by (simp add: m)
  show "max_seg (mb_normal m) = ?ms"
    using N(4) by (simp add: m)
  show "\<not> mb_closed m" and "\<not> mb_notify m" and "mb_policy m = opt_policy opts"
    by (simp_all add: m)
qed

subsection \<open>The loop of the blocking policy\<close>

text \<open>The mailbox as the attempts of a blocked \<open>Push\<close> find it, while it keeps failing.\<close>

fun visits :: "('s \<Rightarrow> 's) list \<Rightarrow> 's \<Rightarrow> 's list" where
  "visits [] m = [m]"
| "visits (f # fs) m = m # visits fs (f m)"

fun backoffs :: "nat \<Rightarrow> int list" where
  "backoffs 0 = []"
| "backoffs (Suc n) = backoffs n @ [1000 * 2 ^ min n 11]"

definition next_backoff :: "int \<Rightarrow> int" where
  "next_backoff b = (if b < 2000000 then b * 2 else b)"

lemma next_backoff_pow: "next_backoff (1000 * 2 ^ min n 11) = 1000 * 2 ^ min (Suc n) 11"
proof (cases "n < 11")
  case True
  have "(2::int) ^ n \<le> 2 ^ 10"
    using True by (intro power_increasing) auto
  with True show ?thesis by (simp add: next_backoff_def)
qed (simp add: next_backoff_def)

text \<open>What the loop does, attempt by attempt: it returns at the first attempt that finds room
  (the envelope is enqueued) or a closed mailbox, and not before.\<close>

lemma push_block_visits:
  assumes "mb_inv m" and "\<forall>f \<in> set fs. \<forall>m. mb_inv m \<longrightarrow> mb_inv (f m)"
  shows "\<exists>m' r ds. push_block e (1000 * 2 ^ min n 11) fs m = Some (m', r, ds) \<and> mb_inv m' \<and>
    (case find (\<lambda>x. \<not> mb_full e x \<or> mb_closed x) (visits fs m) of
       None \<Rightarrow> r = PushWaiting \<and> m' = last (visits fs m) \<and> length ds = length fs
     | Some x \<Rightarrow> if mb_full e x then r = PushClosed \<and> m' = x
         else r = PushOk \<and> mb_notify m' \<and> lanes m' = lanes_push e (lanes x)) \<and>
    backoffs n @ ds = backoffs (n + length ds)"
  using assms
proof (induction fs arbitrary: m n)
  case Nil
  show ?case
  proof (cases "mb_full e m")
    case True
    then show ?thesis
      using attempt_full [OF Nil.prems(1) True] Nil.prems(1) by (simp add: push_block.simps)
  next
    case False
    obtain q where "segq_enqueue (lane e m) (Some e) = Some (q, True)"
      "mb_inv (mb_signal (set_lane e q m))" "lanes (mb_signal (set_lane e q m)) = lanes_push e (lanes m)"
      using attempt_free [OF Nil.prems(1) False] .
    with False show ?thesis by (simp add: push_block.simps)
  qed
next
  case (Cons f fs)
  show ?case
  proof (cases "mb_full e m")
    case full: True
    note attempt = attempt_full [OF Cons.prems(1) full]
    show ?thesis
    proof (cases "mb_closed m")
      case True
      with attempt full Cons.prems(1) show ?thesis by (simp add: push_block.simps)
    next
      case open': False
      obtain m' r ds where ih: "push_block e (1000 * 2 ^ min (Suc n) 11) fs (f m) = Some (m', r, ds)" "mb_inv m'"
        "case find (\<lambda>x. \<not> mb_full e x \<or> mb_closed x) (visits fs (f m)) of
           None \<Rightarrow> r = PushWaiting \<and> m' = last (visits fs (f m)) \<and> length ds = length fs
         | Some x \<Rightarrow> if mb_full e x then r = PushClosed \<and> m' = x
             else r = PushOk \<and> mb_notify m' \<and> lanes m' = lanes_push e (lanes x)"
        "backoffs (Suc n) @ ds = backoffs (Suc n + length ds)"
        using Cons.IH [of "f m" "Suc n"] Cons.prems by auto
      have ne: "visits fs (f m) \<noteq> []" by (cases fs) auto
      have "push_block e (1000 * 2 ^ min n 11) (f # fs) m = Some (m', r, 1000 * 2 ^ min n 11 # ds)"
        using attempt open' ih(1) next_backoff_pow [of n]
        by (subst push_block.simps) (simp add: next_backoff_def del: power_Suc)
      then show ?thesis
        using ih(2,3,4) full open' ne by (simp split: option.splits)
    qed
  next
    case False
    obtain q where "segq_enqueue (lane e m) (Some e) = Some (q, True)"
      "mb_inv (mb_signal (set_lane e q m))" "lanes (mb_signal (set_lane e q m)) = lanes_push e (lanes m)"
      using attempt_free [OF Cons.prems(1) False] .
    with False show ?thesis by (simp add: push_block.simps)
  qed
qed

subsection \<open>Histories of calls\<close>

datatype ('p, 'm) mop = MPush "('p, 'm) envelope" | MPop | MClose

datatype ('p, 'm) mres = MPushed push_result | MPopped "('p, 'm) envelope option" | MClosed

fun mb_step :: "('p, 'm) mop \<Rightarrow> ('p, 'm, 'w) mailbox \<times> 'w \<Rightarrow>
    ((('p, 'm, 'w) mailbox \<times> 'w) \<times> ('p, 'm) mres) option" where
  "mb_step (MPush e) (m, w) = map_option (\<lambda>(m', w', r). ((m', w'), MPushed r)) (mb_push e [] m w)"
| "mb_step MPop (m, w) = map_option (\<lambda>(m', r). ((m', w), MPopped r)) (mb_pop m)"
| "mb_step MClose (m, w) = Some ((mb_close m, w), MClosed)"

fun mb_run :: "('p, 'm) mop list \<Rightarrow> ('p, 'm, 'w) mailbox \<times> 'w \<Rightarrow>
    ((('p, 'm, 'w) mailbox \<times> 'w) \<times> ('p, 'm) mres list) option" where
  "mb_run [] s = Some (s, [])"
| "mb_run (op # ops) s =
     (case mb_step op s of
        None \<Rightarrow> None
      | Some (s', r) \<Rightarrow> map_option (\<lambda>(s'', rs). (s'', r # rs)) (mb_run ops s'))"

text \<open>One answer as the two lists explain it: an accepted envelope goes to the end of its
  lane, a refused one nowhere, an envelope is popped from the urgent lane before the normal
  one, and "nothing" means that both lanes are empty; once closed nothing is accepted.\<close>

fun lanes_explain :: "('p, 'm) mop \<Rightarrow> ('p, 'm) mres \<Rightarrow> ('p, 'm) lanes \<times> bool \<Rightarrow> (('p, 'm) lanes \<times> bool) option" where
  "lanes_explain (MPush e) (MPushed r) (ls, c) =
     (if r = PushOk \<and> \<not> c then Some (lanes_push e ls, c)
      else if r = PushClosed \<and> c \<or> r = PushFull \<and> \<not> c then Some (ls, c) else None)"
| "lanes_explain MPop (MPopped r) (ls, c) =
     (case lanes_pop ls of (ls', r') \<Rightarrow> if r = r' then Some (ls', c) else None)"
| "lanes_explain MClose MClosed (ls, c) = Some (ls, True)"
| "lanes_explain _ _ _ = None"

fun lanes_replay :: "('p, 'm) mop list \<Rightarrow> ('p, 'm) mres list \<Rightarrow> ('p, 'm) lanes \<times> bool \<Rightarrow>
    (('p, 'm) lanes \<times> bool) option" where
  "lanes_replay [] [] s = Some s"
| "lanes_replay (op # ops) (r # rs) s =
     (case lanes_explain op r s of None \<Rightarrow> None | Some s' \<Rightarrow> lanes_replay ops rs s')"
| "lanes_replay _ _ _ = None"

definition mb_view :: "('p, 'm, 'w) mailbox \<Rightarrow> ('p, 'm) lanes \<times> bool" where
  "mb_view m = (lanes m, mb_closed m)"

lemma mb_push_expand:
  assumes "mb_inv m" and "mb_policy m = backpressure_expand"
  shows "\<exists>m' w' r. mb_push e fs m w = Some (m', w', r) \<and> mb_inv m' \<and> mb_policy m' = mb_policy m \<and>
    lanes_explain (MPush e) (MPushed r) (mb_view m) = Some (mb_view m')"
proof (cases "mb_closed m")
  case True
  with assms show ?thesis by (simp add: mb_push_def mb_view_def)
next
  case False
  show ?thesis
  proof (cases "mb_full e m")
    case True
    then show ?thesis
      using assms False attempt_full [OF assms(1) True] by (simp add: mb_push_def mb_view_def Let_def)
  next
    case free: False
    obtain q where "segq_enqueue (lane e m) (Some e) = Some (q, True)"
      "mb_inv (mb_signal (set_lane e q m))" "lanes (mb_signal (set_lane e q m)) = lanes_push e (lanes m)"
      using attempt_free [OF assms(1) free] .
    then show ?thesis
      using assms False by (simp add: mb_push_def mb_view_def Let_def)
  qed
qed

lemma mb_step_explained:
  assumes "mb_inv m" and "mb_policy m = backpressure_expand"
  shows "\<exists>m' w' r. mb_step op (m, w) = Some ((m', w'), r) \<and> mb_inv m' \<and> mb_policy m' = mb_policy m \<and>
    lanes_explain op r (mb_view m) = Some (mb_view m')"
proof (cases op)
  case (MPush e)
  then show ?thesis
    using mb_push_expand [OF assms, of e "[]" w] by (auto simp: mb_view_def)
next
  case MPop
  then show ?thesis
    using mb_pop_spec [OF assms(1)] by (auto simp: mb_view_def)
next
  case MClose
  then show ?thesis
    using assms by (auto simp: mb_view_def mb_close_def mb_inv_def lanes_def urgents_def normals_def)
qed

lemma mb_run_explained:
  assumes "mb_inv m" and "mb_policy m = backpressure_expand"
  shows "\<exists>m' w' rs. mb_run ops (m, w) = Some ((m', w'), rs) \<and> mb_inv m' \<and>
    lanes_replay ops rs (mb_view m) = Some (mb_view m')"
  using assms
proof (induction ops arbitrary: m w)
  case Nil
  then show ?case by simp
next
  case (Cons op ops)
  obtain m1 w1 r where s: "mb_step op (m, w) = Some ((m1, w1), r)" "mb_inv m1" "mb_policy m1 = mb_policy m"
    "lanes_explain op r (mb_view m) = Some (mb_view m1)"
    using mb_step_explained [OF Cons.prems] by blast
  obtain m2 w2 rs where t: "mb_run ops (m1, w1) = Some ((m2, w2), rs)" "mb_inv m2"
    "lanes_replay ops rs (mb_view m1) = Some (mb_view m2)"
    using Cons.IH [OF s(2)] s(3) Cons.prems(2) by fastforce
  with s show ?case by simp
qed

lemma mb_inv_len: "mb_inv m \<Longrightarrow> mb_len m = wrap64 (int (length (fst (lanes m)) + length (snd (lanes m))))"
  by (simp add: mb_inv_def mb_len_def lanes_def)

text \<open>One call under a non-blocking policy.\<close>

lemma mb_push_cases:
  assumes "mb_inv m" and "mb_policy m \<noteq> backpressure_block"
  shows "\<exists>m' w' r. mb_push e fs m w = Some (m', w', r) \<and> mb_inv m' \<and> mb_policy m' = mb_policy m \<and>
    mb_closed m' = mb_closed m \<and> mb_persist m' = mb_persist m \<and> mb_encode m' = mb_encode m \<and>
    (if mb_closed m then m' = m \<and> w' = w \<and> r = PushClosed
     else w' = run_persist m e w \<and>
       (if backpressure_drop_newest < mb_policy m then m' = m \<and> r = PushUnknownPolicy
        else if mb_full e m then m' = m \<and>
          r = (if mb_policy m = backpressure_drop_newest then PushOk else PushFull)
        else r = PushOk \<and> lanes m' = lanes_push e (lanes m) \<and> mb_notify m' \<and>
          mb_len m' = wrap64 (mb_len m + 1)))"
proof -
  have pol: "backpressure_drop_newest < mb_policy m \<or> mb_policy m = backpressure_expand \<or>
      mb_policy m = backpressure_drop_newest"
  proof -
    have "p = 0 \<or> p = 1 \<or> p = 2" if "\<not> 2 < p" for p :: u8
      using that by (simp add: word_less_nat_alt word_unat_eq_iff) arith
    then show ?thesis
      using assms(2) by (auto simp: policies)
  qed
  show ?thesis
  proof (cases "mb_full e m")
    case True
    then show ?thesis
      using pol assms attempt_full [OF assms(1) True]
      by (auto simp: mb_push_def Let_def policies)
  next
    case False
    obtain q where "segq_enqueue (lane e m) (Some e) = Some (q, True)"
      "mb_inv (mb_signal (set_lane e q m))" "lanes (mb_signal (set_lane e q m)) = lanes_push e (lanes m)"
      using attempt_free [OF assms(1) False] .
    then show ?thesis
      using pol assms False by (auto simp: mb_push_def Let_def policies mb_len_def)
  qed
qed

subsection \<open>Properties\<close>

text \<open>C13. A mailbox made by \<open>New\<close> with the default policy behaves, over every history of
  \<open>Push\<close>, \<open>Pop\<close> and \<open>Close\<close> calls, as two lists: every call returns, each answer is the one
  the lists explain (first in first out per lane, urgent before normal, "full" only while
  open, "closed" exactly after \<open>Close\<close>), and \<open>Len\<close> is the number of envelopes in them.\<close>

theorem mb_history_refines:
  fixes m :: "('p, 'm, 'w) mailbox"
  assumes "new_mailbox opts = Some m" and "opt_policy opts = backpressure_expand"
  shows "\<exists>m' w' rs. mb_run ops (m, w) = Some ((m', w'), rs) \<and>
    lanes_replay ops rs (([], []), False) = Some (lanes m', mb_closed m') \<and>
    mb_len m' = wrap64 (int (length (fst (lanes m')) + length (snd (lanes m'))))"
proof -
  have "mb_inv m" "mb_policy m = backpressure_expand" "mb_view m = (([], []), False)"
    using new_mailbox_ok [OF assms(1)] assms(2) by (simp_all add: mb_view_def)
  then show ?thesis
    using mb_run_explained [of m ops w] mb_inv_len by (auto simp: mb_view_def)
qed

text \<open>A small mailbox whose hook appends to a list, and envelopes to persist.\<close>

definition tiny_options :: "u8 \<Rightarrow> (nat, u8 list list) mb_options" where
  "tiny_options p = \<lparr>opt_capacity = 2, opt_urgent_capacity = 2, opt_max_segments = 1, opt_policy = p,
     opt_persist = Some (\<lambda>b w. (w @ [b], True)), opt_encode = Some (\<lambda>n. Some [of_nat n])\<rparr>"

definition letter :: "u8 \<Rightarrow> nat \<Rightarrow> (nat, unit) envelope" where
  "letter p n = \<lparr>prio = p, payload = n, meta = (), persist_flag = True\<rparr>"

definition empty2 :: "'a segq" where
  "empty2 = \<lparr>smem = [\<lparr>sq = \<lparr>rmask = 1, rbuf = [\<lparr>cseq = 0, cval = None\<rparr>, \<lparr>cseq = 1, cval = None\<rparr>],
     rhead = 0, rtail = 0\<rparr>, snext = None\<rparr>], shead = 0, stail = 0, seg_cap = 2, seg_count = 1, max_seg = 1\<rparr>"

definition full2 :: "'a \<Rightarrow> 'a \<Rightarrow> 'a segq" where
  "full2 x y = \<lparr>smem = [\<lparr>sq = \<lparr>rmask = 1, rbuf = [\<lparr>cseq = 1, cval = Some x\<rparr>, \<lparr>cseq = 2, cval = Some y\<rparr>],
     rhead = 0, rtail = 2\<rparr>, snext = None\<rparr>], shead = 0, stail = 0, seg_cap = 2, seg_count = 1, max_seg = 1\<rparr>"

definition tiny :: "u8 \<Rightarrow> (nat, unit, u8 list list) mailbox" where
  "tiny p = \<lparr>mb_urgent = empty2, mb_normal = empty2, mb_policy = p, mb_closed = False, mb_notify = False,
     mb_size = 0, mb_persist = opt_persist (tiny_options p), mb_encode = opt_encode (tiny_options p)\<rparr>"

definition tiny_full :: "u8 \<Rightarrow> (nat, unit, u8 list list) mailbox" where
  "tiny_full p = (tiny p)\<lparr>mb_normal := full2 (letter 0 1) (letter 0 2), mb_notify := True, mb_size := 2\<rparr>"

lemmas tiny_eval = segq_eval tiny_def tiny_full_def tiny_options_def letter_def empty2_def full2_def mb_push_def mb_pop_def
  lane_def set_lane_def mb_signal_def run_persist_def mb_close_def policies word_le_nat_alt

lemma tiny_new: "new_mailbox (tiny_options p) = Some (tiny p)"
  by (simp add: new_mailbox_def new_segq_def new_ring_def tiny_options_def tiny_def empty2_def round_up.simps
      push_bit_eq_mult upt_rec policies)

lemma empty2_list: "segq_list empty2 = []"
  by (simp add: segq_list_def seg_list_def ring_list_def ring_count_def empty2_def)

lemma full2_ok: "lane_ok (full2 x y)" and full2_full: "segq_full (full2 x y)"
  and full2_list: "segq_list (full2 x y) = [Some x, Some y]"
proof -
  have e: "new_segq 2 1 = Some (empty2 :: 'a segq)"
    by (simp add: new_segq_def new_ring_def empty2_def round_up.simps push_bit_eq_mult upt_rec)
  have r: "q_run segq_enqueue segq_dequeue empty2 [QEnq (Some x), QEnq (Some y)] =
      Some (full2 x y, [Accepted (Some x), Accepted (Some y)])"
    by (simp add: segq_eval empty2_def full2_def)
  have i: "segq_inv (full2 x y)"
    using segqq.run_inv [OF new_segq_ok(1) [OF e] r] .
  show l: "segq_list (full2 x y) = [Some x, Some y]"
    using segqq.run_conserves [OF new_segq_ok(1) [OF e], of "[QEnq (Some x), QEnq (Some y)]"] r
      new_segq_ok(2) [OF e] by auto
  show "lane_ok (full2 x y)"
    using i l by (simp add: lane_ok_def)
  show "segq_full (full2 x y)"
    using segqq.enq_free [OF i, of "Some x"] by (auto simp: segq_eval full2_def word_le_nat_alt)
qed

lemma tiny_full_ok: "mb_inv (tiny_full p)" and tiny_full_full: "mb_full (letter 0 n) (tiny_full p)"
proof -
  have "mb_inv (tiny p)"
    by (rule new_mailbox_ok(1) [OF tiny_new])
  then show "mb_inv (tiny_full p)"
    using full2_ok [of "letter 0 1" "letter 0 2"]
    by (simp add: mb_inv_def tiny_full_def tiny_def urgents_def normals_def full2_list empty2_list wrap64_def)
  show "mb_full (letter 0 n) (tiny_full p)"
    using full2_full by (simp add: mb_full_def lane_def letter_def tiny_full_def)
qed

theorem mb_history_refines_witness:
  "\<exists>m' w' rs. mb_run [MPush (letter 0 1), MPush (letter 9 2), MPop, MClose, MPush (letter 0 3), MPop, MPop] (tiny 0, []) =
     Some ((m', w'), rs) \<and>
   rs = [MPushed PushOk, MPushed PushOk, MPopped (Some (letter 9 2)), MClosed, MPushed PushClosed,
     MPopped (Some (letter 0 1)), MPopped None] \<and> mb_len m' = 0"
proof -
  let ?ops = "[MPush (letter 0 1), MPush (letter 9 2), MPop, MClose, MPush (letter 0 3), MPop, MPop]"
  have p: "opt_policy (tiny_options 0) = backpressure_expand"
    by (simp add: tiny_options_def policies)
  obtain m' w' rs where r: "mb_run ?ops (tiny 0, []) = Some ((m', w'), rs)"
    "lanes_replay ?ops rs (([], []), False) = Some (lanes m', mb_closed m')"
    "mb_len m' = wrap64 (int (length (fst (lanes m')) + length (snd (lanes m'))))"
    using mb_history_refines [OF tiny_new p, of ?ops "[]"] by blast
  then have rs: "rs = [MPushed PushOk, MPushed PushOk, MPopped (Some (letter 9 2)), MClosed, MPushed PushClosed,
     MPopped (Some (letter 0 1)), MPopped None]"
    by (auto simp: tiny_eval)
  then have "lanes m' = ([], [])"
    using r(2) by (simp add: letter_def)
  with r(1,3) rs show ?thesis
    by (simp add: wrap64_def)
qed

text \<open>One call of \<open>Push\<close> under a non-blocking policy, on every branch: a closed mailbox
  refuses without touching anything; otherwise the envelope is handed to the persistence hook
  first, whatever happens next; an unknown policy refuses it; a full lane refuses it (with an
  error under the expanding policy, silently under the dropping one) and leaves the mailbox
  as it was; and otherwise it goes to the end of the lane its priority selects and the
  consumer is notified. So a refused envelope has been persisted, and a replay of the log
  delivers it although its sender was told that the mailbox is full.\<close>

theorem mb_push_spec:
  assumes "mb_inv m" and "mb_policy m \<noteq> backpressure_block"
  shows "\<exists>m' w' r. mb_push e fs m w = Some (m', w', r) \<and> mb_inv m' \<and>
    (if mb_closed m then m' = m \<and> w' = w \<and> r = PushClosed
     else w' = run_persist m e w \<and>
       (if backpressure_drop_newest < mb_policy m then m' = m \<and> r = PushUnknownPolicy
        else if mb_full e m then m' = m \<and>
          r = (if mb_policy m = backpressure_drop_newest then PushOk else PushFull)
        else r = PushOk \<and> lanes m' = lanes_push e (lanes m) \<and> mb_notify m' \<and>
          mb_len m' = wrap64 (mb_len m + 1)))"
  using mb_push_cases [OF assms, of e fs w] by blast

theorem mb_push_spec_witness:
  "mb_push (letter 0 7) [] (tiny_full 0) [] = Some (tiny_full 0, [[7]], PushFull)"
proof -
  have "mb_policy (tiny_full 0) \<noteq> backpressure_block"
    by (simp add: tiny_full_def tiny_def policies)
  from mb_push_spec [OF tiny_full_ok this, of "letter 0 7" "[]" "[]"] show ?thesis
    using tiny_full_full [of 7 0]
    by (auto simp: policies tiny_full_def tiny_def run_persist_def tiny_options_def letter_def)
qed

text \<open>C30. The loop of the blocking policy. Between its attempts other goroutines may do
  anything that keeps the mailbox well formed. The call returns at the first attempt that
  finds room in the lane, and has then enqueued the envelope there, or a full lane in a closed
  mailbox, and has then changed nothing; until then it goes on. It sleeps 1, 2, 4, ... microseconds
  and never longer than 2.048 milliseconds.\<close>

theorem push_block_spec:
  assumes "mb_inv m" and "\<forall>f \<in> set fs. \<forall>m. mb_inv m \<longrightarrow> mb_inv (f m)"
  shows "\<exists>m' r ds. push_block e 1000 fs m = Some (m', r, ds) \<and> mb_inv m' \<and>
    (case find (\<lambda>x. \<not> mb_full e x \<or> mb_closed x) (visits fs m) of
       None \<Rightarrow> r = PushWaiting \<and> m' = last (visits fs m) \<and> length ds = length fs
     | Some x \<Rightarrow> if mb_full e x then r = PushClosed \<and> m' = x
         else r = PushOk \<and> mb_notify m' \<and> lanes m' = lanes_push e (lanes x)) \<and>
    ds = backoffs (length ds) \<and> (\<forall>d \<in> set ds. d \<le> 2048000)"
proof -
  have "d \<le> 2048000" if "d \<in> set (backoffs n)" for d n
    using that
  proof (induction n)
    case (Suc n)
    have "(2::int) ^ min n 11 \<le> 2 ^ 11"
      by (intro power_increasing) auto
    with Suc show ?case by auto
  qed simp
  then have b: "\<forall>d \<in> set ds. d \<le> 2048000" if "ds = backoffs (length ds)" for ds
    using that by metis
  from push_block_visits [OF assms, of e 0] obtain m' r ds where
    "push_block e 1000 fs m = Some (m', r, ds)" "mb_inv m'"
    "case find (\<lambda>x. \<not> mb_full e x \<or> mb_closed x) (visits fs m) of
       None \<Rightarrow> r = PushWaiting \<and> m' = last (visits fs m) \<and> length ds = length fs
     | Some x \<Rightarrow> if mb_full e x then r = PushClosed \<and> m' = x
         else r = PushOk \<and> mb_notify m' \<and> lanes m' = lanes_push e (lanes x)"
    "ds = backoffs (length ds)"
    by auto
  with b [of ds] show ?thesis by blast
qed

definition pop_once :: "('p, 'm, 'w) mailbox \<Rightarrow> ('p, 'm, 'w) mailbox" where
  "pop_once m = (case mb_pop m of Some (m', _) \<Rightarrow> m' | None \<Rightarrow> m)"

text \<open>The lane \<open>full2 x y\<close> after a pop, and after the next envelope went in.\<close>

definition half2 :: "'a \<Rightarrow> 'a segq" where
  "half2 y = \<lparr>smem = [\<lparr>sq = \<lparr>rmask = 1, rbuf = [\<lparr>cseq = 2, cval = None\<rparr>, \<lparr>cseq = 2, cval = Some y\<rparr>],
     rhead = 1, rtail = 2\<rparr>, snext = None\<rparr>], shead = 0, stail = 0, seg_cap = 2, seg_count = 1, max_seg = 1\<rparr>"

definition again2 :: "'a \<Rightarrow> 'a \<Rightarrow> 'a segq" where
  "again2 z y = \<lparr>smem = [\<lparr>sq = \<lparr>rmask = 1, rbuf = [\<lparr>cseq = 3, cval = Some z\<rparr>, \<lparr>cseq = 2, cval = Some y\<rparr>],
     rhead = 1, rtail = 3\<rparr>, snext = None\<rparr>], shead = 0, stail = 0, seg_cap = 2, seg_count = 1, max_seg = 1\<rparr>"

lemma tiny_lanes:
  "segq_dequeue empty2 = Some (empty2, None, False)"
  "segq_enqueue (full2 x y) (Some z) = Some (full2 x y, False)"
  "segq_dequeue (full2 x y) = Some (half2 y, Some x, True)"
  "segq_enqueue (half2 y) (Some z) = Some (again2 z y, True)"
  by (simp_all add: segq_eval empty2_def full2_def half2_def again2_def word_le_nat_alt)

theorem push_block_spec_witness:
  "\<exists>m'. push_block (letter 0 7) 1000 [id, pop_once] (tiny_full 1) = Some (m', PushOk, [1000, 2000]) \<and>
     mb_inv m'"
proof -
  have f: "\<forall>f \<in> set [id, pop_once]. \<forall>m. mb_inv m \<longrightarrow> mb_inv (f m)"
    using mb_pop_spec by (fastforce simp: pop_once_def split: option.splits prod.splits)
  have "\<exists>m'. push_block (letter 0 7) 1000 [id, pop_once] (tiny_full 1) = Some (m', PushOk, [1000, 2000])"
    by (simp add: push_block.simps pop_once_def mb_pop_def lane_def set_lane_def letter_def tiny_full_def
        tiny_def tiny_lanes Let_def)
  then show ?thesis
    using push_block_spec [OF tiny_full_ok [of 1] f, of "letter 0 7"] by auto
qed

end
