(* ===== verification/MailboxConc.thy ===== *)
theory MailboxConc
  imports Mailbox Transition
begin

text \<open>
  The mailbox between its goroutines: any number of senders inside \<open>Push\<close>
  (\<open>mailbox/mailbox.go\<close>), the one goroutine of the actor's \<open>run\<close> loop
  (\<open>actor/base_actor.go\<close>), and whoever calls \<open>Close\<close>. A step is one operation on a channel or
  counter of the mailbox or one call of a queue. The history variables record the envelopes
  as they enter a lane, as their \<open>Push\<close> returns nil, and as the loop hands them to the
  handler.
\<close>

subsection \<open>Steps\<close>

datatype ('p, 'm) ppc =
    PIdle
  | PCheck "('p, 'm) envelope"     \<comment> \<open>before the first \<open>select\<close> on \<open>closed\<close>\<close>
  | PPersist "('p, 'm) envelope"   \<comment> \<open>before the persistence hook\<close>
  | PEnq "('p, 'm) envelope"       \<comment> \<open>before \<open>q.Enqueue(&env)\<close>\<close>
  | PSize "('p, 'm) envelope"      \<comment> \<open>before \<open>m.size.Add(1)\<close>\<close>
  | PNotify "('p, 'm) envelope"    \<comment> \<open>before the send on \<open>notify\<close>\<close>
  | PFull "('p, 'm) envelope"      \<comment> \<open>blocking policy: before the \<open>select\<close> in the loop\<close>

datatype ('p, 'm) cpc =
    CPopUrgent
  | CPopNormal
  | CSize "('p, 'm) envelope"      \<comment> \<open>before \<open>m.size.Add(-1)\<close>\<close>
  | CHandle "('p, 'm) envelope"    \<comment> \<open>before \<open>a.handle(env)\<close>\<close>
  | CWait
  | CDone

record ('p, 'm, 'w) msys =
  mbx :: "('p, 'm, 'w) mailbox"
  world :: 'w
  senders :: "nat \<Rightarrow> ('p, 'm) ppc"
  loop :: "('p, 'm) cpc"
  entered :: "('p, 'm) envelope list"
  sent :: "('p, 'm) envelope list"
  handled :: "('p, 'm) envelope list"

definition goto_ppc :: "('p, 'm, 'w) msys \<Rightarrow> nat \<Rightarrow> ('p, 'm) ppc \<Rightarrow> ('p, 'm, 'w) msys" where
  "goto_ppc s t pc = s\<lparr>senders := (senders s)(t := pc)\<rparr>"

fun send_advance :: "('p, 'm, 'w) msys \<Rightarrow> nat \<Rightarrow> ('p, 'm) ppc \<Rightarrow> ('p, 'm, 'w) msys" where
  "send_advance s t PIdle = s"
| "send_advance s t (PCheck e) = goto_ppc s t (if mb_closed (mbx s) then PIdle else PPersist e)"
| "send_advance s t (PPersist e) =
     goto_ppc (s\<lparr>world := run_persist (mbx s) e (world s)\<rparr>) t
       (if mb_policy (mbx s) \<le> backpressure_drop_newest then PEnq e else PIdle)"
| "send_advance s t (PEnq e) =
     (case segq_enqueue (lane e (mbx s)) (Some e) of
        None \<Rightarrow> s
      | Some (q, ok) \<Rightarrow>
          let s' = s\<lparr>mbx := set_lane e q (mbx s)\<rparr> in
          if ok then goto_ppc (s'\<lparr>entered := entered s @ [e]\<rparr>) t (PSize e)
          else goto_ppc s' t (if mb_policy (mbx s) = backpressure_block then PFull e else PIdle))"
| "send_advance s t (PSize e) =
     goto_ppc (s\<lparr>mbx := (mbx s)\<lparr>mb_size := wrap64 (mb_size (mbx s) + 1)\<rparr>\<rparr>) t (PNotify e)"
| "send_advance s t (PNotify e) =
     goto_ppc (s\<lparr>mbx := (mbx s)\<lparr>mb_notify := True\<rparr>, sent := sent s @ [e]\<rparr>) t PIdle"
| "send_advance s t (PFull e) = goto_ppc s t (if mb_closed (mbx s) then PIdle else PEnq e)"

text \<open>One step of the actor's loop. In \<open>Wait\<close> the flag says which branch of the \<open>select\<close>
  is taken where both are ready.\<close>

fun loop_advance :: "('p, 'm, 'w) msys \<Rightarrow> bool \<Rightarrow> ('p, 'm) cpc \<Rightarrow> ('p, 'm, 'w) msys" where
  "loop_advance s b CPopUrgent =
     (case segq_dequeue (mb_urgent (mbx s)) of
        None \<Rightarrow> s
      | Some (q, v, ok) \<Rightarrow>
          s\<lparr>mbx := (mbx s)\<lparr>mb_urgent := q\<rparr>,
            loop := (case v of Some e \<Rightarrow> if ok then CSize e else CPopNormal | None \<Rightarrow> CPopNormal)\<rparr>)"
| "loop_advance s b CPopNormal =
     (case segq_dequeue (mb_normal (mbx s)) of
        None \<Rightarrow> s
      | Some (q, v, ok) \<Rightarrow>
          s\<lparr>mbx := (mbx s)\<lparr>mb_normal := q\<rparr>,
            loop := (case v of Some e \<Rightarrow> if ok then CSize e else CWait | None \<Rightarrow> CWait)\<rparr>)"
| "loop_advance s b (CSize e) =
     s\<lparr>mbx := (mbx s)\<lparr>mb_size := wrap64 (mb_size (mbx s) - 1)\<rparr>, loop := CHandle e\<rparr>"
| "loop_advance s b (CHandle e) = s\<lparr>handled := handled s @ [e], loop := CPopUrgent\<rparr>"
| "loop_advance s b CWait =
     (if mb_notify (mbx s) \<and> (b \<or> \<not> mb_closed (mbx s)) then
        s\<lparr>mbx := (mbx s)\<lparr>mb_notify := False\<rparr>, loop := CPopUrgent\<rparr>
      else if mb_closed (mbx s) then s\<lparr>loop := CDone\<rparr>
      else s)"
| "loop_advance s b CDone = s"

inductive mb_sys_step :: "('p, 'm, 'w) msys \<Rightarrow> ('p, 'm, 'w) msys \<Rightarrow> bool" where
  call_push: "senders s t = PIdle \<Longrightarrow> mb_sys_step s (goto_ppc s t (PCheck e))"
| send: "senders s t = pc \<Longrightarrow> mb_sys_step s (send_advance s t pc)"
| receive: "loop s = pc \<Longrightarrow> mb_sys_step s (loop_advance s b pc)"
| close_it: "mb_sys_step s (s\<lparr>mbx := mb_close (mbx s)\<rparr>)"

definition mb_sys_start :: "('p, 'w) mb_options \<Rightarrow> ('p, 'm, 'w) msys \<Rightarrow> bool" where
  "mb_sys_start opts s \<longleftrightarrow> (\<exists>m. new_mailbox opts = Some m \<and> mbx s = m) \<and> (\<forall>t. senders s t = PIdle) \<and>
     loop s = CPopUrgent \<and> entered s = [] \<and> sent s = [] \<and> handled s = []"

datatype ('p, 'm) mact = APush nat "('p, 'm) envelope" | ASend nat | ALoop bool | AClose

fun mb_sys_act :: "('p, 'm, 'w) msys \<Rightarrow> ('p, 'm) mact \<Rightarrow> ('p, 'm, 'w) msys" where
  "mb_sys_act s (APush t e) = (case senders s t of PIdle \<Rightarrow> goto_ppc s t (PCheck e) | _ \<Rightarrow> s)"
| "mb_sys_act s (ASend t) = send_advance s t (senders s t)"
| "mb_sys_act s (ALoop b) = loop_advance s b (loop s)"
| "mb_sys_act s AClose = s\<lparr>mbx := mb_close (mbx s)\<rparr>"

lemma mb_sys_act_step: "mb_sys_act s a = s \<or> mb_sys_step s (mb_sys_act s a)"
  by (cases a) (auto split: ppc.split intro: mb_sys_step.intros)

subsection \<open>Nothing is lost on the way to the handler\<close>

fun in_hand :: "('p, 'm) cpc \<Rightarrow> ('p, 'm) envelope list" where
  "in_hand (CSize e) = [e]"
| "in_hand (CHandle e) = [e]"
| "in_hand _ = []"

definition urgent_ones :: "('p, 'm) envelope list \<Rightarrow> ('p, 'm) envelope list" where
  "urgent_ones es = filter (\<lambda>e. prio e \<noteq> 0) es"

definition normal_ones :: "('p, 'm) envelope list \<Rightarrow> ('p, 'm) envelope list" where
  "normal_ones es = filter (\<lambda>e. prio e = 0) es"

lemma ones_append [simp]:
  "urgent_ones (xs @ ys) = urgent_ones xs @ urgent_ones ys"
  "normal_ones (xs @ ys) = normal_ones xs @ normal_ones ys"
  "urgent_ones [] = []" "normal_ones [] = []"
  "urgent_ones [e] = (if prio e \<noteq> 0 then [e] else [])" "normal_ones [e] = (if prio e = 0 then [e] else [])"
  by (simp_all add: urgent_ones_def normal_ones_def)

text \<open>Each lane holds what entered it and was not yet taken, oldest first.\<close>

definition flow_ok :: "('p, 'm, 'w) msys \<Rightarrow> bool" where
  "flow_ok s \<longleftrightarrow> lane_ok (mb_urgent (mbx s)) \<and> lane_ok (mb_normal (mbx s)) \<and>
     urgent_ones (entered s) = urgent_ones (handled s @ in_hand (loop s)) @ urgents (mbx s) \<and>
     normal_ones (entered s) = normal_ones (handled s @ in_hand (loop s)) @ normals (mbx s)"

text \<open>A sender that has enqueued an envelope and not yet put a token into \<open>notify\<close>.\<close>

fun about_to_notify :: "('p, 'm) ppc \<Rightarrow> bool" where
  "about_to_notify (PSize e) = True"
| "about_to_notify (PNotify e) = True"
| "about_to_notify _ = False"

definition will_wake :: "('p, 'm, 'w) msys \<Rightarrow> bool" where
  "will_wake s \<longleftrightarrow> mb_notify (mbx s) \<or> (\<exists>t. about_to_notify (senders s t))"

definition wake_ok :: "('p, 'm, 'w) msys \<Rightarrow> bool" where
  "wake_ok s \<longleftrightarrow> will_wake s \<or>
     (case loop s of
        CPopNormal \<Rightarrow> segq_list (mb_urgent (mbx s)) = []
      | CWait \<Rightarrow> segq_list (mb_urgent (mbx s)) = [] \<and> segq_list (mb_normal (mbx s)) = []
      | _ \<Rightarrow> True)"

lemma lane_enq:
  assumes "lane_ok q"
  obtains q' where "segq_enqueue q (Some e) = Some (q', True)" "lane_ok q'" "segq_list q' = segq_list q @ [Some e]"
  | "segq_enqueue q (Some e) = Some (q, False)"
proof -
  have i: "segq_inv q" and n: "None \<notin> set (segq_list q)"
    using assms by (simp_all add: lane_ok_def)
  show thesis
    using i
  proof (cases rule: segqq.enq_cases [where q = q and v = "Some e"])
    case (1 q')
    then show ?thesis using n by (intro that(1) [of q']) (auto simp: lane_ok_def)
  next
    case 2
    then show ?thesis by (intro that(2))
  qed
qed

lemma send_flow:
  assumes "flow_ok s" and "senders s t = pc"
  shows "flow_ok (send_advance s t pc)"
proof (cases pc)
  case (PEnq e)
  have "lane_ok (lane e (mbx s))"
    using assms(1) by (simp add: flow_ok_def lane_def)
  then show ?thesis
  proof (cases rule: lane_enq [where e = e])
    case (1 q)
    with assms(1) PEnq show ?thesis
      by (auto simp: flow_ok_def goto_ppc_def set_lane_def lane_def urgents_def normals_def)
  next
    case 2
    with assms(1) PEnq show ?thesis
      by (simp add: flow_ok_def goto_ppc_def urgents_def normals_def)
  qed
qed (use assms in \<open>simp_all add: flow_ok_def goto_ppc_def urgents_def normals_def\<close>)

lemma loop_flow:
  assumes "flow_ok s" and "loop s = pc"
  shows "flow_ok (loop_advance s b pc)"
proof (cases pc)
  case CPopUrgent
  have u: "lane_ok (mb_urgent (mbx s))"
    using assms(1) by (simp add: flow_ok_def)
  then show ?thesis
  proof (cases rule: lane_cases)
    case (1 e q)
    have "e \<in> set (urgent_ones (entered s))"
      using assms 1(1) by (simp add: flow_ok_def urgents_def)
    then have "prio e \<noteq> 0"
      by (simp add: urgent_ones_def)
    with 1 assms CPopUrgent show ?thesis
      by (simp add: flow_ok_def urgents_def normals_def)
  next
    case (2 q)
    with assms CPopUrgent show ?thesis
      by (simp add: flow_ok_def urgents_def normals_def)
  qed
next
  case CPopNormal
  have n: "lane_ok (mb_normal (mbx s))"
    using assms(1) by (simp add: flow_ok_def)
  then show ?thesis
  proof (cases rule: lane_cases)
    case (1 e q)
    have "e \<in> set (normal_ones (entered s))"
      using assms 1(1) by (simp add: flow_ok_def normals_def)
    then have "prio e = 0"
      by (simp add: normal_ones_def)
    with 1 assms CPopNormal show ?thesis
      by (simp add: flow_ok_def urgents_def normals_def)
  next
    case (2 q)
    with assms CPopNormal show ?thesis
      by (simp add: flow_ok_def urgents_def normals_def)
  qed
qed (use assms in \<open>simp_all add: flow_ok_def urgents_def normals_def\<close>)

lemma send_wake:
  assumes f: "flow_ok s" and w: "wake_ok s" and pc: "senders s t = pc"
  shows "wake_ok (send_advance s t pc)"
proof -
  have keep: "wake_ok (goto_ppc (s\<lparr>mbx := m, world := x\<rparr>) t pc')"
    if "\<not> about_to_notify pc \<or> about_to_notify pc'" "mb_notify m = mb_notify (mbx s)"
      "segq_list (mb_urgent m) = segq_list (mb_urgent (mbx s))"
      "segq_list (mb_normal m) = segq_list (mb_normal (mbx s))" for m x pc'
  proof -
    have "will_wake (goto_ppc (s\<lparr>mbx := m, world := x\<rparr>) t pc')" if "will_wake s"
      using that \<open>\<not> about_to_notify pc \<or> about_to_notify pc'\<close> \<open>mb_notify m = mb_notify (mbx s)\<close> pc
      by (auto simp: will_wake_def goto_ppc_def)
    with w that(3,4) show ?thesis
      unfolding wake_ok_def by (auto simp: goto_ppc_def split: cpc.splits)
  qed
  have wakes: "wake_ok s'" if "mb_notify (mbx s') \<or> about_to_notify (senders s' t)" for s' :: "('a, 'b, 'c) msys"
    using that unfolding wake_ok_def will_wake_def by blast
  show ?thesis
  proof (cases pc)
    case (PEnq e)
    have "lane_ok (lane e (mbx s))"
      using f by (simp add: flow_ok_def lane_def)
    then show ?thesis
    proof (cases rule: lane_enq [where e = e])
      case (1 q)
      with PEnq show ?thesis by (auto intro!: wakes simp: goto_ppc_def)
    next
      case 2
      then show ?thesis
        using PEnq keep [where m = "mbx s" and x = "world s"] by simp
    qed
  next
    case (PNotify e)
    then show ?thesis by (auto intro!: wakes simp: goto_ppc_def)
  next
    case (PSize e)
    then show ?thesis by (auto intro!: wakes simp: goto_ppc_def)
  qed (use w keep [where m = "mbx s"] keep [where m = "mbx s" and x = "world s"] keep [where m = "mbx s" and x = "run_persist (mbx s) e (world s)" for e] in simp_all)
qed

lemma loop_wake:
  assumes f: "flow_ok s" and w: "wake_ok s" and pc: "loop s = pc"
  shows "wake_ok (loop_advance s b pc)"
proof -
  have same: "will_wake (s\<lparr>mbx := m, loop := c\<rparr>) = will_wake s" if "mb_notify m = mb_notify (mbx s)" for m c
    using that by (simp add: will_wake_def)
  show ?thesis
  proof (cases pc)
    case CPopUrgent
    have "lane_ok (mb_urgent (mbx s))"
      using f by (simp add: flow_ok_def)
    then show ?thesis
    proof (cases rule: lane_cases)
      case (1 e q)
      with CPopUrgent show ?thesis by (simp add: wake_ok_def)
    next
      case (2 q)
      with CPopUrgent show ?thesis by (simp add: wake_ok_def)
    qed
  next
    case CPopNormal
    have "lane_ok (mb_normal (mbx s))"
      using f by (simp add: flow_ok_def)
    then show ?thesis
    proof (cases rule: lane_cases)
      case (1 e q)
      with CPopNormal show ?thesis by (simp add: wake_ok_def)
    next
      case (2 q)
      with CPopNormal w pc show ?thesis
        using same [of "(mbx s)\<lparr>mb_normal := q\<rparr>" CWait] by (auto simp: wake_ok_def)
    qed
  next
    case CWait
    then show ?thesis
      using w by (auto simp: wake_ok_def)
  qed (use w in \<open>simp_all add: wake_ok_def\<close>)
qed

definition mb_sys_inv :: "('p, 'm, 'w) msys \<Rightarrow> bool" where
  "mb_sys_inv s \<longleftrightarrow> flow_ok s \<and> wake_ok s"

lemma mb_sys_start_inv: "mb_sys_start opts s \<Longrightarrow> mb_sys_inv s"
proof -
  assume st: "mb_sys_start opts s"
  then obtain m where m: "new_mailbox opts = Some m" "mbx s = m"
    by (auto simp: mb_sys_start_def)
  show "mb_sys_inv s"
    using st new_mailbox_ok(1,2) [OF m(1)] m(2)
    by (auto simp: mb_sys_inv_def flow_ok_def wake_ok_def mb_sys_start_def mb_inv_def lanes_def)
qed

lemma mb_sys_step_inv:
  assumes inv: "mb_sys_inv s" and "mb_sys_step s s'"
  shows "mb_sys_inv s'"
  using assms(2)
proof cases
  case (call_push t e)
  have "about_to_notify (senders s' t')" if "about_to_notify (senders s t')" for t'
    using that call_push by (cases "t' = t") (simp_all add: goto_ppc_def)
  moreover have "mb_notify (mbx s') = mb_notify (mbx s)"
    using call_push by (simp add: goto_ppc_def)
  ultimately have "will_wake s'" if "will_wake s"
    using that unfolding will_wake_def by metis
  then show ?thesis
    using inv call_push by (auto simp: mb_sys_inv_def flow_ok_def wake_ok_def goto_ppc_def urgents_def normals_def
        split: cpc.splits)
next
  case (send t pc)
  then show ?thesis
    using inv send_flow [of s t pc] send_wake [of s t pc] by (simp add: mb_sys_inv_def)
next
  case (receive pc b)
  then show ?thesis
    using inv loop_flow [of s pc b] loop_wake [of s pc b] by (simp add: mb_sys_inv_def)
next
  case close_it
  then show ?thesis
    using inv by (auto simp: mb_sys_inv_def flow_ok_def wake_ok_def will_wake_def mb_close_def urgents_def
        normals_def split: cpc.splits)
qed

interpretation mbsys: inductive_invariant "mb_sys_start opts" mb_sys_step mb_sys_inv
  for opts :: "('p, 'w) mb_options"
  by unfold_locales (rule mb_sys_start_inv mb_sys_step_inv, assumption+)+

subsection \<open>Properties\<close>


definition tiny_sys :: "(nat, unit, u8 list list) msys" where
  "tiny_sys = \<lparr>mbx = tiny 0, world = [], senders = \<lambda>_. PIdle, loop = CPopUrgent, entered = [], sent = [],
     handled = []\<rparr>"

lemma tiny_sys_start: "mb_sys_start (tiny_options 0) tiny_sys"
  by (simp add: mb_sys_start_def tiny_sys_def tiny_new)

lemma tiny_sys_reach: "reach (mb_sys_start (tiny_options 0)) mb_sys_step (run_schedule mb_sys_act tiny_sys acts)"
  using reach_run_schedule [where f = mb_sys_act and s = tiny_sys] mb_sys_act_step
    reach_start [of "mb_sys_start (tiny_options 0)", OF tiny_sys_start] by blast

definition one2 :: "'a \<Rightarrow> 'a segq" where
  "one2 x = \<lparr>smem = [\<lparr>sq = \<lparr>rmask = 1, rbuf = [\<lparr>cseq = 1, cval = Some x\<rparr>, \<lparr>cseq = 1, cval = None\<rparr>],
     rhead = 0, rtail = 1\<rparr>, snext = None\<rparr>], shead = 0, stail = 0, seg_cap = 2, seg_count = 1, max_seg = 1\<rparr>"

definition drained2 :: "'a segq" where
  "drained2 = \<lparr>smem = [\<lparr>sq = \<lparr>rmask = 1, rbuf = [\<lparr>cseq = 2, cval = None\<rparr>, \<lparr>cseq = 1, cval = None\<rparr>],
     rhead = 1, rtail = 1\<rparr>, snext = None\<rparr>], shead = 0, stail = 0, seg_cap = 2, seg_count = 1, max_seg = 1\<rparr>"

lemma tiny_lanes1:
  "segq_enqueue empty2 (Some z) = Some (one2 z, True)"
  "segq_dequeue (one2 x) = Some (drained2, Some x, True)"
  "segq_dequeue drained2 = Some (drained2, None, False)"
  by (simp_all add: segq_eval empty2_def one2_def drained2_def)

definition push_all :: "nat \<Rightarrow> (nat, unit) envelope \<Rightarrow> (nat, unit) mact list" where
  "push_all t e = [APush t e, ASend t, ASend t, ASend t, ASend t, ASend t]"

lemmas tiny_sys_eval = tiny_sys_def tiny_def push_all_def goto_ppc_def run_persist_def letter_def
  tiny_options_def lane_def set_lane_def mb_close_def tiny_lanes tiny_lanes1 policies wrap64_def

definition round_trip :: "(nat, unit) mact list" where
  "round_trip = [ALoop True, ALoop True] @ push_all 0 (letter 0 7) @ replicate 8 (ALoop True)"

lemma round_trip_end:
  "loop (run_schedule mb_sys_act tiny_sys round_trip) = CWait"
  "mb_notify (mbx (run_schedule mb_sys_act tiny_sys round_trip)) = False"
  "senders (run_schedule mb_sys_act tiny_sys round_trip) t = PIdle"
  "entered (run_schedule mb_sys_act tiny_sys round_trip) = [letter 0 7]"
  by (simp_all add: round_trip_def tiny_sys_eval numeral_eq_Suc)


text \<open>The loop finds both lanes empty, an envelope is pushed, the mailbox is closed, and \<open>Wait\<close>
  takes the branch on \<open>closed\<close>.\<close>

definition stop_early :: "(nat, unit) mact list" where
  "stop_early = [ALoop True, ALoop True] @ push_all 0 (letter 0 7) @ [AClose, ALoop False]"

definition loop_ended :: "('p, 'm) envelope list \<Rightarrow> ('p, 'm, 'w) msys \<Rightarrow> bool" where
  "loop_ended hs s \<longleftrightarrow> loop s = CDone \<and> handled s = hs"

lemma send_keeps_loop:
  "loop (send_advance s t pc) = loop s \<and> handled (send_advance s t pc) = handled s"
  by (cases pc) (auto simp: goto_ppc_def Let_def split: option.splits)

interpretation ended: inductive_invariant "loop_ended hs" mb_sys_step "loop_ended hs"
  for hs :: "('p, 'm) envelope list"
proof unfold_locales
  fix s s' :: "('p, 'm, 'b) msys"
  assume l: "loop_ended hs s" and "mb_sys_step s s'"
  from this(2) show "loop_ended hs s'"
    by cases (use l send_keeps_loop in \<open>auto simp: loop_ended_def goto_ppc_def\<close>)
qed

text \<open>C29. Stopping an actor may discard a message that was accepted before the mailbox was
  closed. The loop finds both lanes empty and is about to call \<open>Wait\<close>; a sender pushes an
  envelope and \<open>Push\<close> returns nil; then the mailbox is closed. Both branches of the
  \<open>select\<close> in \<open>Wait\<close> are ready, Go may take the one on \<open>closed\<close>, and the loop ends with the
  envelope still in its lane: no later state has it handled.\<close>

theorem mb_stop_discards:
  "\<exists>s. reach (mb_sys_start (tiny_options 0)) mb_sys_step s \<and> sent s = [letter 0 7] \<and>
    normals (mbx s) = [letter 0 7] \<and>
    {s'. reach ((=) s) mb_sys_step s'} \<subseteq> {s'. loop s' = CDone \<and> handled s' = []}"
proof -
  let ?s = "run_schedule mb_sys_act tiny_sys stop_early"
  have s: "sent ?s = [letter 0 7]" "loop_ended [] ?s" "mb_normal (mbx ?s) = one2 (letter 0 7)"
    by (simp_all add: stop_early_def tiny_sys_eval loop_ended_def)
  have "normals (mbx ?s) = [letter 0 7]"
    by (simp add: s(3) normals_def segq_list_def seg_list_def ring_list_def ring_count_def cell_at_def
        cell_index_def one2_def)
  moreover have "loop s' = CDone \<and> handled s' = []" if "reach ((=) ?s) mb_sys_step s'" for s'
  proof -
    have "reach (loop_ended []) mb_sys_step s'"
      using reach_weaken [OF that] s(2) by blast
    from ended.reach_inv [OF this] show ?thesis by (simp add: loop_ended_def)
  qed
  ultimately show ?thesis
    using s(1) tiny_sys_reach by blast
qed

end
