(* ===== verification/Breaker.thy ===== *)
theory Breaker
  imports Prelude
begin

text \<open>
  \<open>actor/breaker.go\<close>: the circuit breaker. Times are nanoseconds since the epoch. The
  calls here come one after the other; \<open>BreakerConc\<close> lets them overlap.
\<close>

subsection \<open>State and operations\<close>

definition breaker_closed :: u32 where "breaker_closed = 0"
definition breaker_open :: u32 where "breaker_open = 1"
definition breaker_half_open :: u32 where "breaker_half_open = 2"

lemmas breaker_states = breaker_closed_def breaker_open_def breaker_half_open_def

record breaker =
  failures :: u64
  bstate :: u32
  opened_at :: int
  probe :: bool
  threshold :: u64
  open_for :: int

definition new_breaker :: "u64 \<Rightarrow> int \<Rightarrow> breaker" where
  "new_breaker thr openfor =
     \<lparr>failures = 0, bstate = breaker_closed, opened_at = 0, probe = False,
      threshold = (if thr = 0 then 50 else thr),
      open_for = (if openfor = 0 then 30000000000 else openfor)\<rparr>"

definition breaker_open_at :: "int \<Rightarrow> breaker \<Rightarrow> breaker" where
  "breaker_open_at now b = b\<lparr>opened_at := wrap64 now, bstate := breaker_open, probe := False\<rparr>"

definition take_probe :: "breaker \<Rightarrow> breaker \<times> bool" where
  "take_probe b = (if probe b then (b, False) else (b\<lparr>probe := True\<rparr>, True))"

definition breaker_allow :: "int \<Rightarrow> breaker \<Rightarrow> breaker \<times> bool" where
  "breaker_allow now b =
     (if bstate b = breaker_closed then (b, True)
      else if bstate b = breaker_open then
        (if time_sub now (opened_at b) \<ge> open_for b
         then take_probe (b\<lparr>bstate := breaker_half_open, probe := False\<rparr>)
         else (b, False))
      else if bstate b = breaker_half_open then take_probe b
      else (b, False))"

definition breaker_on_success :: "breaker \<Rightarrow> breaker" where
  "breaker_on_success b = b\<lparr>failures := 0, bstate := breaker_closed, probe := False\<rparr>"

definition breaker_on_failure :: "int \<Rightarrow> breaker \<Rightarrow> breaker" where
  "breaker_on_failure now b =
     (if bstate b = breaker_half_open then breaker_open_at now b
      else let b' = b\<lparr>failures := failures b + 1\<rparr> in
        if threshold b' \<le> failures b' then breaker_open_at now b' else b')"

datatype bop = BAllow int | BSuccess | BFailure int

fun breaker_step :: "bop \<Rightarrow> breaker \<Rightarrow> breaker \<times> bool option" where
  "breaker_step (BAllow now) b = (case breaker_allow now b of (b', ok) \<Rightarrow> (b', Some ok))"
| "breaker_step BSuccess b = (breaker_on_success b, None)"
| "breaker_step (BFailure now) b = (breaker_on_failure now b, None)"

fun breaker_run :: "bop list \<Rightarrow> breaker \<Rightarrow> breaker \<times> bool list" where
  "breaker_run [] b = (b, [])"
| "breaker_run (op # ops) b =
     (case breaker_step op b of (b1, r) \<Rightarrow>
      case breaker_run ops b1 of (b2, rs) \<Rightarrow>
        (b2, (case r of Some ok \<Rightarrow> ok # rs | None \<Rightarrow> rs)))"

subsection \<open>What the three modes do\<close>

definition breaker_ok :: "breaker \<Rightarrow> bool" where
  "breaker_ok b \<longleftrightarrow> bstate b \<in> {breaker_closed, breaker_open, breaker_half_open} \<and> 0 < threshold b \<and>
     (bstate b = breaker_closed \<longrightarrow> failures b < threshold b)"

lemma breaker_consts [simp]:
  "threshold (breaker_open_at now b) = threshold b" "open_for (breaker_open_at now b) = open_for b"
  "bstate (breaker_open_at now b) = breaker_open" "failures (breaker_open_at now b) = failures b"
  "probe (breaker_open_at now b) = False" "opened_at (breaker_open_at now b) = wrap64 now"
  by (simp_all add: breaker_open_at_def)

lemma breaker_step_const:
  assumes "breaker_step op b = (b', r)"
  shows "threshold b' = threshold b" and "open_for b' = open_for b"
  using assms by (cases op; auto simp: breaker_allow_def take_probe_def breaker_on_success_def
      breaker_on_failure_def Let_def split: if_splits)+

lemma breaker_step_ok:
  assumes "breaker_ok b" and "breaker_step op b = (b', r)"
  shows "breaker_ok b'"
  using assms by (cases op) (auto simp: breaker_ok_def breaker_allow_def take_probe_def breaker_on_success_def
      breaker_on_failure_def Let_def breaker_states not_le split: if_splits)

lemma new_breaker_ok: "breaker_ok (new_breaker thr openfor)"
  by (auto simp: breaker_ok_def new_breaker_def word_neq_0_conv)

text \<open>While it is not closed, a step lets at most one request through, and then the probe is
  taken.\<close>

lemma allow_not_closed:
  assumes "bstate b \<noteq> breaker_closed" and "breaker_allow now b = (b', ok)"
  shows "bstate b' \<noteq> breaker_closed"
    and "ok \<Longrightarrow> bstate b' = breaker_half_open \<and> probe b'"
    and "bstate b = breaker_half_open \<Longrightarrow> probe b \<Longrightarrow> \<not> ok \<and> b' = b"
  using assms by (auto simp: breaker_allow_def take_probe_def breaker_states split: if_splits)

lemma probe_taken_run:
  assumes "bstate b = breaker_half_open" and "probe b"
  shows "breaker_run (map BAllow ts) b = (b, replicate (length ts) False)"
  using assms
  by (induction ts) (simp_all add: breaker_allow_def take_probe_def breaker_states)

lemma one_probe_run:
  assumes "bstate b \<noteq> breaker_closed" and "breaker_run (map BAllow ts) b = (b', rs)"
  shows "length (filter id rs) \<le> 1"
  using assms
proof (induction ts arbitrary: b rs)
  case Nil
  then show ?case by simp
next
  case (Cons t ts)
  obtain b1 ok where a: "breaker_allow t b = (b1, ok)" by (cases "breaker_allow t b")
  obtain rs1 where r: "breaker_run (map BAllow ts) b1 = (b', rs1)" "rs = ok # rs1"
    using Cons.prems(2) a by (auto split: prod.splits)
  show ?case
  proof (cases ok)
    case True
    then have "rs1 = replicate (length ts) False"
      using allow_not_closed(2) [OF Cons.prems(1) a] probe_taken_run [of b1 ts] r(1) by simp
    then show ?thesis using r(2) True by (simp add: filter_replicate)
  next
    case False
    then show ?thesis
      using Cons.IH [OF allow_not_closed(1) [OF Cons.prems(1) a] r(1)] r(2) by simp
  qed
qed

text \<open>From the moment it opens.\<close>

lemma probe_run:
  assumes "due = (\<lambda>now. open_for b \<le> time_sub now (wrap64 t))"
  shows "snd (breaker_run (map BAllow ts) (breaker_open_at t b)) =
      map (\<lambda>_. False) (takeWhile (\<lambda>x. \<not> due x) ts) @
      (case dropWhile (\<lambda>x. \<not> due x) ts of [] \<Rightarrow> [] | _ # rest \<Rightarrow> True # replicate (length rest) False)"
proof (induction ts)
  case Nil
  then show ?case by simp
next
  case (Cons now ts)
  let ?b = "breaker_open_at t b"
  have ne: "breaker_open \<noteq> breaker_closed" by (simp add: breaker_states)
  show ?case
  proof (cases "due now")
    case True
    let ?h = "?b\<lparr>bstate := breaker_half_open, probe := True\<rparr>"
    have "breaker_allow now ?b = (?h, True)"
      using True ne by (simp add: breaker_allow_def take_probe_def assms)
    then show ?thesis
      using True probe_taken_run [of ?h ts] by simp
  next
    case False
    then have "breaker_allow now ?b = (?b, False)"
      using ne by (simp add: breaker_allow_def assms)
    then show ?thesis
      using False Cons.IH by (simp add: case_prod_beta)
  qed
qed

subsection \<open>Counting failures\<close>

definition failure_count :: "bop list \<Rightarrow> nat" where
  "failure_count ops = length (filter (\<lambda>op. case op of BFailure _ \<Rightarrow> True | _ \<Rightarrow> False) ops)"

lemma failure_count_simps [simp]:
  "failure_count [] = 0" "failure_count (BFailure t # ops) = Suc (failure_count ops)"
  "failure_count (BAllow t # ops) = failure_count ops" "failure_count (BSuccess # ops) = failure_count ops"
  by (simp_all add: failure_count_def)

lemma breaker_run_Cons:
  assumes "breaker_run (op # ops) b = (b', rs)"
  obtains b1 r rs1 where "breaker_step op b = (b1, r)" "breaker_run ops b1 = (b', rs1)"
    "rs = (case r of Some ok \<Rightarrow> ok # rs1 | None \<Rightarrow> rs1)"
  using assms by (auto split: prod.splits)

lemma breaker_run_ok:
  assumes "breaker_ok b" and "breaker_run ops b = (b', rs)"
  shows "breaker_ok b'"
  using assms
proof (induction ops arbitrary: b rs)
  case (Cons op ops)
  from Cons.prems(2) obtain b1 r rs1 where "breaker_step op b = (b1, r)" "breaker_run ops b1 = (b', rs1)"
    by (rule breaker_run_Cons)
  then show ?case
    using Cons.IH breaker_step_ok [OF Cons.prems(1)] by blast
qed simp

lemma tripped_stays:
  assumes "bstate b \<noteq> breaker_closed" and "BSuccess \<notin> set ops" and "breaker_run ops b = (b', rs)"
  shows "bstate b' \<noteq> breaker_closed"
  using assms
proof (induction ops arbitrary: b rs)
  case (Cons op ops)
  from Cons.prems(3) obtain b1 r rs1 where s: "breaker_step op b = (b1, r)" "breaker_run ops b1 = (b', rs1)"
    by (rule breaker_run_Cons)
  have "bstate b1 \<noteq> breaker_closed"
    using s(1) Cons.prems(1,2)
    by (cases op) (auto simp: breaker_allow_def take_probe_def breaker_on_failure_def Let_def breaker_states
        split: if_splits)
  then show ?case
    using Cons.IH s(2) Cons.prems(2) by simp
qed simp

lemma trip_run:
  assumes "breaker_ok b" and "bstate b = breaker_closed" and "BSuccess \<notin> set ops"
    and "breaker_run ops b = (b', rs)"
  shows "(bstate b' = breaker_closed \<longleftrightarrow> unat (failures b) + failure_count ops < unat (threshold b)) \<and>
    (bstate b' = breaker_closed \<longrightarrow> list_all id rs)"
  using assms
proof (induction ops arbitrary: b rs)
  case Nil
  then show ?case by (auto simp: breaker_ok_def word_less_nat_alt)
next
  case (Cons op ops)
  from Cons.prems(4) obtain b1 r rs1 where s: "breaker_step op b = (b1, r)" "breaker_run ops b1 = (b', rs1)"
    and rs: "rs = (case r of Some ok \<Rightarrow> ok # rs1 | None \<Rightarrow> rs1)"
    by (rule breaker_run_Cons)
  have ok1: "breaker_ok b1" using breaker_step_ok [OF Cons.prems(1) s(1)] .
  have ns: "BSuccess \<notin> set ops" using Cons.prems(3) by simp
  have lt: "failures b < threshold b" using Cons.prems(1,2) by (simp add: breaker_ok_def)
  show ?case
  proof (cases op)
    case (BAllow t)
    then have "b1 = b" "r = Some True"
      using s(1) Cons.prems(2) by (auto simp: breaker_allow_def)
    then show ?thesis
      using Cons.IH [OF Cons.prems(1,2) ns] s(2) rs BAllow by simp
  next
    case BSuccess
    then show ?thesis using Cons.prems(3) by simp
  next
    case (BFailure t)
    have r: "rs = rs1" using s(1) rs BFailure by auto
    have "unat (failures b) + unat (1 :: u64) < 2 ^ 64"
      using lt unat_bound [of "threshold b"] by (simp add: word_less_nat_alt)
    then have suc: "unat (failures b + 1) = Suc (unat (failures b))"
      using unat_plus_small [of "failures b" 1] by simp
    have half: "breaker_closed \<noteq> breaker_half_open" by (simp add: breaker_states)
    show ?thesis
    proof (cases "threshold b \<le> failures b + 1")
      case True
      then have "bstate b1 = breaker_open"
        using s(1) BFailure Cons.prems(2) half by (auto simp: breaker_on_failure_def Let_def)
      then have "bstate b' \<noteq> breaker_closed"
        using tripped_stays [OF _ ns s(2)] by (simp add: breaker_states)
      then show ?thesis
        using True suc BFailure by (simp add: word_le_nat_alt)
    next
      case False
      then have "b1 = b\<lparr>failures := failures b + 1\<rparr>"
        using s(1) BFailure Cons.prems(2) half by (auto simp: breaker_on_failure_def Let_def)
      then show ?thesis
        using Cons.IH [OF ok1 _ ns s(2)] Cons.prems(2) suc BFailure r by simp
    qed
  qed
qed

subsection \<open>Properties\<close>

text \<open>C18. The breaker trips exactly at its threshold. From a fresh breaker, or one that has
  just seen a success, take any sequence of \<open>Allow\<close> calls and reported failures: it is still
  closed at the end if and only if fewer failures than the threshold were reported, and then
  every \<open>Allow\<close> on the way returned true.\<close>

theorem breaker_trips:
  assumes "breaker_ok b" and "b0 = new_breaker thr openfor \<or> b0 = breaker_on_success b"
    and "BSuccess \<notin> set ops" and "breaker_run ops b0 = (b', rs)"
  shows "(bstate b' = breaker_closed \<longleftrightarrow> failure_count ops < unat (threshold b0)) \<and>
    (bstate b' = breaker_closed \<longrightarrow> list_all id rs) \<and> breaker_ok b'"
proof -
  have "breaker_ok b0" "bstate b0 = breaker_closed" "failures b0 = 0"
    using assms(1,2) new_breaker_ok
    by (auto simp: breaker_on_success_def new_breaker_def breaker_ok_def)
  then show ?thesis
    using trip_run [OF _ _ assms(3,4)] breaker_run_ok [OF _ assms(4)] by simp
qed

theorem breaker_trips_witness:
  "\<exists>b' rs. breaker_run [BAllow 1, BFailure 2, BAllow 3, BFailure 4, BAllow 5] (new_breaker 2 100) = (b', rs) \<and>
     bstate b' \<noteq> breaker_closed"
proof -
  obtain b' rs where r: "breaker_run [BAllow 1, BFailure 2, BAllow 3, BFailure 4, BAllow 5] (new_breaker 2 100) = (b', rs)"
    by (meson surj_pair)
  from breaker_trips [OF new_breaker_ok _ _ r, of 2 100] r show ?thesis
    by (auto simp: new_breaker_def)
qed

text \<open>C19. Recovery. A breaker opened at \<open>t\<close> rejects every request until the first one that
  comes when it has been open for \<open>openFor\<close>; that one is let through as the probe, and
  everything after it is rejected until an outcome is reported. In particular, from any state
  but closed at most one request gets through between two reports. So if the holder of the
  probe never reports, the breaker rejects everything from then on.\<close>

theorem breaker_probe:
  assumes "due = (\<lambda>now. open_for b \<le> time_sub now (wrap64 t))"
  shows "snd (breaker_run (map BAllow ts) (breaker_open_at t b)) =
      map (\<lambda>_. False) (takeWhile (\<lambda>x. \<not> due x) ts) @
      (case dropWhile (\<lambda>x. \<not> due x) ts of [] \<Rightarrow> [] | _ # rest \<Rightarrow> True # replicate (length rest) False) \<and>
    (\<forall>b. bstate b \<noteq> breaker_closed \<longrightarrow> length (filter id (snd (breaker_run (map BAllow ts) b))) \<le> 1)"
  using probe_run [OF assms] one_probe_run by (metis prod.collapse)

theorem breaker_probe_witness:
  "snd (breaker_run (map BAllow [50, 99, 100, 101, 999]) (breaker_open_at 0 (new_breaker 1 100))) =
     [False, False, True, False, False]"
  using breaker_probe [OF refl, where ts = "[50, 99, 100, 101, 999]" and t = 0 and b = "new_breaker 1 100"]
  by (simp add: new_breaker_def time_sub_def min_i64_def max_i64_def wrap64_def)

end
