(* ===== verification/BreakerConc.thy ===== *)
theory BreakerConc
  imports Breaker Transition
begin

text \<open>
  \<open>actor/breaker.go\<close> between goroutines: \<open>Allow\<close>, \<open>OnSuccess\<close> and \<open>OnFailure\<close> with every atomic
  access one step. A goroutine does what \<open>Ask\<close> does with the breaker of its target: it calls
  \<open>Allow\<close> and, when that returned true, reports the outcome once.
\<close>

subsection \<open>Steps\<close>

datatype apc =
    AIdle
  | AState int          \<comment> \<open>\<open>Allow(now)\<close>: before \<open>b.state.Load()\<close>\<close>
  | AOpened int         \<comment> \<open>before \<open>b.openedAtUnix.Load()\<close> and the comparison\<close>
  | AHalf               \<comment> \<open>before the CAS from open to half-open\<close>
  | AReset              \<comment> \<open>before \<open>b.halfOpenProbe.Store(false)\<close>\<close>
  | AProbe              \<comment> \<open>before the CAS on \<open>halfOpenProbe\<close>\<close>
  | AHeld               \<comment> \<open>admitted, the outcome not reported yet\<close>
  | AZero               \<comment> \<open>\<open>OnSuccess\<close>: before \<open>b.failures.Store(0)\<close>\<close>
  | AClosed             \<comment> \<open>before \<open>b.state.Store(closed)\<close>\<close>
  | AFree               \<comment> \<open>the last \<open>b.halfOpenProbe.Store(false)\<close> of \<open>OnSuccess\<close> or \<open>open\<close>\<close>
  | AFail int           \<comment> \<open>\<open>OnFailure(now)\<close>: before \<open>b.state.Load()\<close>\<close>
  | AAdd int            \<comment> \<open>before \<open>b.failures.Add(1)\<close> and the comparison\<close>
  | AOpenAt int         \<comment> \<open>\<open>open(now)\<close>: before \<open>b.openedAtUnix.Store\<close>\<close>
  | AOpen               \<comment> \<open>before \<open>b.state.Store(open)\<close>\<close>

record bsys =
  brk :: breaker
  apcs :: "nat \<Rightarrow> apc"
  answers :: "(nat \<times> bool) list"

definition goto_apc :: "bsys \<Rightarrow> nat \<Rightarrow> apc \<Rightarrow> bsys" where
  "goto_apc s t pc = s\<lparr>apcs := (apcs s)(t := pc)\<rparr>"

definition answer :: "bsys \<Rightarrow> nat \<Rightarrow> bool \<Rightarrow> bsys" where
  "answer s t ok = goto_apc (s\<lparr>answers := answers s @ [(t, ok)]\<rparr>) t (if ok then AHeld else AIdle)"

fun brk_advance :: "bsys \<Rightarrow> nat \<Rightarrow> apc \<Rightarrow> bsys" where
  "brk_advance s t (AState now) =
     (let st = bstate (brk s) in
      if st = breaker_closed then answer s t True
      else if st = breaker_open then goto_apc s t (AOpened now)
      else if st = breaker_half_open then goto_apc s t AProbe
      else answer s t False)"
| "brk_advance s t (AOpened now) =
     (if time_sub now (opened_at (brk s)) \<ge> open_for (brk s) then goto_apc s t AHalf else answer s t False)"
| "brk_advance s t AHalf =
     (if bstate (brk s) = breaker_open
      then goto_apc (s\<lparr>brk := (brk s)\<lparr>bstate := breaker_half_open\<rparr>\<rparr>) t AReset
      else goto_apc s t AProbe)"
| "brk_advance s t AReset = goto_apc (s\<lparr>brk := (brk s)\<lparr>probe := False\<rparr>\<rparr>) t AProbe"
| "brk_advance s t AProbe =
     (if probe (brk s) then answer s t False
      else answer (s\<lparr>brk := (brk s)\<lparr>probe := True\<rparr>\<rparr>) t True)"
| "brk_advance s t AZero = goto_apc (s\<lparr>brk := (brk s)\<lparr>failures := 0\<rparr>\<rparr>) t AClosed"
| "brk_advance s t AClosed = goto_apc (s\<lparr>brk := (brk s)\<lparr>bstate := breaker_closed\<rparr>\<rparr>) t AFree"
| "brk_advance s t AFree = goto_apc (s\<lparr>brk := (brk s)\<lparr>probe := False\<rparr>\<rparr>) t AIdle"
| "brk_advance s t (AFail now) = goto_apc s t (if bstate (brk s) = breaker_half_open then AOpenAt now else AAdd now)"
| "brk_advance s t (AAdd now) =
     (let n = failures (brk s) + 1 in
      goto_apc (s\<lparr>brk := (brk s)\<lparr>failures := n\<rparr>\<rparr>) t (if threshold (brk s) \<le> n then AOpenAt now else AIdle))"
| "brk_advance s t (AOpenAt now) = goto_apc (s\<lparr>brk := (brk s)\<lparr>opened_at := wrap64 now\<rparr>\<rparr>) t AOpen"
| "brk_advance s t AOpen = goto_apc (s\<lparr>brk := (brk s)\<lparr>bstate := breaker_open\<rparr>\<rparr>) t AFree"
| "brk_advance s t _ = s"

inductive brk_step :: "bsys \<Rightarrow> bsys \<Rightarrow> bool" where
  call_allow: "apcs s t = AIdle \<Longrightarrow> brk_step s (goto_apc s t (AState now))"
| report_success: "apcs s t = AHeld \<Longrightarrow> brk_step s (goto_apc s t AZero)"
| report_failure: "apcs s t = AHeld \<Longrightarrow> brk_step s (goto_apc s t (AFail now))"
| advance: "apcs s t = pc \<Longrightarrow> brk_step s (brk_advance s t pc)"

inductive_cases brk_stepE [elim!]: "brk_step s s'"

definition bsys_of :: "breaker \<Rightarrow> bsys" where
  "bsys_of b = \<lparr>brk = b, apcs = \<lambda>_. AIdle, answers = []\<rparr>"

definition brk_start :: "u64 \<Rightarrow> int \<Rightarrow> bsys \<Rightarrow> bool" where
  "brk_start thr openfor s \<longleftrightarrow> s = bsys_of (new_breaker thr openfor)"

datatype aact = ACall nat int | ASucceed nat | AFails nat int | ARun nat

fun brk_act :: "bsys \<Rightarrow> aact \<Rightarrow> bsys" where
  "brk_act s (ACall t now) = (if apcs s t = AIdle then goto_apc s t (AState now) else s)"
| "brk_act s (ASucceed t) = (if apcs s t = AHeld then goto_apc s t AZero else s)"
| "brk_act s (AFails t now) = (if apcs s t = AHeld then goto_apc s t (AFail now) else s)"
| "brk_act s (ARun t) = brk_advance s t (apcs s t)"

lemma brk_act_step: "brk_act s a = s \<or> brk_step s (brk_act s a)"
  by (cases a) (auto intro: brk_step.intros)

lemma goto_apc_simps [simp]:
  "brk (goto_apc s t pc) = brk s" "answers (goto_apc s t pc) = answers s" "apcs (goto_apc s t pc) = (apcs s)(t := pc)"
  by (simp_all add: goto_apc_def)

lemma answer_simps [simp]:
  "brk (answer s t ok) = brk s" "answers (answer s t ok) = answers s @ [(t, ok)]"
  "apcs (answer s t ok) = (apcs s)(t := if ok then AHeld else AIdle)"
  by (simp_all add: answer_def)

subsection \<open>A goroutine alone\<close>

text \<open>Run alone, each of the three calls takes at most five steps and does what its sequential
  definition says.\<close>

definition alone :: "nat \<Rightarrow> aact \<Rightarrow> breaker \<Rightarrow> (nat \<times> bool) list \<Rightarrow> apc \<Rightarrow> bsys \<Rightarrow> bool" where
  "alone t act b oks pc s \<longleftrightarrow> (\<exists>n \<le> 5. run_schedule brk_act s (act # replicate n (ARun t)) =
     s\<lparr>brk := b, apcs := (apcs s)(t := pc), answers := answers s @ oks\<rparr>)"

lemma bsys_eqI: "brk s = brk s' \<Longrightarrow> apcs s = apcs s' \<Longrightarrow> answers s = answers s' \<Longrightarrow> s = (s' :: bsys)"
  by (cases s; cases s') simp

lemma aloneI:
  assumes "n \<le> 5" and "run_schedule brk_act s (act # replicate n (ARun t)) = s'"
    and "brk s' = b" and "apcs s' = (apcs s)(t := pc)" and "answers s' = answers s @ oks"
  shows "alone t act b oks pc s"
proof -
  have "s' = s\<lparr>brk := b, apcs := (apcs s)(t := pc), answers := answers s @ oks\<rparr>"
    using assms(3-5) by (intro bsys_eqI) simp_all
  then show ?thesis using assms(1,2) unfolding alone_def by blast
qed

lemma allow_alone:
  assumes "apcs s t = AIdle" and "breaker_allow now (brk s) = (b, ok)"
  shows "alone t (ACall t now) b [(t, ok)] (if ok then AHeld else AIdle) s"
proof -
  have ne: "breaker_closed \<noteq> breaker_open" "breaker_closed \<noteq> breaker_half_open" "breaker_open \<noteq> breaker_half_open"
    by (simp_all add: breaker_states)
  consider "bstate (brk s) = breaker_closed" | "bstate (brk s) = breaker_open" "time_sub now (opened_at (brk s)) \<ge> open_for (brk s)"
    | "bstate (brk s) = breaker_open" "\<not> time_sub now (opened_at (brk s)) \<ge> open_for (brk s)"
    | "bstate (brk s) = breaker_half_open" | "bstate (brk s) \<notin> {breaker_closed, breaker_open, breaker_half_open}"
    by blast
  then show ?thesis
  proof cases
    case 1
    then show ?thesis using assms by (intro aloneI [of 1, OF _ refl]) (simp_all add: breaker_allow_def)
  next
    case 2
    then show ?thesis using assms ne
      by (intro aloneI [of 5, OF _ refl]) (auto simp: breaker_allow_def take_probe_def numeral_eq_Suc Let_def)
  next
    case 3
    then show ?thesis using assms ne
      by (intro aloneI [of 2, OF _ refl]) (auto simp: breaker_allow_def take_probe_def numeral_eq_Suc Let_def)
  next
    case 4
    then show ?thesis using assms ne
      by (intro aloneI [of 2, OF _ refl])
        (auto simp: breaker_allow_def take_probe_def numeral_eq_Suc Let_def split: if_splits)
  next
    case 5
    then show ?thesis using assms by (intro aloneI [of 1, OF _ refl]) (auto simp: breaker_allow_def)
  qed
qed

lemma success_alone:
  assumes "apcs s t = AHeld"
  shows "alone t (ASucceed t) (breaker_on_success (brk s)) [] AIdle s"
  using assms by (intro aloneI [of 3, OF _ refl]) (simp_all add: breaker_on_success_def numeral_eq_Suc)

lemma failure_alone:
  assumes "apcs s t = AHeld"
  shows "alone t (AFails t now) (breaker_on_failure now (brk s)) [] AIdle s"
proof -
  consider "bstate (brk s) = breaker_half_open"
    | "bstate (brk s) \<noteq> breaker_half_open" "threshold (brk s) \<le> failures (brk s) + 1"
    | "bstate (brk s) \<noteq> breaker_half_open" "\<not> threshold (brk s) \<le> failures (brk s) + 1"
    by blast
  then show ?thesis
  proof cases
    case 1
    then show ?thesis using assms
      by (intro aloneI [of 4, OF _ refl]) (simp_all add: breaker_on_failure_def breaker_open_at_def numeral_eq_Suc)
  next
    case 2
    then show ?thesis using assms
      by (intro aloneI [of 5, OF _ refl]) (simp_all add: breaker_on_failure_def breaker_open_at_def numeral_eq_Suc Let_def)
  next
    case 3
    then show ?thesis using assms
      by (intro aloneI [of 2, OF _ refl]) (simp_all add: breaker_on_failure_def numeral_eq_Suc Let_def)
  qed
qed

subsection \<open>The probe is given back\<close>

text \<open>Positions from which a goroutine will still open or close the breaker or free the probe,
  if the breaker stays half-open.\<close>

fun releases :: "apc \<Rightarrow> bool" where
  "releases AReset = True"
| "releases AHeld = True"
| "releases AZero = True"
| "releases AClosed = True"
| "releases AFree = True"
| "releases (AFail now) = True"
| "releases (AOpenAt now) = True"
| "releases AOpen = True"
| "releases _ = False"

definition probe_inv :: "bsys \<Rightarrow> bool" where
  "probe_inv s \<longleftrightarrow> bstate (brk s) \<in> {breaker_closed, breaker_open, breaker_half_open} \<and>
     (bstate (brk s) = breaker_half_open \<and> probe (brk s) \<longrightarrow> (\<exists>t. releases (apcs s t)))"

lemma probe_inv_step:
  assumes "probe_inv s"
    and "bstate (brk s') \<in> {breaker_closed, breaker_open, breaker_half_open}"
    and "\<And>u. u \<noteq> t \<Longrightarrow> apcs s' u = apcs s u"
    and "bstate (brk s') = breaker_half_open \<Longrightarrow> probe (brk s') \<Longrightarrow> \<not> releases (apcs s' t) \<Longrightarrow>
      bstate (brk s) = breaker_half_open \<and> probe (brk s) \<and> \<not> releases (apcs s t)"
  shows "probe_inv s'"
  using assms unfolding probe_inv_def by metis

lemma probe_inv_advance:
  assumes "probe_inv s"
  shows "probe_inv (brk_advance s t (apcs s t))"
proof (rule probe_inv_step [OF assms, where t = t])
  have st: "bstate (brk s) \<in> {breaker_closed, breaker_open, breaker_half_open}"
    using assms by (simp add: probe_inv_def)
  show "bstate (brk (brk_advance s t (apcs s t))) \<in> {breaker_closed, breaker_open, breaker_half_open}"
    using st by (cases "apcs s t") (auto simp: Let_def)
  show "apcs (brk_advance s t (apcs s t)) u = apcs s u" if "u \<noteq> t" for u
    using that by (cases "apcs s t") (simp_all add: Let_def)
  show "bstate (brk s) = breaker_half_open \<and> probe (brk s) \<and> \<not> releases (apcs s t)"
    if "bstate (brk (brk_advance s t (apcs s t))) = breaker_half_open" "probe (brk (brk_advance s t (apcs s t)))"
      "\<not> releases (apcs (brk_advance s t (apcs s t)) t)"
    using that by (cases "apcs s t") (auto simp: Let_def breaker_states split: if_splits)
qed

interpretation brk: inductive_invariant "brk_start thr openfor" brk_step probe_inv
proof unfold_locales
  show "probe_inv s" if "brk_start thr openfor s" for s
    using that by (simp add: brk_start_def bsys_of_def new_breaker_def probe_inv_def breaker_states)
  show "probe_inv s'" if inv: "probe_inv s" and "brk_step s s'" for s s'
    using that(2)
  proof cases
    case (call_allow t now)
    then show ?thesis using inv by (intro probe_inv_step [OF inv, of _ t]) (auto simp: probe_inv_def)
  next
    case (report_success t)
    then show ?thesis using inv by (intro probe_inv_step [OF inv, of _ t]) (auto simp: probe_inv_def)
  next
    case (report_failure t now)
    then show ?thesis using inv by (intro probe_inv_step [OF inv, of _ t]) (auto simp: probe_inv_def)
  next
    case (advance t pc)
    then show ?thesis using probe_inv_advance [OF inv, of t] by simp
  qed
qed


lemma idle_probe:
  assumes "reach (brk_start thr openfor) brk_step s" and "\<forall>u. apcs s u = AIdle"
  shows "bstate (brk s) \<in> {breaker_closed, breaker_open, breaker_half_open}"
    and "bstate (brk s) = breaker_half_open \<Longrightarrow> \<not> probe (brk s)"
  using brk.reach_inv [OF assms(1)] assms(2) by (auto simp: probe_inv_def)

lemma reach_brk_schedule:
  "reach start brk_step s \<Longrightarrow> reach start brk_step (run_schedule brk_act s acts)"
  using brk_act_step by (rule reach_run_schedule)

subsection \<open>Properties\<close>

text \<open>C20. Overlapping calls never wedge the breaker. Let any number of goroutines call \<open>Allow\<close> and
  report the outcomes of what was admitted, in any interleaving of their atomic accesses. Whenever
  no call is running and nothing admitted is unreported, the next \<open>Allow\<close> is admitted, unless
  the breaker is open and its open time is not over. (The holder of the probe must report: what
  happens otherwise is the subject of \<open>ask_degrade_loses_probe\<close>.)\<close>

theorem breaker_never_wedged:
  assumes "reach (brk_start thr openfor) brk_step s" and "\<forall>u. apcs s u = AIdle"
    and "bstate (brk s) = breaker_open \<Longrightarrow> open_for (brk s) \<le> time_sub now (opened_at (brk s))"
  shows "\<exists>b. breaker_allow now (brk s) = (b, True) \<and> alone t (ACall t now) b [(t, True)] AHeld s"
proof -
  have "snd (breaker_allow now (brk s))"
    using idle_probe [OF assms(1,2)] assms(3) by (auto simp: breaker_allow_def take_probe_def)
  then obtain b where "breaker_allow now (brk s) = (b, True)" by (metis prod.collapse)
  with allow_alone [OF _ this, of t] show ?thesis
    using assms(2) by auto
qed

text \<open>Two goroutines share the breaker; both fail, the second report finds it open already.\<close>

definition tripped :: bsys where
  "tripped = run_schedule brk_act (bsys_of (new_breaker 1 10))
     [ACall 0 5, ARun 0, ACall 1 5, ARun 1, AFails 0 6, ARun 0, AFails 1 7, ARun 1, ARun 0, ARun 0, ARun 0, ARun 1,
      ARun 0, ARun 1, ARun 1, ARun 1]"

lemma tripped_facts:
  "reach (brk_start 1 10) brk_step tripped" "\<forall>u. apcs tripped u = AIdle"
  "brk tripped = \<lparr>failures = 2, bstate = breaker_open, opened_at = 7, probe = False, threshold = 1, open_for = 10\<rparr>"
proof -
  show "reach (brk_start 1 10) brk_step tripped"
    unfolding tripped_def by (rule reach_brk_schedule) (simp add: brk_start_def reach_start)
  show "\<forall>u. apcs tripped u = AIdle"
    "brk tripped = \<lparr>failures = 2, bstate = breaker_open, opened_at = 7, probe = False, threshold = 1, open_for = 10\<rparr>"
    by (simp_all add: tripped_def bsys_of_def new_breaker_def Let_def breaker_states wrap64_def)
qed

theorem breaker_never_wedged_witness:
  "\<exists>b. breaker_allow 17 (brk tripped) = (b, True) \<and> alone 3 (ACall 3 17) b [(3, True)] AHeld tripped"
  using tripped_facts
  by (intro breaker_never_wedged) (simp_all add: time_sub_def min_i64_def max_i64_def wrap64_def)

text \<open>Under concurrency the single probe is not guaranteed. Two goroutines call \<open>Allow\<close>
  after the open time: the first wins the change to half-open but has not yet executed
  \<open>b.halfOpenProbe.Store(false)\<close>; the second finds half-open, takes the probe and returns true;
  the first then resets the probe, takes it again and returns true as well.\<close>

theorem breaker_two_probes:
  "\<exists>s. reach ((=) (bsys_of (breaker_open_at 0 (new_breaker 1 10)))) brk_step s \<and>
     answers s = [(1, True), (0, True)] \<and> bstate (brk s) = breaker_half_open"
proof -
  let ?b = "bsys_of (breaker_open_at 0 (new_breaker 1 10))"
  let ?s = "run_schedule brk_act ?b
    [ACall 0 20, ARun 0, ARun 0, ARun 0, ACall 1 20, ARun 1, ARun 1, ARun 0, ARun 0]"
  have "reach ((=) ?b) brk_step ?s"
    by (intro reach_brk_schedule reach_start) simp
  moreover have "answers ?s = [(1, True), (0, True)]" "bstate (brk ?s) = breaker_half_open"
    by (simp_all add: bsys_of_def breaker_open_at_def new_breaker_def Let_def
        breaker_states time_sub_def min_i64_def max_i64_def wrap64_def)
  ultimately show ?thesis by blast
qed

end
