(* ===== verification/RateLimit.thy ===== *)
theory RateLimit
  imports Prelude
begin

text \<open>
  \<open>actor/ratelimit.go\<close>: the token bucket. All quantities are \<open>int64\<close>; the products and sums
  that can overflow are wrapped. The clock reading \<open>time.Now().UnixNano()\<close> of a call is its
  argument \<open>now\<close>.
\<close>

subsection \<open>State and operations\<close>

record bucket =
  rate :: int
  burst :: int
  tokens :: int
  last_ns :: int

definition second :: int where "second = 1000000000"

definition new_bucket :: "int \<Rightarrow> int \<Rightarrow> int \<Rightarrow> bucket" where
  "new_bucket now qps brst =
     (let b = (if brst \<le> 0 then (if qps \<le> 0 then 1 else qps) else brst) in
      \<lparr>rate = qps, burst = b, tokens = b, last_ns = now\<rparr>)"

definition refill_amount :: "int \<Rightarrow> bucket \<Rightarrow> int" where
  "refill_amount now tb = wrap64 (wrap64 (now - last_ns tb) * rate tb) sdiv second"

definition refill :: "int \<Rightarrow> bucket \<Rightarrow> bucket" where
  "refill now tb =
     (if rate tb \<le> 0 then tb\<lparr>last_ns := now, tokens := burst tb\<rparr>
      else if now \<le> last_ns tb then tb
      else let add = refill_amount now tb in
        if add \<le> 0 then tb
        else let nxt = wrap64 (tokens tb + add)
             in tb\<lparr>last_ns := now, tokens := (if burst tb < nxt then burst tb else nxt)\<rparr>)"

definition tb_allow :: "int \<Rightarrow> int \<Rightarrow> bucket \<Rightarrow> bucket \<times> bool" where
  "tb_allow now n tb =
     (if n \<le> 0 then (tb, True)
      else let tb' = refill now tb in
        if tokens tb' < n then (tb', False)
        else (tb'\<lparr>tokens := wrap64 (tokens tb' - n)\<rparr>, True))"

definition set_qps :: "int \<Rightarrow> int \<Rightarrow> bucket \<Rightarrow> bucket" where
  "set_qps now qps tb =
     (let tb' = (refill now tb)\<lparr>rate := qps\<rparr>
      in if qps \<le> 0 then tb'\<lparr>tokens := burst tb'\<rparr> else tb')"

text \<open>\<open>Wait\<close>: the list holds the clock readings of its attempts; false says that the call has
  not returned when the list is used up.\<close>

fun tb_wait :: "int \<Rightarrow> int list \<Rightarrow> bucket \<Rightarrow> bucket \<times> bool" where
  "tb_wait n [] tb = (tb, n \<le> 0)"
| "tb_wait n (now # nows) tb =
     (if n \<le> 0 then (tb, True)
      else case tb_allow now n tb of (tb', ok) \<Rightarrow> if ok then (tb', True) else tb_wait n nows tb')"

text \<open>A history, with the number of tokens it handed out.\<close>

fun tb_run :: "(int \<times> int) list \<Rightarrow> bucket \<Rightarrow> bucket \<times> int" where
  "tb_run [] tb = (tb, 0)"
| "tb_run ((now, n) # calls) tb =
     (case tb_allow now n tb of (tb1, ok) \<Rightarrow>
      case tb_run calls tb1 of (tb2, g) \<Rightarrow> (tb2, (if ok \<and> 0 < n then n else 0) + g))"

subsection \<open>The bucket stays between empty and full\<close>

text \<open>The sum \<open>tokens + add\<close> does not overflow as long as the burst leaves room for the
  largest refill, \<open>max_i64 / 10^9\<close> tokens.\<close>

definition tb_ok :: "bucket \<Rightarrow> bool" where
  "tb_ok tb \<longleftrightarrow> 0 \<le> tokens tb \<and> tokens tb \<le> burst tb \<and> burst tb \<le> max_i64 - 9223372037"

lemma refill_amount_eq: "refill_amount now tb = wrap64 ((now - last_ns tb) * rate tb) sdiv second"
  by (simp add: refill_amount_def)

lemma refill_amount_bounds:
  assumes "0 < rate tb" and "last_ns tb < now" and "0 < refill_amount now tb"
  shows "refill_amount now tb * second \<le> (now - last_ns tb) * rate tb"
    and "refill_amount now tb \<le> 9223372036"
proof -
  let ?p = "wrap64 ((now - last_ns tb) * rate tb)"
  have s: "0 < second" by (simp add: second_def)
  have p: "0 < ?p"
    using assms(3) sdiv_gt_0 [OF s] by (simp add: refill_amount_eq)
  then have a: "refill_amount now tb = ?p div second"
    using sdiv_pos [OF s] by (simp add: refill_amount_eq)
  have "?p div second * second \<le> ?p"
    using div_mult_mod_eq [of ?p second] pos_mod_sign [OF s, of ?p] by linarith
  also have "?p \<le> (now - last_ns tb) * rate tb"
    using assms(1,2) by (intro wrap64_le) simp
  finally show "refill_amount now tb * second \<le> (now - last_ns tb) * rate tb"
    by (simp only: a)
  have "?p \<le> max_i64"
    using wrap64_in_i64 by (simp only: in_i64_def)
  then have "?p div second \<le> max_i64 div second"
    using s by (intro zdiv_mono1)
  then show "refill_amount now tb \<le> 9223372036"
    by (simp add: a max_i64_def second_def)
qed

text \<open>What \<open>refill\<close> does to a running bucket.\<close>

lemma refill_running:
  assumes "tb_ok tb" and "0 < rate tb"
  obtains "refill now tb = tb" "last_ns tb < now \<Longrightarrow> refill_amount now tb \<le> 0"
  | "refill now tb = tb\<lparr>last_ns := now, tokens := min (burst tb) (tokens tb + refill_amount now tb)\<rparr>"
    "last_ns tb < now" "0 < refill_amount now tb"
proof (cases "now \<le> last_ns tb \<or> refill_amount now tb \<le> 0")
  case True
  then show ?thesis
    using assms that(1) by (auto simp: refill_def Let_def)
next
  case False
  then have n: "last_ns tb < now" "0 < refill_amount now tb" by auto
  have "in_i64 (tokens tb + refill_amount now tb)"
    using assms(1) n(2) refill_amount_bounds(2) [OF assms(2) n]
    by (simp add: tb_ok_def in_i64_def min_i64_def max_i64_def)
  then have "refill now tb = tb\<lparr>last_ns := now, tokens := min (burst tb) (tokens tb + refill_amount now tb)\<rparr>"
    using assms(2) n by (simp add: refill_def Let_def min_def)
  then show ?thesis using that(2) n by blast
qed

lemma refill_ok:
  assumes "tb_ok tb"
  shows "tb_ok (refill now tb)" and "burst (refill now tb) = burst tb" and "rate (refill now tb) = rate tb"
proof -
  have *: "tb_ok (refill now tb) \<and> burst (refill now tb) = burst tb \<and> rate (refill now tb) = rate tb"
  proof (cases "rate tb \<le> 0")
    case True
    then show ?thesis using assms by (simp add: refill_def tb_ok_def)
  next
    case False
    then have "0 < rate tb" by simp
    with assms show ?thesis
    proof (cases rule: refill_running [where now = now])
      case 1
      then show ?thesis using assms by simp
    next
      case 2
      then show ?thesis using assms by (simp add: tb_ok_def)
    qed
  qed
  then show "tb_ok (refill now tb)" "burst (refill now tb) = burst tb" "rate (refill now tb) = rate tb"
    by auto
qed

lemma take_tokens: "tb_ok tb \<Longrightarrow> 0 < n \<Longrightarrow> n \<le> tokens tb \<Longrightarrow> wrap64 (tokens tb - n) = tokens tb - n"
  by (rule wrap64_id) (simp add: tb_ok_def in_i64_def min_i64_def max_i64_def)

lemma tb_allow_cases:
  assumes "tb_ok tb" and "tb_allow now n tb = (tb', ok)"
  obtains "n \<le> 0" "ok" "tb' = tb"
  | "0 < n" "n \<le> tokens (refill now tb)" "ok" "tb' = (refill now tb)\<lparr>tokens := tokens (refill now tb) - n\<rparr>"
  | "0 < n" "tokens (refill now tb) < n" "\<not> ok" "tb' = refill now tb"
  using assms(2) take_tokens [OF refill_ok(1) [OF assms(1)], of n now]
  by (auto simp: tb_allow_def Let_def not_less split: if_splits)

lemma tb_allow_ok:
  assumes "tb_ok tb" and "tb_allow now n tb = (tb', ok)"
  shows "tb_ok tb'" and "burst tb' = burst tb" and "rate tb' = rate tb"
proof -
  have "tb_ok tb' \<and> burst tb' = burst tb \<and> rate tb' = rate tb"
    using assms
  proof (cases rule: tb_allow_cases)
    case 2
    then show ?thesis using refill_ok [OF assms(1), of now] by (simp add: tb_ok_def)
  qed (use assms(1) refill_ok [OF assms(1), of now] in simp_all)
  then show "tb_ok tb'" "burst tb' = burst tb" "rate tb' = rate tb" by auto
qed

text \<open>Tokens are paid for by elapsed time.\<close>

lemma refill_paid:
  assumes "tb_ok tb" and "0 < rate tb"
  shows "tokens (refill now tb) * second \<le> tokens tb * second + (last_ns (refill now tb) - last_ns tb) * rate tb"
    and "last_ns (refill now tb) \<in> {last_ns tb, now}" and "last_ns tb \<le> last_ns (refill now tb)"
proof -
  have "tokens (refill now tb) * second \<le> tokens tb * second + (last_ns (refill now tb) - last_ns tb) * rate tb \<and>
    last_ns (refill now tb) \<in> {last_ns tb, now} \<and> last_ns tb \<le> last_ns (refill now tb)"
    using assms
  proof (cases rule: refill_running [where now = now])
    case 2
    have "min (burst tb) (tokens tb + refill_amount now tb) * second \<le> (tokens tb + refill_amount now tb) * second"
      by (intro mult_right_mono) (simp_all add: second_def)
    then show ?thesis
      using 2 refill_amount_bounds(1) [OF assms(2) 2(2,3)] by (simp add: distrib_right)
  qed simp
  then show "tokens (refill now tb) * second \<le> tokens tb * second + (last_ns (refill now tb) - last_ns tb) * rate tb"
    "last_ns (refill now tb) \<in> {last_ns tb, now}" "last_ns tb \<le> last_ns (refill now tb)"
    by blast+
qed

lemma tb_run_paid:
  assumes "tb_ok tb" and "0 < rate tb" and "tb_run calls tb = (tb', g)"
  shows "g * second + tokens tb' * second \<le> tokens tb * second + (last_ns tb' - last_ns tb) * rate tb \<and>
    last_ns tb' \<in> insert (last_ns tb) (fst ` set calls) \<and> tb_ok tb' \<and> burst tb' = burst tb"
  using assms
proof (induction calls arbitrary: tb g)
  case Nil
  then show ?case by simp
next
  case (Cons c calls)
  obtain now n where c: "c = (now, n)" by (cases c)
  obtain tb1 ok where a: "tb_allow now n tb = (tb1, ok)" by (cases "tb_allow now n tb")
  obtain g1 where r: "tb_run calls tb1 = (tb', g1)" "g = (if ok \<and> 0 < n then n else 0) + g1"
    using Cons.prems(3) a by (auto simp: c split: prod.splits)
  note ok1 = tb_allow_ok [OF Cons.prems(1) a]
  note ih = Cons.IH [OF ok1(1) _ r(1)]
  have "(if ok \<and> 0 < n then n else 0) * second + tokens tb1 * second \<le>
      tokens tb * second + (last_ns tb1 - last_ns tb) * rate tb \<and> last_ns tb1 \<in> {last_ns tb, now}"
    using Cons.prems(1) a
  proof (cases rule: tb_allow_cases)
    case 2
    then show ?thesis using refill_paid [OF Cons.prems(1,2), of now] by (simp add: left_diff_distrib)
  qed (use refill_paid [OF Cons.prems(1,2), of now] in simp_all)
  with ih ok1 Cons.prems(2) r(2) show ?case
    by (auto simp: c distrib_right left_diff_distrib)
qed

subsection \<open>Enough time gives enough tokens\<close>

text \<open>Without overflow, \<open>Allow\<close> decides by the tokens that are there plus those the elapsed
  time has earned, capped by the burst.\<close>

definition available :: "int \<Rightarrow> bucket \<Rightarrow> int" where
  "available now tb = min (burst tb) (tokens tb + (now - last_ns tb) * rate tb div second)"

lemma refill_exact:
  assumes "tb_ok tb" and "0 < rate tb" and "last_ns tb \<le> now" and "(now - last_ns tb) * rate tb \<le> max_i64"
  shows "refill now tb = tb\<lparr>last_ns := (if second \<le> (now - last_ns tb) * rate tb then now else last_ns tb),
    tokens := available now tb\<rparr>"
proof -
  let ?p = "(now - last_ns tb) * rate tb"
  have s: "0 < second" by (simp add: second_def)
  have "0 \<le> ?p" using assms(2,3) by simp
  then have "in_i64 ?p" using assms(4) by (simp add: in_i64_def min_i64_def)
  then have a: "refill_amount now tb = ?p div second"
    using sdiv_pos [OF s \<open>0 \<le> ?p\<close>] by (simp add: refill_amount_eq)
  have z: "?p div second \<le> 0 \<longleftrightarrow> \<not> second \<le> ?p"
    using pos_imp_zdiv_pos_iff [OF s, of ?p] by linarith
  have same: "available now tb = tokens tb" "?p div second \<ge> 0" if "?p div second \<le> 0"
    using that assms(1) s \<open>0 \<le> ?p\<close> pos_imp_zdiv_nonneg_iff [OF s, of ?p]
    by (auto simp: available_def tb_ok_def)
  show ?thesis
    using assms(1,2)
  proof (cases rule: refill_running [where now = now])
    case 1
    have "?p div second \<le> 0"
    proof (cases "last_ns tb < now")
      case True
      then show ?thesis using 1(2) a by simp
    next
      case False
      then have "now = last_ns tb" using assms(3) by simp
      then show ?thesis by simp
    qed
    then show ?thesis using 1(1) same(1) z by simp
  next
    case 2
    then show ?thesis using a z by (simp add: available_def)
  qed
qed

fun spaced :: "int \<Rightarrow> int list \<Rightarrow> bool" where
  "spaced d (x # y # xs) \<longleftrightarrow> x + d \<le> y \<and> spaced d (y # xs)"
| "spaced d _ \<longleftrightarrow> True"

lemma allow_exact:
  assumes "tb_ok tb" and "0 < rate tb" and "last_ns tb \<le> now" and "(now - last_ns tb) * rate tb \<le> max_i64"
    and "0 < n"
  shows "tb_allow now n tb = (if n \<le> available now tb
    then ((refill now tb)\<lparr>tokens := available now tb - n\<rparr>, True) else (refill now tb, False))"
proof -
  have "tokens (refill now tb) = available now tb"
    using refill_exact [OF assms(1-4)] by simp
  then show ?thesis
    using assms(5) take_tokens [OF refill_ok(1) [OF assms(1)] assms(5), of now]
    by (simp add: tb_allow_def Let_def)
qed

lemma available_ge:
  assumes "tb_ok tb" and "0 < rate tb" and "last_ns tb \<le> now" and "n \<le> burst tb"
    and "n - tokens tb \<le> (now - last_ns tb) * rate tb div second"
  shows "n \<le> available now tb"
  using assms by (simp add: available_def)

text \<open>A waiting call needs at most \<open>K\<close> attempts per token, where \<open>K\<close> sleeps of \<open>d\<close>
  nanoseconds earn one token. The credit \<open>j\<close> counts the sleeps since the last refill: \<open>K\<close> of them
  pay for the last missing token, fewer leave the bucket as it is, and a refill earns one.\<close>

lemma second_pos: "0 < second"
  by (simp add: second_def)

lemma earned_one: "second \<le> p \<Longrightarrow> 1 \<le> p div second"
  using second_pos by (simp add: pos_imp_zdiv_pos_iff int_one_le_iff_zero_less)

lemma credit_pays:
  assumes "tb_ok tb" and "0 < rate tb" and "last_ns tb \<le> t" and "n \<le> burst tb" and "0 < d" and "0 < K"
    and "second \<le> K * d * rate tb" and "j \<le> K" and "j * d \<le> t - last_ns tb" and "(n - tokens tb) * K \<le> j"
  shows "n \<le> available t tb"
proof (rule available_ge [OF assms(1-4)])
  let ?p = "(t - last_ns tb) * rate tb"
  have "(n - tokens tb) * K \<le> 1 * K" using assms(8,10) by simp
  then have "n - tokens tb \<le> 1" using assms(6) by (simp only: mult_le_cancel_right_pos)
  then consider "n - tokens tb \<le> 0" | "n - tokens tb = 1" by linarith
  then show "n - tokens tb \<le> ?p div second"
  proof cases
    case 1
    moreover have "0 \<le> ?p div second"
      using assms(2,3) second_pos by (simp add: pos_imp_zdiv_nonneg_iff)
    ultimately show ?thesis by linarith
  next
    case 2
    then have "K \<le> j" using assms(10) by simp
    then have "K * d \<le> t - last_ns tb"
      using assms(5,9) mult_right_mono [of K j d] by linarith
    then have "second \<le> ?p"
      using assms(2,7) mult_right_mono [of "K * d" "t - last_ns tb" "rate tb"] by linarith
    then show ?thesis using earned_one 2 by simp
  qed
qed

lemma credit_grows:
  assumes "tb_ok tb" and "0 < rate tb" and "last_ns tb \<le> t" and "(t - last_ns tb) * rate tb < second" and "0 < d"
    and "second \<le> K * d * rate tb" and "j * d \<le> t - last_ns tb"
  shows "refill t tb = tb" and "j < K"
proof -
  let ?p = "(t - last_ns tb) * rate tb"
  have p: "0 \<le> ?p" "?p \<le> max_i64" using assms(2-4) by (simp_all add: second_def max_i64_def)
  then have "?p div second = 0" using assms(4) by (simp add: div_pos_pos_trivial)
  then have "available t tb = tokens tb" using assms(1) by (simp add: available_def tb_ok_def)
  then show "refill t tb = tb" using refill_exact [OF assms(1-3) p(2)] assms(4) by simp
  have "j * d * rate tb \<le> ?p" using assms(2,7) by (intro mult_right_mono) simp_all
  then have "(j * d) * rate tb < (K * d) * rate tb" using assms(4,6) by linarith
  then show "j < K" using assms(2,5) by (simp only: mult_less_cancel_right_pos)
qed

lemma refill_earns:
  assumes "tb_ok tb" and "0 < rate tb" and "last_ns tb \<le> t" and "(t - last_ns tb) * rate tb \<le> max_i64"
    and "second \<le> (t - last_ns tb) * rate tb" and "\<not> n \<le> available t tb" and "n \<le> burst tb" and "0 < K"
  shows "(n - tokens (refill t tb)) * K \<le> (n - tokens tb) * K - K" and "last_ns (refill t tb) = t"
proof -
  have tok: "tokens (refill t tb) = tokens tb + (t - last_ns tb) * rate tb div second"
    and lst: "last_ns (refill t tb) = t"
    using refill_exact [OF assms(1-4)] assms(5-7) by (simp_all add: available_def)
  then show "last_ns (refill t tb) = t" by simp
  have "(n - tokens (refill t tb)) * K \<le> (n - tokens tb - 1) * K"
    using tok earned_one [OF assms(5)] assms(8) by (intro mult_right_mono) simp_all
  also have "\<dots> = (n - tokens tb) * K - K" by (simp only: left_diff_distrib mult_1)
  finally show "(n - tokens (refill t tb)) * K \<le> (n - tokens tb) * K - K" .
qed

lemma wait_returns:
  assumes "tb_ok tb" and "0 < rate tb" and "n \<le> burst tb" and "0 < n" and "0 < d"
    and "second \<le> K * d * rate tb" and "0 < K"
    and "spaced d (t # ts)" and "last_ns tb \<le> t" and "\<forall>x \<in> set (t # ts). (x - last_ns tb) * rate tb \<le> max_i64"
    and "0 \<le> j" and "j \<le> K" and "j * d \<le> t - last_ns tb" and "(n - tokens tb) * K \<le> int (length ts) + j"
  shows "snd (tb_wait n (t # ts) tb)"
  using assms
proof (induction ts arbitrary: t tb j)
  case Nil
  have "n \<le> available t tb"
    by (rule credit_pays [OF Nil.prems(1,2,9,3,5,7,6,12,13)]) (use Nil.prems(14) in simp)
  then show ?case
    using allow_exact [OF Nil.prems(1,2,9) _ Nil.prems(4)] Nil.prems(10) by simp
next
  case (Cons u ts)
  let ?tb = "refill t tb"
  have over: "(t - last_ns tb) * rate tb \<le> max_i64" using Cons.prems(10) by simp
  note al = allow_exact [OF Cons.prems(1,2,9) over Cons.prems(4)]
  have u: "t + d \<le> u" "spaced d (u # ts)" using Cons.prems(8) by simp_all
  show ?case
  proof (cases "n \<le> available t tb")
    case short: False
    have "snd (tb_wait n (u # ts) ?tb)"
    proof (cases "(t - last_ns tb) * rate tb < second")
      case True
      note grows = credit_grows [OF Cons.prems(1,2,9) True Cons.prems(5,6,13)]
      have "(j + 1) * d \<le> u - last_ns tb"
        using Cons.prems(13) u(1) by (simp add: distrib_right)
      then show ?thesis
        unfolding grows(1) using Cons.prems grows(2) u by (intro Cons.IH [where j = "j + 1"]) simp_all
    next
      case False
      then have "second \<le> (t - last_ns tb) * rate tb" by simp
      note earn = refill_earns [OF Cons.prems(1,2,9) over this short Cons.prems(3,7)]
      note ok = refill_ok [OF Cons.prems(1), of t]
      have "(x - last_ns ?tb) * rate ?tb \<le> max_i64" if x: "x \<in> set (u # ts)" for x
      proof -
        have "(x - t) * rate tb \<le> (x - last_ns tb) * rate tb"
          using Cons.prems(2,9) by (intro mult_right_mono) simp_all
        then show ?thesis using x Cons.prems(10) earn(2) ok(3) by fastforce
      qed
      moreover have "(n - tokens ?tb) * K \<le> int (length ts) + 1"
        using earn(1) Cons.prems(12,14) by simp
      ultimately show ?thesis
        using Cons.prems(2-7) u ok earn(2) by (intro Cons.IH [where j = 1]) simp_all
    qed
    then show ?thesis using al short Cons.prems(4) by simp
  qed (use al Cons.prems(4) in simp)
qed

lemma new_bucket_ok:
  assumes "in_i64 qps" and "in_i64 brst" and "max qps brst \<le> max_i64 - 9223372037"
  shows "tb_ok (new_bucket now qps brst)"
  using assms by (auto simp: new_bucket_def tb_ok_def Let_def max_i64_def)

lemma set_qps_ok: "tb_ok tb \<Longrightarrow> tb_ok (set_qps now qps tb)"
  using refill_ok [of tb now] by (simp add: set_qps_def tb_ok_def Let_def)

subsection \<open>Properties\<close>

text \<open>The limit holds. Take any sequence of \<open>Allow\<close> calls, with any amounts and any clock
  readings up to \<open>end\<close> (they may repeat, run backwards, or make the multiplication overflow):
  the tokens handed out are at most the burst plus what the rate earns from the last refill
  before the sequence to its end, and the bucket stays between empty and full.\<close>

theorem tb_rate_bound:
  assumes "tb_ok tb" and "0 < rate tb" and "tb_run calls tb = (tb', granted)"
    and "\<forall>(now, n) \<in> set calls. now \<le> final" and "last_ns tb \<le> final"
  shows "granted \<le> burst tb + (final - last_ns tb) * rate tb div second \<and> tb_ok tb'"
proof -
  have p: "granted * second + tokens tb' * second \<le> tokens tb * second + (last_ns tb' - last_ns tb) * rate tb"
    "last_ns tb' \<in> insert (last_ns tb) (fst ` set calls)" "tb_ok tb'"
    using tb_run_paid [OF assms(1,2,3)] by auto
  have s: "0 < second" by (simp add: second_def)
  have "last_ns tb' \<le> final"
    using p(2) assms(4,5) by auto
  then have "(last_ns tb' - last_ns tb) * rate tb \<le> (final - last_ns tb) * rate tb"
    using assms(2) by (intro mult_right_mono) simp_all
  moreover have "0 \<le> tokens tb' * second" "tokens tb * second \<le> burst tb * second"
    using p(3) assms(1) s by (simp_all add: tb_ok_def mult_right_mono)
  ultimately have "(granted - burst tb) * second \<le> (final - last_ns tb) * rate tb"
    using p(1) by (simp add: left_diff_distrib)
  then have "granted - burst tb \<le> (final - last_ns tb) * rate tb div second"
    using zdiv_mono1 [OF _ s, of "(granted - burst tb) * second"] s by simp
  then show ?thesis using p(3) by simp
qed

theorem tb_rate_bound_witness:
  "snd (tb_run [(0, 2), (500000000, 1), (1000000000, 1), (1000000000, 9)] (new_bucket 0 2 2)) \<le> 4"
proof -
  have r: "tb_run [(0, 2), (500000000, 1), (1000000000, 1), (1000000000, 9)] (new_bucket 0 2 2) =
      (fst (tb_run [(0, 2), (500000000, 1), (1000000000, 1), (1000000000, 9)] (new_bucket 0 2 2)),
       snd (tb_run [(0, 2), (500000000, 1), (1000000000, 1), (1000000000, 9)] (new_bucket 0 2 2)))"
    by simp
  have ok: "tb_ok (new_bucket 0 2 2)"
    by (rule new_bucket_ok) (simp_all add: in_i64_def min_i64_def max_i64_def)
  from tb_rate_bound [OF ok _ r, of 1000000000] show ?thesis
    by (simp add: new_bucket_def second_def del: tb_run.simps)
qed

text \<open>What was earned can be spent, as long as the multiplication does not overflow:
  \<open>Allow(n)\<close> succeeds exactly when \<open>n\<close> is within the tokens left plus those earned since the
  last refill, capped by the burst; then it removes \<open>n\<close> of them, otherwise none.\<close>

theorem tb_allow_spec:
  assumes "tb_ok tb" and "0 < rate tb" and "0 < n" and "last_ns tb \<le> now"
    and "(now - last_ns tb) * rate tb \<le> max_i64"
    and "avail = min (burst tb) (tokens tb + (now - last_ns tb) * rate tb div 1000000000)"
    and "tb_allow now n tb = (tb', ok)"
  shows "ok = (n \<le> avail) \<and> tokens tb' = (if ok then avail - n else avail) \<and> tb_ok tb'"
proof -
  have "available now tb = avail"
    by (simp add: available_def second_def assms(6))
  then show ?thesis
    using allow_exact [OF assms(1,2,4,5,3)] refill_exact [OF assms(1,2,4,5)] assms(7)
      tb_allow_ok(1) [OF assms(1,7)] by (auto split: if_splits)
qed

theorem tb_allow_spec_witness:
  "\<exists>tb'. tb_allow 1500000000 3 \<lparr>rate = 2, burst = 5, tokens = 0, last_ns = 0\<rparr> = (tb', True) \<and> tokens tb' = 0"
proof -
  let ?tb = "\<lparr>rate = 2, burst = 5, tokens = 0, last_ns = 0\<rparr>"
  obtain tb' ok where a: "tb_allow 1500000000 3 ?tb = (tb', ok)"
    by (cases "tb_allow 1500000000 3 ?tb")
  have "ok = (3 \<le> (3 :: int)) \<and> tokens tb' = (if ok then 3 - 3 else 3) \<and> tb_ok tb'"
    by (rule tb_allow_spec [OF _ _ _ _ _ _ a]) (simp_all add: tb_ok_def max_i64_def)
  with a show ?thesis by auto
qed



text \<open>\<open>Wait\<close> for more tokens than the burst never returns, whatever the rate (also a rate of
  zero, at which the limiter is documented to allow everything) and however long it goes
  on.\<close>

theorem tb_wait_forever:
  assumes "tb_ok tb" and "burst tb < n"
  shows "\<not> snd (tb_wait n nows tb)"
  using assms
proof (induction nows arbitrary: tb)
  case Nil
  then show ?case by (simp add: tb_ok_def)
next
  case (Cons now nows)
  obtain tb' ok where a: "tb_allow now n tb = (tb', ok)" by (cases "tb_allow now n tb")
  note ok = tb_allow_ok [OF Cons.prems(1) a]
  have "tokens (refill now tb) < n"
    using refill_ok [OF Cons.prems(1), of now] Cons.prems(2) by (simp add: tb_ok_def)
  then have "\<not> ok" "0 < n"
    using a Cons.prems by (auto simp: tb_allow_def tb_ok_def Let_def split: if_splits)
  then show ?case
    using a ok Cons.IH Cons.prems(2) by simp
qed

theorem tb_wait_forever_witness:
  "\<not> snd (tb_wait 3 [0, 200000, 400000] \<lparr>rate = 0, burst = 2, tokens = 2, last_ns = 0\<rparr>)"
  by (rule tb_wait_forever) (simp_all add: tb_ok_def max_i64_def)

text \<open>The multiplication can overflow. At 200000 tokens per second, after thirteen hours
  without a refill, \<open>elapsed * r\<close> exceeds the \<open>int64\<close> range and turns negative: \<open>Allow\<close> adds no
  token, rejects the request although 9.36 billion tokens were earned, and leaves the bucket
  as it was.\<close>

theorem tb_overflow_starves:
  "\<exists>tb. tb = \<lparr>rate = 200000, burst = 200000, tokens = 0, last_ns = 0\<rparr> \<and> tb_ok tb \<and>
     tb_allow (13 * 3600 * 1000000000) 1 tb = (tb, False) \<and>
     13 * 3600 * 1000000000 * rate tb div second = 9360000000"
  by (simp add: tb_ok_def max_i64_def tb_allow_def refill_def refill_amount_def Let_def wrap64_def second_def
      signed_divide_int_def)

end
