(* ===== verification/RateLimitConc.thy ===== *)
theory RateLimitConc
  imports RateLimit Transition
begin

text \<open>
  \<open>actor/ratelimit.go\<close> between goroutines: any number of overlapping calls of \<open>Allow\<close> and
  \<open>SetQPS\<close>, with every atomic access one step. History variables record the tokens granted, the
  rates passed to \<open>SetQPS\<close>, and the clock readings.
\<close>

subsection \<open>Steps\<close>

text \<open>What follows after \<open>refill\<close>.\<close>

datatype tcont = KAllow int | KSet int

datatype tpc =
    TIdle
  | TRate tcont int            \<comment> \<open>\<open>refill(now)\<close>: before \<open>tb.rate.Load()\<close>\<close>
  | TOff tcont int             \<comment> \<open>rate not positive: before \<open>tb.lastNS.Store(now)\<close>\<close>
  | TFull tcont                \<comment> \<open>then before \<open>tb.tokens.Store(tb.burst)\<close>\<close>
  | TLast tcont int int        \<comment> \<open>before \<open>tb.lastNS.Load()\<close>, with the rate loaded\<close>
  | TSwap tcont int int int    \<comment> \<open>before \<open>tb.lastNS.CompareAndSwap(last, now)\<close>, with the amount to add\<close>
  | TLoad tcont int            \<comment> \<open>before \<open>tb.tokens.Load()\<close> in the loop of \<open>refill\<close>\<close>
  | TAdd tcont int int         \<comment> \<open>before \<open>tb.tokens.CompareAndSwap(cur, next)\<close>\<close>
  | TCur int                   \<comment> \<open>before \<open>tb.tokens.Load()\<close> in the loop of \<open>Allow\<close>\<close>
  | TTake int int              \<comment> \<open>before \<open>tb.tokens.CompareAndSwap(cur, cur-n)\<close>\<close>
  | TSetRate int               \<comment> \<open>\<open>SetQPS\<close>: before \<open>tb.rate.Store(qps)\<close>\<close>
  | TSetFull                   \<comment> \<open>before \<open>tb.tokens.Store(tb.burst)\<close>\<close>

record tsys =
  tbk :: bucket
  tpcs :: "nat \<Rightarrow> tpc"
  granted :: int
  limits :: "int list"
  clocks :: "int list"

definition goto_tpc :: "tsys \<Rightarrow> nat \<Rightarrow> tpc \<Rightarrow> tsys" where
  "goto_tpc s t pc = s\<lparr>tpcs := (tpcs s)(t := pc)\<rparr>"

fun after_refill :: "tcont \<Rightarrow> tpc" where
  "after_refill (KAllow n) = TCur n"
| "after_refill (KSet qps) = TSetRate qps"

definition put_tokens :: "int \<Rightarrow> tsys \<Rightarrow> tsys" where
  "put_tokens x s = s\<lparr>tbk := (tbk s)\<lparr>tokens := x\<rparr>\<rparr>"

fun tb_advance :: "tsys \<Rightarrow> nat \<Rightarrow> tpc \<Rightarrow> tsys" where
  "tb_advance s t TIdle = s"
| "tb_advance s t (TRate k now) = goto_tpc s t (if rate (tbk s) \<le> 0 then TOff k now else TLast k now (rate (tbk s)))"
| "tb_advance s t (TOff k now) = goto_tpc (s\<lparr>tbk := (tbk s)\<lparr>last_ns := now\<rparr>\<rparr>) t (TFull k)"
| "tb_advance s t (TFull k) = goto_tpc (put_tokens (burst (tbk s)) s) t (after_refill k)"
| "tb_advance s t (TLast k now r) =
     (let lst = last_ns (tbk s); elapsed = wrap64 (now - lst); add = wrap64 (elapsed * r) sdiv second in
      goto_tpc s t (if now \<le> lst \<or> add \<le> 0 then after_refill k else TSwap k now lst add))"
| "tb_advance s t (TSwap k now lst add) =
     (if last_ns (tbk s) = lst then goto_tpc (s\<lparr>tbk := (tbk s)\<lparr>last_ns := now\<rparr>\<rparr>) t (TLoad k add)
      else goto_tpc s t (after_refill k))"
| "tb_advance s t (TLoad k add) = goto_tpc s t (TAdd k add (tokens (tbk s)))"
| "tb_advance s t (TAdd k add cur) =
     (let nxt = wrap64 (cur + add); nxt' = (if burst (tbk s) < nxt then burst (tbk s) else nxt) in
      if tokens (tbk s) = cur then goto_tpc (put_tokens nxt' s) t (after_refill k) else goto_tpc s t (TLoad k add))"
| "tb_advance s t (TCur n) = goto_tpc s t (if tokens (tbk s) < n then TIdle else TTake n (tokens (tbk s)))"
| "tb_advance s t (TTake n cur) =
     (if tokens (tbk s) = cur then goto_tpc ((put_tokens (wrap64 (cur - n)) s)\<lparr>granted := granted s + n\<rparr>) t TIdle
      else goto_tpc s t (TCur n))"
| "tb_advance s t (TSetRate qps) =
     goto_tpc (s\<lparr>tbk := (tbk s)\<lparr>rate := qps\<rparr>\<rparr>) t (if qps \<le> 0 then TSetFull else TIdle)"
| "tb_advance s t TSetFull = goto_tpc (put_tokens (burst (tbk s)) s) t TIdle"

text \<open>\<open>Allow(n)\<close> with \<open>n \<le> 0\<close> returns true at once. Both calls read the clock first.\<close>

inductive tb_step :: "tsys \<Rightarrow> tsys \<Rightarrow> bool" where
  call_allow: "tpcs s t = TIdle \<Longrightarrow> 0 < n \<Longrightarrow>
    tb_step s (goto_tpc (s\<lparr>clocks := clocks s @ [now]\<rparr>) t (TRate (KAllow n) now))"
| call_set_qps: "tpcs s t = TIdle \<Longrightarrow>
    tb_step s (goto_tpc (s\<lparr>clocks := clocks s @ [now], limits := limits s @ [qps]\<rparr>) t (TRate (KSet qps) now))"
| advance: "tpcs s t = pc \<Longrightarrow> tb_step s (tb_advance s t pc)"

definition tsys_of :: "bucket \<Rightarrow> tsys" where
  "tsys_of b = \<lparr>tbk = b, tpcs = \<lambda>_. TIdle, granted = 0, limits = [rate b], clocks = []\<rparr>"

definition tb_start :: "int \<Rightarrow> int \<Rightarrow> int \<Rightarrow> tsys \<Rightarrow> bool" where
  "tb_start now qps brst s \<longleftrightarrow> s = tsys_of (new_bucket now qps brst)"

datatype tact = TAllow nat int int | TSet nat int int | TRun nat

fun tb_act :: "tsys \<Rightarrow> tact \<Rightarrow> tsys" where
  "tb_act s (TAllow t now n) =
     (if tpcs s t = TIdle \<and> 0 < n then goto_tpc (s\<lparr>clocks := clocks s @ [now]\<rparr>) t (TRate (KAllow n) now) else s)"
| "tb_act s (TSet t now qps) =
     (if tpcs s t = TIdle
      then goto_tpc (s\<lparr>clocks := clocks s @ [now], limits := limits s @ [qps]\<rparr>) t (TRate (KSet qps) now) else s)"
| "tb_act s (TRun t) = tb_advance s t (tpcs s t)"

lemma tb_act_step: "tb_act s a = s \<or> tb_step s (tb_act s a)"
  by (cases a) (auto intro: tb_step.intros)

lemma goto_tpc_simps [simp]:
  "tbk (goto_tpc s t pc) = tbk s" "tpcs (goto_tpc s t pc) = (tpcs s)(t := pc)" "granted (goto_tpc s t pc) = granted s"
  "limits (goto_tpc s t pc) = limits s" "clocks (goto_tpc s t pc) = clocks s"
  by (simp_all add: goto_tpc_def)

lemma put_tokens_simps [simp]:
  "tbk (put_tokens x s) = (tbk s)\<lparr>tokens := x\<rparr>" "tpcs (put_tokens x s) = tpcs s" "granted (put_tokens x s) = granted s"
  "limits (put_tokens x s) = limits s" "clocks (put_tokens x s) = clocks s"
  by (simp_all add: put_tokens_def)

subsection \<open>Every token is paid for by time, exactly once\<close>

text \<open>What a goroutine has earned by moving \<open>lastNS\<close> and not yet put into the bucket.\<close>

fun owes :: "tpc \<Rightarrow> int" where
  "owes (TLoad k add) = add"
| "owes (TAdd k add cur) = add"
| "owes _ = 0"

definition calling :: "tsys \<Rightarrow> nat set" where
  "calling s = {t. tpcs s t \<noteq> TIdle}"

definition owed :: "tsys \<Rightarrow> int" where
  "owed s = (\<Sum>t \<in> calling s. owes (tpcs s t))"

fun cont_ok :: "int list \<Rightarrow> tcont \<Rightarrow> bool" where
  "cont_ok ls (KAllow n) = (0 < n)"
| "cont_ok ls (KSet q) = (q \<in> set ls)"

fun tpc_ok :: "int \<Rightarrow> int list \<Rightarrow> int list \<Rightarrow> tpc \<Rightarrow> bool" where
  "tpc_ok R ls cs (TRate k now) = (now \<in> set cs \<and> cont_ok ls k)"
| "tpc_ok R ls cs (TLast k now r) = (now \<in> set cs \<and> r \<in> set ls \<and> cont_ok ls k)"
| "tpc_ok R ls cs (TSwap k now lst add) =
     (now \<in> set cs \<and> lst < now \<and> 0 < add \<and> add \<le> 9223372036 \<and> add * second \<le> (now - lst) * R \<and> cont_ok ls k)"
| "tpc_ok R ls cs (TLoad k add) = (0 < add \<and> add \<le> 9223372036 \<and> cont_ok ls k)"
| "tpc_ok R ls cs (TAdd k add cur) = (0 < add \<and> add \<le> 9223372036 \<and> cont_ok ls k)"
| "tpc_ok R ls cs (TCur n) = (0 < n)"
| "tpc_ok R ls cs (TTake n cur) = (0 < n \<and> n \<le> cur)"
| "tpc_ok R ls cs (TSetRate q) = (q \<in> set ls)"
| "tpc_ok R ls cs TIdle = True"
| "tpc_ok R ls cs _ = False"

lemma after_refill_ok [simp]: "tpc_ok R ls cs (after_refill k) = cont_ok ls k" "owes (after_refill k) = 0"
  by (cases k; simp)+

lemma tpc_ok_mono:
  assumes "tpc_ok R ls cs pc" and "set ls \<subseteq> set ls'" and "set cs \<subseteq> set cs'"
  shows "tpc_ok R ls' cs' pc"
proof -
  have "cont_ok ls' k" if "cont_ok ls k" for k
    using that assms(2) by (cases k) auto
  then show ?thesis using assms by (cases pc) auto
qed

definition small_rates :: "int \<Rightarrow> tsys \<Rightarrow> bool" where
  "small_rates R s \<longleftrightarrow> (\<forall>r \<in> set (limits s). 0 < r \<and> r \<le> R)"

definition tb_inv :: "int \<Rightarrow> bucket \<Rightarrow> tsys \<Rightarrow> bool" where
  "tb_inv R b s \<longleftrightarrow> tb_ok (tbk s) \<and> burst (tbk s) = burst b \<and> rate (tbk s) \<in> set (limits s) \<and>
     last_ns (tbk s) \<in> insert (last_ns b) (set (clocks s)) \<and> finite (calling s) \<and>
     (\<forall>t. tpc_ok R (limits s) (clocks s) (tpcs s t)) \<and>
     (granted s + tokens (tbk s) + owed s) * second \<le> burst b * second + (last_ns (tbk s) - last_ns b) * R"

lemma tb_inv_step:
  assumes inv: "tb_inv R b s"
    and "tb_ok (tbk s')" and "burst (tbk s') = burst (tbk s)" and "rate (tbk s') \<in> set (limits s')"
    and "last_ns (tbk s') \<in> insert (last_ns (tbk s)) (set (clocks s'))"
    and mono: "set (limits s) \<subseteq> set (limits s')" "set (clocks s) \<subseteq> set (clocks s')"
    and pcs: "\<And>u. u \<noteq> t \<Longrightarrow> tpcs s' u = tpcs s u" "tpc_ok R (limits s') (clocks s') (tpcs s' t)"
    and paid: "(granted s' + tokens (tbk s') + owes (tpcs s' t)) * second \<le>
      (granted s + tokens (tbk s) + owes (tpcs s t)) * second + (last_ns (tbk s') - last_ns (tbk s)) * R"
  shows "tb_inv R b s'"
proof -
  have fin: "finite (calling s)" using inv by (simp add: tb_inv_def)
  have o: "owed s' + owes (tpcs s t) = owed s + owes (tpcs s' t)" "finite (calling s')"
    using active_change [OF fin, where t = t and B = "calling s'" and f = "\<lambda>u. owes (tpcs s u)" and g = "\<lambda>u. owes (tpcs s' u)"] pcs(1)
    by (auto simp: owed_def calling_def)
  have "tpc_ok R (limits s') (clocks s') (tpcs s' u)" for u
    using inv pcs tpc_ok_mono [OF _ mono] by (cases "u = t") (auto simp: tb_inv_def)
  moreover have "(granted s' + tokens (tbk s') + owed s') * second \<le> burst b * second + (last_ns (tbk s') - last_ns b) * R"
  proof -
    have "owed s' = owed s + owes (tpcs s' t) - owes (tpcs s t)" using o(1) by simp
    then have "(granted s' + tokens (tbk s') + owed s') * second =
        (granted s' + tokens (tbk s') + owes (tpcs s' t)) * second + (owed s - owes (tpcs s t)) * second"
      by (simp only: distrib_right left_diff_distrib)
    then show ?thesis using inv paid by (simp add: tb_inv_def algebra_simps)
  qed
  ultimately show ?thesis
    using inv assms(2-5) mono o(2) by (auto simp: tb_inv_def)
qed

text \<open>The amount computed in \<open>refill\<close>.\<close>

lemma refill_share:
  assumes "0 < r" and "r \<le> R" and "lst < now" and "0 < wrap64 (wrap64 (now - lst) * r) sdiv second"
  shows "wrap64 (wrap64 (now - lst) * r) sdiv second * second \<le> (now - lst) * R"
    and "wrap64 (wrap64 (now - lst) * r) sdiv second \<le> 9223372036"
proof -
  let ?b = "\<lparr>rate = r, burst = 0, tokens = 0, last_ns = lst\<rparr>"
  have *: "refill_amount now ?b = wrap64 (wrap64 (now - lst) * r) sdiv second" by (simp add: refill_amount_def)
  note a = refill_amount_bounds [of ?b now, unfolded *]
  have "wrap64 (wrap64 (now - lst) * r) sdiv second * second \<le> (now - lst) * r" using a(1) assms by simp
  also have "\<dots> \<le> (now - lst) * R" using assms(2,3) by (intro mult_left_mono) simp_all
  finally show "wrap64 (wrap64 (now - lst) * r) sdiv second * second \<le> (now - lst) * R" .
  show "wrap64 (wrap64 (now - lst) * r) sdiv second \<le> 9223372036" using a(2) assms by simp
qed

lemma tb_inv_advance:
  assumes inv: "tb_inv R b s" and small: "small_rates R s"
  shows "tb_inv R b (tb_advance s t (tpcs s t))"
proof -
  have ok: "tb_ok (tbk s)" and rt: "rate (tbk s) \<in> set (limits s)" and pc: "tpc_ok R (limits s) (clocks s) (tpcs s t)"
    using inv by (simp_all add: tb_inv_def)
  then have pos: "0 < rate (tbk s)" using small by (simp add: small_rates_def)
  have step: "tb_inv R b s'" if "s' = tb_advance s t (tpcs s t)" "tb_ok (tbk s')" "burst (tbk s') = burst (tbk s)"
      "rate (tbk s') \<in> set (limits s)" "last_ns (tbk s') \<in> insert (last_ns (tbk s)) (set (clocks s))"
      "limits s' = limits s" "clocks s' = clocks s" "tpc_ok R (limits s) (clocks s) pc'"
      "(granted s' + tokens (tbk s') + owes pc') * second \<le>
        (granted s + tokens (tbk s) + owes (tpcs s t)) * second + (last_ns (tbk s') - last_ns (tbk s)) * R"
      "tpcs s' = (tpcs s)(t := pc')" for s' pc'
    using that by (intro tb_inv_step [OF inv, of s' t]) simp_all
  show ?thesis
  proof (cases "tpcs s t")
    case TIdle
    then show ?thesis using inv by simp
  next
    case (TRate k now)
    then show ?thesis using ok rt pc pos by (intro step [OF refl]) simp_all
  next
    case (TLast k now r)
    then have r: "0 < r" "r \<le> R" using pc small by (simp_all add: small_rates_def)
    note share = refill_share [OF r, of "last_ns (tbk s)" now]
    let ?add = "wrap64 (wrap64 (now - last_ns (tbk s)) * r) sdiv second"
    show ?thesis
    proof (cases "now \<le> last_ns (tbk s) \<or> ?add \<le> 0")
      case True
      then have "tb_advance s t (tpcs s t) = goto_tpc s t (after_refill k)" using TLast by (auto simp: Let_def)
      then show ?thesis using TLast ok rt pc
        by (intro step [OF refl]) (simp_all del: tb_advance.simps)
    next
      case False
      then have "tb_advance s t (tpcs s t) = goto_tpc s t (TSwap k now (last_ns (tbk s)) ?add)"
        using TLast by (simp add: Let_def)
      then show ?thesis using False TLast ok rt pc share
        by (intro step [OF refl, where pc' = "TSwap k now (last_ns (tbk s)) ?add"]) (simp_all del: tb_advance.simps)
    qed
  next
    case (TSwap k now lst add)
    show ?thesis
    proof (cases "last_ns (tbk s) = lst")
      case True
      then show ?thesis using TSwap ok rt pc
        by (intro step [OF refl]) (simp_all add: tb_ok_def algebra_simps)
    next
      case False
      then show ?thesis using TSwap ok rt pc by (intro step [OF refl]) simp_all
    qed
  next
    case (TLoad k add)
    then show ?thesis using ok rt pc by (intro step [OF refl]) simp_all
  next
    case (TAdd k add cur)
    show ?thesis
    proof (cases "tokens (tbk s) = cur")
      case True
      have add: "0 < add" "add \<le> 9223372036" using pc TAdd by simp_all
      then have w: "wrap64 (cur + add) = cur + add"
        using ok True by (intro wrap64_id) (simp add: tb_ok_def in_i64_def min_i64_def max_i64_def)
      show ?thesis using TAdd True ok rt pc add w
        by (intro step [OF refl]) (auto simp: tb_ok_def Let_def second_def)
    next
      case False
      then show ?thesis using TAdd ok rt pc by (intro step [OF refl]) (simp_all add: Let_def)
    qed
  next
    case (TCur n)
    then show ?thesis using ok rt pc by (intro step [OF refl]) simp_all
  next
    case (TTake n cur)
    show ?thesis
    proof (cases "tokens (tbk s) = cur")
      case True
      then have n: "0 < n" "n \<le> tokens (tbk s)" using pc TTake by simp_all
      then show ?thesis using TTake True ok rt take_tokens [OF ok n]
        by (intro step [OF refl]) (simp_all add: tb_ok_def)
    next
      case False
      then show ?thesis using TTake ok rt pc by (intro step [OF refl]) simp_all
    qed
  next
    case (TSetRate qps)
    then have "0 < qps" using pc small by (simp add: small_rates_def)
    then show ?thesis using TSetRate ok rt pc by (intro step [OF refl]) (simp_all add: tb_ok_def)
  qed (use pc in simp_all)
qed

interpretation tbs: bounded_invariant "\<lambda>s. tb_ok b \<and> s = tsys_of b" tb_step "tb_inv R b" "small_rates R"
proof unfold_locales
  show "tb_inv R b s" if "tb_ok b \<and> s = tsys_of b" "small_rates R s" for s
    using that by (simp add: tb_inv_def tsys_of_def owed_def calling_def tb_ok_def mult_right_mono second_def)
  show "tb_inv R b s'" if inv: "tb_inv R b s" and "tb_step s s'" and small: "small_rates R s'" for s s'
    using that(2)
  proof cases
    case (call_allow t n now)
    then show ?thesis using inv by (intro tb_inv_step [OF inv, of s' t]) (auto simp: tb_inv_def)
  next
    case (call_set_qps t now qps)
    then show ?thesis using inv by (intro tb_inv_step [OF inv, of s' t]) (auto simp: tb_inv_def)
  next
    case (advance t pc)
    have "limits (tb_advance s t pc) = limits s" by (cases pc) (simp_all add: Let_def)
    then have "small_rates R s" using small advance(1) by (simp add: small_rates_def)
    then show ?thesis using tb_inv_advance [OF inv, of t] advance by simp
  qed
  show "small_rates R s" if "tb_step s s'" "small_rates R s'" for s s'
    using that(1)
  proof cases
    case (advance t pc)
    have "limits (tb_advance s t pc) = limits s" by (cases pc) (simp_all add: Let_def)
    then show ?thesis using that(2) advance(1) by (simp add: small_rates_def)
  qed (use that(2) in \<open>simp_all add: small_rates_def\<close>)
qed

lemma owed_nonneg: "tb_inv R b s \<Longrightarrow> 0 \<le> owed s"
proof -
  assume "tb_inv R b s"
  then have "0 \<le> owes (tpcs s t)" for t
    using tpc_ok.simps by (cases "tpcs s t") (auto simp: tb_inv_def dest: spec [of _ t])
  then show ?thesis by (simp add: owed_def sum_nonneg)
qed

subsection \<open>A goroutine alone\<close>

text \<open>A call of \<open>Allow\<close> that nobody overlaps takes at most seven steps and is the sequential one.\<close>

lemma tsys_eqI:
  "tbk s = tbk s' \<Longrightarrow> tpcs s = tpcs s' \<Longrightarrow> granted s = granted s' \<Longrightarrow> limits s = limits s' \<Longrightarrow> clocks s = clocks s' \<Longrightarrow>
    s = (s' :: tsys)"
  by (cases s; cases s') simp

lemma run_schedule_append: "run_schedule f s (xs @ ys) = run_schedule f (run_schedule f s xs) ys"
  by (induction xs arbitrary: s) simp_all

definition runs :: "nat \<Rightarrow> nat \<Rightarrow> tsys \<Rightarrow> tsys \<Rightarrow> bool" where
  "runs m t s s' \<longleftrightarrow> (\<exists>n \<le> m. run_schedule tb_act s (replicate n (TRun t)) = s')"

lemma refill_alone:
  assumes "tpcs s t = TRate k now"
  shows "runs 5 t s (goto_tpc (s\<lparr>tbk := refill now (tbk s)\<rparr>) t (after_refill k))"
proof -
  let ?s = "goto_tpc (s\<lparr>tbk := refill now (tbk s)\<rparr>) t (after_refill k)" and ?b = "tbk s"
  have idle: "?s = goto_tpc s t (after_refill k)" if "refill now ?b = ?b" using that by (intro tsys_eqI) simp_all
  consider "rate ?b \<le> 0" | "0 < rate ?b" "now \<le> last_ns ?b \<or> refill_amount now ?b \<le> 0"
    | "0 < rate ?b" "last_ns ?b < now" "0 < refill_amount now ?b" by linarith
  then have "\<exists>n \<le> 5. run_schedule tb_act s (replicate n (TRun t)) = ?s"
  proof cases
    case 1
    then show ?thesis using assms
      by (intro exI [of _ 3]) (auto simp: numeral_eq_Suc refill_def intro!: tsys_eqI)
  next
    case 2
    then have "refill now ?b = ?b" by (auto simp: refill_def Let_def)
    then show ?thesis using assms 2 unfolding refill_amount_def
      by (intro exI [of _ 2]) (auto simp: numeral_eq_Suc Let_def intro!: tsys_eqI)
  next
    case 3
    then have "refill now ?b = ?b\<lparr>last_ns := now, tokens := (let nxt = wrap64 (tokens ?b + refill_amount now ?b) in
        if burst ?b < nxt then burst ?b else nxt)\<rparr>" by (simp add: refill_def Let_def)
    then show ?thesis using assms 3 unfolding refill_amount_def
      by (intro exI [of _ 5]) (auto simp: numeral_eq_Suc Let_def intro!: tsys_eqI)
  qed
  then show ?thesis by (simp add: runs_def)
qed

lemma runs_trans: "runs m t s s1 \<Longrightarrow> runs k t s1 s2 \<Longrightarrow> runs (m + k) t s s2"
  unfolding runs_def by (metis add_mono replicate_add run_schedule_append)

lemma tb_allow_alone:
  assumes "tpcs s t = TIdle" and "0 < n" and "tb_allow now n (tbk s) = (b, ok)"
  shows "runs 7 t (tb_act s (TAllow t now n))
    (s\<lparr>tbk := b, granted := granted s + (if ok then n else 0), clocks := clocks s @ [now]\<rparr>)"
proof -
  let ?s = "tb_act s (TAllow t now n)" and ?b = "refill now (tbk s)"
  let ?s1 = "goto_tpc (?s\<lparr>tbk := ?b\<rparr>) t (TCur n)"
  have s: "tpcs ?s t = TRate (KAllow n) now" "tbk ?s = tbk s" using assms(1,2) by simp_all
  have "runs 5 t ?s ?s1" using refill_alone [OF s(1)] unfolding s(2) by simp
  moreover have "runs 2 t ?s1 (s\<lparr>tbk := b, granted := granted s + (if ok then n else 0), clocks := clocks s @ [now]\<rparr>)"
  proof (cases "tokens ?b < n")
    case True
    then have "b = ?b" "\<not> ok" using assms(2,3) by (auto simp: tb_allow_def Let_def)
    then show ?thesis using True assms(1,2) unfolding runs_def
      by (intro exI [of _ 1]) (auto intro!: tsys_eqI)
  next
    case False
    then have "b = ?b\<lparr>tokens := wrap64 (tokens ?b - n)\<rparr>" "ok" using assms(2,3) by (auto simp: tb_allow_def Let_def)
    then show ?thesis using False assms(1,2) unfolding runs_def
      by (intro exI [of _ 2]) (auto simp: numeral_2_eq_2 intro!: tsys_eqI)
  qed
  ultimately show ?thesis using runs_trans by fastforce
qed

lemma set_qps_alone:
  assumes "tpcs s t = TIdle"
  shows "runs 7 t (tb_act s (TSet t now qps))
    (s\<lparr>tbk := set_qps now qps (tbk s), limits := limits s @ [qps], clocks := clocks s @ [now]\<rparr>)"
proof -
  let ?s = "tb_act s (TSet t now qps)" and ?b = "refill now (tbk s)"
  let ?s1 = "goto_tpc (?s\<lparr>tbk := ?b\<rparr>) t (TSetRate qps)"
  have s: "tpcs ?s t = TRate (KSet qps) now" "tbk ?s = tbk s" using assms by simp_all
  have "runs 5 t ?s ?s1" using refill_alone [OF s(1)] unfolding s(2) by simp
  moreover have "runs 2 t ?s1 (s\<lparr>tbk := set_qps now qps (tbk s), limits := limits s @ [qps], clocks := clocks s @ [now]\<rparr>)"
    using assms unfolding runs_def
    by (intro exI [of _ "if qps \<le> 0 then 2 else 1"])
      (auto simp: numeral_2_eq_2 set_qps_def Let_def intro!: tsys_eqI)
  ultimately show ?thesis using runs_trans by fastforce
qed

subsection \<open>Properties\<close>

text \<open>C24. The limit holds between goroutines. Let any number of goroutines call \<open>Allow\<close> with any
  amounts, and \<open>SetQPS\<close> with rates between 1 and \<open>R\<close>, in any interleaving of their atomic
  accesses; their clock readings may come in any order, run backwards, or make the
  multiplication overflow. At every moment the tokens granted so far are at most the burst plus
  what the rate \<open>R\<close> earns from the creation of the bucket to the latest clock reading: each
  interval of time is turned into tokens by one goroutine only. The bucket is never overfull and
  never negative.\<close>

theorem tb_concurrent_bound:
  assumes "reach (tb_start start qps brst) tb_step s" and "tb_ok (new_bucket start qps brst)"
    and "\<forall>r \<in> set (limits s). 0 < r \<and> r \<le> R" and "\<forall>now \<in> set (clocks s). now \<le> final" and "start \<le> final"
  shows "granted s \<le> burst (tbk s) + (final - start) * R div second \<and> 0 \<le> tokens (tbk s) \<and>
    tokens (tbk s) \<le> burst (tbk s) \<and> burst (tbk s) = burst (new_bucket start qps brst)"
proof -
  let ?b = "new_bucket start qps brst"
  have "reach (\<lambda>s. tb_ok ?b \<and> s = tsys_of ?b) tb_step s"
    using assms(1,2) by (auto simp: tb_start_def elim!: reach_weaken)
  then have inv: "tb_inv R ?b s"
    using tbs.reach_small assms(3) by (simp add: small_rates_def)
  have l: "last_ns ?b = start" by (simp add: new_bucket_def Let_def)
  have "last_ns (tbk s) \<le> final" "rate (tbk s) \<in> set (limits s)"
    using inv assms(4,5) l by (auto simp: tb_inv_def)
  then have "(last_ns (tbk s) - start) * R \<le> (final - start) * R"
    using assms(3) by (intro mult_right_mono) fastforce+
  moreover have "granted s * second \<le> (granted s + tokens (tbk s) + owed s) * second"
    using inv owed_nonneg [OF inv] by (intro mult_right_mono) (simp_all add: tb_inv_def tb_ok_def second_def)
  ultimately have "granted s * second \<le> burst ?b * second + (final - start) * R"
    using inv l by (simp add: tb_inv_def)
  then have "(granted s - burst ?b) * second \<le> (final - start) * R"
    by (simp add: left_diff_distrib)
  then have "granted s - burst ?b \<le> (final - start) * R div second"
    using zdiv_mono1 [of "(granted s - burst ?b) * second" _ second] by (simp add: second_def)
  then show ?thesis using inv by (simp add: tb_inv_def tb_ok_def)
qed

text \<open>One goroutine empties the bucket; a second later two others race for what that second has
  earned. One of them moves \<open>lastNS\<close>, the other finds nothing to refill.\<close>

definition rivals :: tsys where
  "rivals = run_schedule tb_act (tsys_of (new_bucket 0 2 2))
     ([TAllow 2 0 2] @ replicate 4 (TRun 2) @ [TAllow 0 1000000000 2, TAllow 1 1000000000 2] @
      concat (replicate 3 [TRun 0, TRun 1]) @ replicate 5 (TRun 0) @ replicate 2 (TRun 1))"

lemma reach_tb_schedule: "reach start tb_step s \<Longrightarrow> reach start tb_step (run_schedule tb_act s acts)"
  using tb_act_step by (rule reach_run_schedule)

lemma rivals_facts:
  "reach (tb_start 0 2 2) tb_step rivals" "granted rivals = 4" "limits rivals = [2]"
  "clocks rivals = [0, 1000000000, 1000000000]" "burst (tbk rivals) = 2"
proof -
  have "reach (tb_start 0 2 2) tb_step (tsys_of (new_bucket 0 2 2))"
    by (rule reach_start) (simp add: tb_start_def)
  then show "reach (tb_start 0 2 2) tb_step rivals"
    unfolding rivals_def by (intro reach_tb_schedule)
  show "granted rivals = 4" "limits rivals = [2]" "clocks rivals = [0, 1000000000, 1000000000]" "burst (tbk rivals) = 2"
    by code_simp+
qed

theorem tb_concurrent_bound_witness:
  "granted rivals = 4 \<and> granted rivals \<le> 2 + (1000000000 - 0) * 2 div second"
proof -
  have ok: "tb_ok (new_bucket 0 2 2)"
    by (rule new_bucket_ok) (simp_all add: in_i64_def min_i64_def max_i64_def)
  show ?thesis
    using tb_concurrent_bound [OF rivals_facts(1) ok, of 2 1000000000] by (simp add: rivals_facts)
qed

end
