(* ===== verification/RemoteConc.thy ===== *)
theory RemoteConc
  imports Transition
begin

text \<open>
  The transport of \<open>actor/remote.go\<close> between goroutines: \<open>EnableRemote\<close>, \<open>StopRemote\<close> and the part of
  \<open>remoteDeliver\<close> that gets a connection. Nothing guards the field \<open>System.remote\<close>, so each of its
  reads and writes is one step; the table of connections is guarded by the mutex of its
  transport. Transports and client connections are numbered in the order they are made.
  Dialling and listening may fail, which is part of the step.
\<close>

subsection \<open>Steps\<close>

datatype remote_pc =
    TIdle
  | DFirst string          \<comment> \<open>\<open>remoteDeliver\<close>: before \<open>if s.remote == nil\<close>\<close>
  | DSecond string         \<comment> \<open>before the read of \<open>s.remote\<close> in \<open>s.remote.conn(addr)\<close>\<close>
  | DConn nat string       \<comment> \<open>\<open>conn\<close> of this transport: before \<open>rt.mu.Lock()\<close>\<close>
  | DCall nat string nat   \<comment> \<open>has its connection, before \<open>Invoke\<close> returns\<close>
  | EFirst                 \<comment> \<open>\<open>EnableRemote\<close>: before \<open>if s.remote != nil\<close>\<close>
  | EListen                \<comment> \<open>before \<open>net.Listen\<close> and the making of the transport\<close>
  | ESet nat               \<comment> \<open>before \<open>s.remote = rt\<close> and the start of the server\<close>
  | SFirst                 \<comment> \<open>\<open>StopRemote\<close>: before \<open>if s.remote == nil\<close>\<close>
  | SServer                \<comment> \<open>before \<open>s.remote.server.Stop()\<close>\<close>
  | SListener              \<comment> \<open>before \<open>s.remote.lis.Close()\<close>\<close>
  | SMutex                 \<comment> \<open>before the read of \<open>s.remote\<close> in \<open>s.remote.mu.Lock()\<close>\<close>
  | SLock nat              \<comment> \<open>waits for the mutex of this transport\<close>
  | SRange                 \<comment> \<open>before the loop over \<open>s.remote.conns\<close>\<close>
  | SClear                 \<comment> \<open>before \<open>s.remote.conns = nil\<close>\<close>
  | SUnlock                \<comment> \<open>before \<open>s.remote.mu.Unlock()\<close>\<close>
  | SNil                   \<comment> \<open>before \<open>s.remote = nil\<close>\<close>

text \<open>\<open>conns\<close> is \<open>None\<close> for a \<open>nil\<close> map. \<open>stops\<close> counts the calls of \<open>StopRemote\<close>.\<close>

record transport_sys =
  remote_ptr :: "nat option"
  made :: nat
  conns :: "nat \<Rightarrow> (string \<rightharpoonup> nat) option"
  locked :: "nat set"
  serving :: "nat set"
  dialled :: nat
  hung_up :: "nat set"
  panicked :: bool
  stops :: nat
  remote_pcs :: "nat \<Rightarrow> remote_pc"

definition goto_remote :: "transport_sys \<Rightarrow> nat \<Rightarrow> remote_pc \<Rightarrow> transport_sys" where
  "goto_remote s t pc = s\<lparr>remote_pcs := (remote_pcs s)(t := pc)\<rparr>"

text \<open>A use of \<open>s.remote\<close> that is \<open>nil\<close> panics. So does, below, the unlocking of a mutex that is free.\<close>

definition with_remote :: "transport_sys \<Rightarrow> nat \<Rightarrow> (nat \<Rightarrow> transport_sys) \<Rightarrow> transport_sys" where
  "with_remote s t k = (case remote_ptr s of None \<Rightarrow> goto_remote (s\<lparr>panicked := True\<rparr>) t TIdle | Some r \<Rightarrow> k r)"

text \<open>The body of \<open>conn\<close>, under the mutex. A write to a \<open>nil\<close> map panics; a read does not.\<close>

definition pool_conn :: "bool \<Rightarrow> transport_sys \<Rightarrow> nat \<Rightarrow> nat \<Rightarrow> string \<Rightarrow> transport_sys" where
  "pool_conn dial_ok s t r addr =
     (case conns s r of
        None \<Rightarrow> if dial_ok then goto_remote (s\<lparr>dialled := dialled s + 1, panicked := True\<rparr>) t TIdle else goto_remote s t TIdle
      | Some m \<Rightarrow>
          (case m addr of
             Some c \<Rightarrow> goto_remote s t (DCall r addr c)
           | None \<Rightarrow>
               if dial_ok
               then goto_remote (s\<lparr>dialled := dialled s + 1, conns := (conns s)(r \<mapsto> m(addr \<mapsto> dialled s))\<rparr>) t
                      (DCall r addr (dialled s))
               else goto_remote s t TIdle))"

definition table_of :: "transport_sys \<Rightarrow> nat \<Rightarrow> (string \<rightharpoonup> nat)" where
  "table_of s r = (case conns s r of None \<Rightarrow> Map.empty | Some m \<Rightarrow> m)"

text \<open>One step of goroutine \<open>t\<close> in each of the calls; \<open>ok\<close> is the outcome of a dial or a listen in it.\<close>

fun deliver_advance :: "bool \<Rightarrow> transport_sys \<Rightarrow> nat \<Rightarrow> remote_pc \<Rightarrow> transport_sys" where
  "deliver_advance ok s t (DFirst addr) = goto_remote s t (if remote_ptr s = None then TIdle else DSecond addr)"
| "deliver_advance ok s t (DSecond addr) = with_remote s t (\<lambda>r. goto_remote s t (DConn r addr))"
| "deliver_advance ok s t (DConn r addr) = (if r \<in> locked s then s else pool_conn ok s t r addr)"
| "deliver_advance ok s t (DCall r addr c) = goto_remote s t TIdle"
| "deliver_advance ok s t _ = s"

fun enable_advance :: "bool \<Rightarrow> transport_sys \<Rightarrow> nat \<Rightarrow> remote_pc \<Rightarrow> transport_sys" where
  "enable_advance ok s t EFirst = goto_remote s t (if remote_ptr s \<noteq> None then TIdle else EListen)"
| "enable_advance ok s t EListen =
     (if ok then goto_remote (s\<lparr>made := made s + 1, conns := (conns s)(made s \<mapsto> Map.empty)\<rparr>) t (ESet (made s))
      else goto_remote s t TIdle)"
| "enable_advance ok s t (ESet r) = goto_remote (s\<lparr>remote_ptr := Some r, serving := insert r (serving s)\<rparr>) t TIdle"
| "enable_advance ok s t _ = s"

fun stop_advance :: "transport_sys \<Rightarrow> nat \<Rightarrow> remote_pc \<Rightarrow> transport_sys" where
  "stop_advance s t SFirst = goto_remote s t (if remote_ptr s = None then TIdle else SServer)"
| "stop_advance s t SServer =
     with_remote s t (\<lambda>r. goto_remote (s\<lparr>serving := serving s - {r}\<rparr>) t SListener)"
| "stop_advance s t SListener = with_remote s t (\<lambda>r. goto_remote s t SMutex)"
| "stop_advance s t SMutex = with_remote s t (\<lambda>r. goto_remote s t (SLock r))"
| "stop_advance s t (SLock r) = (if r \<in> locked s then s else goto_remote (s\<lparr>locked := insert r (locked s)\<rparr>) t SRange)"
| "stop_advance s t SRange =
     with_remote s t (\<lambda>r. goto_remote (s\<lparr>hung_up := hung_up s \<union> ran (table_of s r)\<rparr>) t SClear)"
| "stop_advance s t SClear = with_remote s t (\<lambda>r. goto_remote (s\<lparr>conns := (conns s)(r := None)\<rparr>) t SUnlock)"
| "stop_advance s t SUnlock =
     with_remote s t (\<lambda>r. if r \<in> locked s then goto_remote (s\<lparr>locked := locked s - {r}\<rparr>) t SNil
                        else goto_remote (s\<lparr>panicked := True\<rparr>) t TIdle)"
| "stop_advance s t SNil = goto_remote (s\<lparr>remote_ptr := None\<rparr>) t TIdle"
| "stop_advance s t _ = s"

definition remote_advance :: "bool \<Rightarrow> transport_sys \<Rightarrow> nat \<Rightarrow> remote_pc \<Rightarrow> transport_sys" where
  "remote_advance ok s t pc =
     (case pc of
        DFirst _ \<Rightarrow> deliver_advance ok s t pc | DSecond _ \<Rightarrow> deliver_advance ok s t pc
      | DConn _ _ \<Rightarrow> deliver_advance ok s t pc | DCall _ _ _ \<Rightarrow> deliver_advance ok s t pc
      | EFirst \<Rightarrow> enable_advance ok s t pc | EListen \<Rightarrow> enable_advance ok s t pc | ESet _ \<Rightarrow> enable_advance ok s t pc
      | _ \<Rightarrow> stop_advance s t pc)"

inductive remote_step :: "transport_sys \<Rightarrow> transport_sys \<Rightarrow> bool" where
  call_deliver: "remote_pcs s t = TIdle \<Longrightarrow> remote_step s (goto_remote s t (DFirst addr))"
| call_enable: "remote_pcs s t = TIdle \<Longrightarrow> remote_step s (goto_remote s t EFirst)"
| call_stop: "remote_pcs s t = TIdle \<Longrightarrow> remote_step s (goto_remote (s\<lparr>stops := Suc (stops s)\<rparr>) t SFirst)"
| advance_call: "remote_step s (remote_advance ok s t (remote_pcs s t))"

inductive_cases remote_stepE [elim!]: "remote_step s s'"

definition no_remote :: transport_sys where
  "no_remote = \<lparr>remote_ptr = None, made = 0, conns = (\<lambda>_. None), locked = {}, serving = {}, dialled = 0, hung_up = {},
     panicked = False, stops = 0, remote_pcs = (\<lambda>_. TIdle)\<rparr>"

definition remote_start :: "transport_sys \<Rightarrow> bool" where
  "remote_start s \<longleftrightarrow> s = no_remote"

datatype ract = RDeliver nat string | REnable nat | RStop nat | RRun nat

fun remote_act :: "transport_sys \<Rightarrow> ract \<Rightarrow> transport_sys" where
  "remote_act s (RDeliver t addr) = (if remote_pcs s t = TIdle then goto_remote s t (DFirst addr) else s)"
| "remote_act s (REnable t) = (if remote_pcs s t = TIdle then goto_remote s t EFirst else s)"
| "remote_act s (RStop t) = (if remote_pcs s t = TIdle then goto_remote (s\<lparr>stops := Suc (stops s)\<rparr>) t SFirst else s)"
| "remote_act s (RRun t) = remote_advance True s t (remote_pcs s t)"

lemma remote_act_step: "remote_act s a = s \<or> remote_step s (remote_act s a)"
  by (cases a) (auto intro: remote_step.intros)

lemma goto_remote_simps [simp]:
  "remote_ptr (goto_remote s t pc) = remote_ptr s" "made (goto_remote s t pc) = made s" "conns (goto_remote s t pc) = conns s"
  "locked (goto_remote s t pc) = locked s" "serving (goto_remote s t pc) = serving s" "dialled (goto_remote s t pc) = dialled s"
  "hung_up (goto_remote s t pc) = hung_up s" "panicked (goto_remote s t pc) = panicked s" "stops (goto_remote s t pc) = stops s"
  "remote_pcs (goto_remote s t pc) = (remote_pcs s)(t := pc)"
  by (simp_all add: goto_remote_def)

subsection \<open>Without StopRemote\<close>

fun remote_pc_ok :: "transport_sys \<Rightarrow> remote_pc \<Rightarrow> bool" where
  "remote_pc_ok s (DSecond addr) \<longleftrightarrow> remote_ptr s \<noteq> None"
| "remote_pc_ok s (DConn r addr) \<longleftrightarrow> r < made s"
| "remote_pc_ok s (DCall r addr c) \<longleftrightarrow> table_of s r addr = Some c"
| "remote_pc_ok s (ESet r) \<longleftrightarrow> r < made s"
| "remote_pc_ok s pc \<longleftrightarrow> pc \<in> {TIdle, EFirst, EListen} \<or> (\<exists>addr. pc = DFirst addr)"

text \<open>Every connection ever dialled stands in exactly one place of one table.\<close>

definition pooled :: "transport_sys \<Rightarrow> bool" where
  "pooled s \<longleftrightarrow> (\<forall>c. c < dialled s \<longleftrightarrow> (\<exists>r addr. table_of s r addr = Some c)) \<and>
     (\<forall>r addr r' addr' c. table_of s r addr = Some c \<longrightarrow> table_of s r' addr' = Some c \<longrightarrow> r = r' \<and> addr = addr')"

definition remote_inv :: "transport_sys \<Rightarrow> bool" where
  "remote_inv s \<longleftrightarrow> \<not> panicked s \<and> hung_up s = {} \<and> locked s = {} \<and> (\<forall>r. conns s r \<noteq> None \<longleftrightarrow> r < made s) \<and>
     (\<forall>r. remote_ptr s = Some r \<longrightarrow> r \<in> serving s) \<and> (\<forall>r \<in> serving s. r < made s) \<and> pooled s \<and> (\<forall>t. remote_pc_ok s (remote_pcs s t))"

lemma table_of_goto_remote [simp]: "table_of (goto_remote s t pc) r = table_of s r"
  by (simp add: table_of_def)

lemma remote_pc_ok_goto [simp]: "remote_pc_ok (goto_remote s t pc') pc = remote_pc_ok s pc"
  by (cases pc) simp_all

lemma remote_inv_goto: "remote_inv s \<Longrightarrow> remote_pc_ok s pc \<Longrightarrow> remote_inv (goto_remote s t pc)"
  by (auto simp: remote_inv_def pooled_def)

text \<open>A new transport, its publication, and a new connection keep what the other goroutines know.\<close>

lemma remote_pc_ok_mono:
  assumes "remote_pc_ok s pc" and "made s \<le> made s'" and "remote_ptr s \<noteq> None \<Longrightarrow> remote_ptr s' \<noteq> None"
    and "\<And>r addr c. table_of s r addr = Some c \<Longrightarrow> table_of s' r addr = Some c"
  shows "remote_pc_ok s' pc"
  using assms by (cases pc) auto

lemma remote_inv_make:
  assumes "remote_inv s"
  shows "remote_inv (s\<lparr>made := made s + 1, conns := (conns s)(made s \<mapsto> Map.empty)\<rparr>)" (is "remote_inv ?s")
proof -
  have free: "conns s (made s) = None" using assms by (auto simp: remote_inv_def)
  then have t: "table_of ?s = table_of s" by (auto simp: table_of_def fun_eq_iff)
  then have "pooled ?s = pooled s" by (simp add: pooled_def)
  moreover have "remote_pc_ok ?s pc" if "remote_pc_ok s pc" for pc
    by (rule remote_pc_ok_mono [OF that]) (use t in simp_all)
  ultimately show ?thesis using assms by (auto simp: remote_inv_def less_Suc_eq)
qed

lemma remote_inv_publish:
  assumes "remote_inv s" and "r < made s"
  shows "remote_inv (s\<lparr>remote_ptr := Some r, serving := insert r (serving s)\<rparr>)" (is "remote_inv ?s")
proof -
  have t: "table_of ?s = table_of s" by (simp add: table_of_def fun_eq_iff)
  then have "pooled ?s = pooled s" by (simp add: pooled_def)
  moreover have "remote_pc_ok ?s pc" if "remote_pc_ok s pc" for pc
    by (rule remote_pc_ok_mono [OF that]) (use t in simp_all)
  ultimately show ?thesis using assms by (auto simp: remote_inv_def)
qed

lemma remote_inv_dial:
  assumes "remote_inv s" and "conns s r = Some m" and "m addr = None"
  shows "remote_inv (s\<lparr>dialled := dialled s + 1, conns := (conns s)(r \<mapsto> m(addr \<mapsto> dialled s))\<rparr>)"
    and "table_of (s\<lparr>dialled := dialled s + 1, conns := (conns s)(r \<mapsto> m(addr \<mapsto> dialled s))\<rparr>) r addr = Some (dialled s)"
proof -
  let ?s = "s\<lparr>dialled := dialled s + 1, conns := (conns s)(r \<mapsto> m(addr \<mapsto> dialled s))\<rparr>"
  have t: "table_of ?s r' addr' = (if r' = r \<and> addr' = addr then Some (dialled s) else table_of s r' addr')" for r' addr'
    using assms(2) by (simp add: table_of_def)
  have none: "table_of s r addr = None" using assms(2,3) by (simp add: table_of_def)
  have p: "pooled s" using assms(1) by (simp add: remote_inv_def)
  have iff: "c < dialled s \<longleftrightarrow> (\<exists>r addr. table_of s r addr = Some c)" for c
    using p unfolding pooled_def by blast
  have fresh: "table_of s r' addr' \<noteq> Some (dialled s)" for r' addr'
    using iff [of "dialled s"] by auto
  have "c < dialled ?s \<longleftrightarrow> (\<exists>r addr. table_of ?s r addr = Some c)" for c
  proof (cases "c = dialled s")
    case False
    then have "(\<exists>r addr. table_of ?s r addr = Some c) \<longleftrightarrow> (\<exists>r addr. table_of s r addr = Some c)"
      unfolding t using none by (metis option.distinct(1) option.inject)
    then show ?thesis using iff [of c] False by (simp add: less_Suc_eq)
  qed (use t in auto)
  moreover have "\<forall>r addr r' addr' c. table_of ?s r addr = Some c \<longrightarrow> table_of ?s r' addr' = Some c \<longrightarrow> r = r' \<and> addr = addr'"
    using p fresh unfolding t pooled_def by (auto split: if_splits)
  ultimately have "pooled ?s" by (simp add: pooled_def)
  moreover have "remote_pc_ok ?s pc" if "remote_pc_ok s pc" for pc
    by (rule remote_pc_ok_mono [OF that]) (use t none in auto)
  ultimately show "remote_inv ?s" using assms by (auto simp: remote_inv_def)
  show "table_of ?s r addr = Some (dialled s)" by (simp add: t del: One_nat_def)
qed

lemma remote_inv_conn: 
  assumes "remote_inv s" and "r < made s"
  shows "remote_inv (pool_conn ok s t r addr)"
proof -
  obtain m where m: "conns s r = Some m" using assms unfolding remote_inv_def by (metis not_None_eq)
  show ?thesis
    using m assms(1) remote_inv_dial [OF assms(1) m, of addr]
    by (auto simp: pool_conn_def table_of_def intro!: remote_inv_goto split: option.split)
qed

lemma remote_inv_advance:
  assumes "remote_inv s" and "remote_pc_ok s pc"
  shows "remote_inv (remote_advance ok s t pc)"
proof (cases pc)
  case (DConn r addr)
  then show ?thesis using assms remote_inv_conn by (simp add: remote_advance_def)
next
  case EListen
  then show ?thesis using assms(1) remote_inv_make [OF assms(1)] by (auto simp: remote_advance_def intro!: remote_inv_goto)
next
  case (ESet r)
  then show ?thesis using assms remote_inv_publish [OF assms(1)] by (auto simp: remote_advance_def intro!: remote_inv_goto)
next
  case (DSecond addr)
  then obtain r where "remote_ptr s = Some r" "r < made s" using assms by (auto simp: remote_inv_def)
  then show ?thesis using DSecond assms(1) by (auto simp: remote_advance_def with_remote_def intro!: remote_inv_goto)
qed (use assms in \<open>auto simp: remote_advance_def intro!: remote_inv_goto\<close>)

lemma pool_conn_stops: "stops (pool_conn ok s t r addr) = stops s"
  by (simp add: pool_conn_def split: option.split)

lemma remote_advance_stops: "stops (remote_advance ok s t pc) = stops s"
  by (cases pc) (simp_all add: remote_advance_def with_remote_def pool_conn_stops split: option.split)

interpretation pool: bounded_invariant remote_start remote_step remote_inv "\<lambda>s. stops s = 0"
proof
  fix s s'
  show "remote_inv s" if "remote_start s"
    using that by (simp add: remote_start_def no_remote_def remote_inv_def pooled_def table_of_def)
  show "remote_inv s'" if "remote_inv s" "remote_step s s'" "stops s' = 0"
    using that(2)
  proof cases
    case (advance_call ok t)
    have "remote_pc_ok s (remote_pcs s t)" using that(1) by (simp add: remote_inv_def)
    then show ?thesis unfolding advance_call by (rule remote_inv_advance [OF that(1)])
  qed (use that in \<open>auto intro: remote_inv_goto\<close>)
  show "stops s = 0" if "remote_step s s'" "stops s' = 0"
    using that by (auto simp: remote_advance_stops)
qed

subsection \<open>StopRemote\<close>

text \<open>With no other call inside, \<open>StopRemote\<close> takes the transport down.\<close>

lemma stop_alone:
  assumes "remote_pcs s t = TIdle" and "remote_ptr s = Some r" and "r \<notin> locked s"
  shows "run_schedule remote_act s (RStop t # replicate 9 (RRun t)) =
    s\<lparr>remote_ptr := None, serving := serving s - {r}, conns := (conns s)(r := None),
      hung_up := hung_up s \<union> ran (table_of s r), stops := Suc (stops s)\<rparr>"
proof -
  have nine: "replicate 9 (RRun t) = [RRun t, RRun t, RRun t, RRun t, RRun t, RRun t, RRun t, RRun t, RRun t]"
    by (simp add: numeral_eq_Suc)
  have "locked s - {r} = locked s" "(remote_pcs s)(t := TIdle) = remote_pcs s" using assms by auto
  then show ?thesis
    unfolding nine using assms by (simp add: remote_advance_def goto_remote_def with_remote_def table_of_def)
qed

lemma reach_acts: "reach remote_start remote_step (run_schedule remote_act no_remote acts)"
  by (rule reach_run_schedule) (simp_all add: remote_act_step reach_start remote_start_def)

text \<open>Goroutine 0 enables the transport, 1 delivers and is at its second or third step when 2
  calls \<open>StopRemote\<close> and runs until \<open>s.remote\<close> is \<open>nil\<close>.\<close>

definition enabled_acts :: "ract list" where
  "enabled_acts = [REnable 0, RRun 0, RRun 0, RRun 0]"

definition stop_acts :: "nat \<Rightarrow> ract list" where
  "stop_acts t = [RStop t, RRun t, RRun t, RRun t, RRun t, RRun t, RRun t, RRun t, RRun t, RRun t]"

lemmas remote_eval = remote_advance_def enabled_acts_def stop_acts_def no_remote_def goto_remote_def with_remote_def pool_conn_def table_of_def

text \<open>Two overlapping calls of \<open>EnableRemote\<close> both start a server; only the second can be stopped.\<close>

lemma two_servers:
  "\<exists>s. reach remote_start remote_step s \<and> (\<forall>t. remote_pcs s t = TIdle) \<and> stops s = 1 \<and> remote_ptr s = None \<and> serving s = {0}"
proof (intro exI conjI)
  let ?acts = "[REnable 0, RRun 0, REnable 1, RRun 1, RRun 0, RRun 1, RRun 0, RRun 1] @ stop_acts 2"
  let ?s = "run_schedule remote_act no_remote ?acts"
  show "reach remote_start remote_step ?s" by (rule reach_acts)
  show "\<forall>t. remote_pcs ?s t = TIdle" "stops ?s = 1" "remote_ptr ?s = None" "serving ?s = {0}"
    by (simp_all add: remote_eval insert_Diff_if)
qed

subsection \<open>Properties\<close>



text \<open>C40. \<open>StopRemote\<close> beside another call panics the process. In a reachable state with one call of
  \<open>StopRemote\<close>, completed, and one of \<open>remoteDeliver\<close>, that has seen a transport, the next step of
  the delivery dereferences the field that is now \<open>nil\<close>; in another, one step later, the delivery
  has the transport and, whenever its dial succeeds, writes to the table that is now \<open>nil\<close>; and
  two overlapping calls of \<open>StopRemote\<close> reach a state in which the second dereferences \<open>nil\<close>.\<close>

theorem remote_stop_panics:
  "(\<exists>s. reach remote_start remote_step s \<and> \<not> panicked s \<and> stops s = 1 \<and> remote_pcs s = (\<lambda>_. TIdle)(1 := DSecond ''b'') \<and>
      (\<forall>ok. panicked (remote_advance ok s 1 (remote_pcs s 1)))) \<and>
   (\<exists>s. reach remote_start remote_step s \<and> \<not> panicked s \<and> stops s = 1 \<and> remote_pcs s = (\<lambda>_. TIdle)(1 := DConn 0 ''b'') \<and>
      (\<forall>ok. panicked (remote_advance ok s 1 (remote_pcs s 1)) = ok)) \<and>
   (\<exists>s. reach remote_start remote_step s \<and> \<not> panicked s \<and> stops s = 2 \<and> remote_pcs s = (\<lambda>_. TIdle)(1 := SServer) \<and>
      (\<forall>ok. panicked (remote_advance ok s 1 (remote_pcs s 1))))"
proof -
  let ?s1 = "run_schedule remote_act no_remote (enabled_acts @ [RDeliver 1 ''b'', RRun 1] @ stop_acts 2)"
  let ?s2 = "run_schedule remote_act no_remote (enabled_acts @ [RDeliver 1 ''b'', RRun 1, RRun 1] @ stop_acts 2)"
  let ?s3 = "run_schedule remote_act no_remote (enabled_acts @ [RStop 1, RRun 1] @ stop_acts 2)"
  have "\<not> panicked ?s1 \<and> stops ?s1 = 1 \<and> remote_pcs ?s1 = (\<lambda>_. TIdle)(1 := DSecond ''b'') \<and>
      (\<forall>ok. panicked (remote_advance ok ?s1 1 (remote_pcs ?s1 1)))"
    by (simp add: remote_eval fun_eq_iff)
  moreover have "\<not> panicked ?s2 \<and> stops ?s2 = 1 \<and> remote_pcs ?s2 = (\<lambda>_. TIdle)(1 := DConn 0 ''b'') \<and>
      (\<forall>ok. panicked (remote_advance ok ?s2 1 (remote_pcs ?s2 1)) = ok)"
    by (simp add: remote_eval fun_eq_iff)
  moreover have "\<not> panicked ?s3 \<and> stops ?s3 = 2 \<and> remote_pcs ?s3 = (\<lambda>_. TIdle)(1 := SServer) \<and>
      (\<forall>ok. panicked (remote_advance ok ?s3 1 (remote_pcs ?s3 1)))"
    by (simp add: remote_eval fun_eq_iff)
  ultimately show ?thesis using reach_acts by blast
qed

end
