(* ===== verification/WAL.thy ===== *)
theory WAL
  imports Prelude
begin

text \<open>
  \<open>persistence/wal.go\<close>: a log of records, each a 4-byte little-endian length and the payload.
  Files are a map from paths to bytes. An open log is a handle on a path; the file is opened
  with \<open>O_APPEND\<close>, so every write goes to the end. What the operating system decides is an
  argument: whether a file may be opened, whether a seek succeeds, and how many bytes of a
  failed write reached the file. The mutex makes each call one step.
\<close>

subsection \<open>State and operations\<close>

type_synonym bytes = "u8 list"
type_synonym files = "string \<rightharpoonup> bytes"

datatype wal_error = ErrOpen | ErrClosed | ErrWrite | ErrSeek | EOF | UnexpectedEOF | ErrCloseFile

record wal =
  wal_f :: "nat option"   \<comment> \<open>\<open>nil\<close>, or the open file with its offset\<close>
  wal_path :: string

definition wal_open :: "bool \<Rightarrow> string \<Rightarrow> files \<Rightarrow> files \<times> (wal_error + wal)" where
  "wal_open allowed path fs =
     (if \<not> allowed then (fs, Inl ErrOpen)
      else ((case fs path of None \<Rightarrow> fs(path \<mapsto> []) | Some _ \<Rightarrow> fs),
            Inr \<lparr>wal_f = Some 0, wal_path = path\<rparr>))"

definition wal_close :: "bool \<Rightarrow> wal \<Rightarrow> wal \<times> wal_error option" where
  "wal_close clean w =
     (case wal_f w of
        None \<Rightarrow> (w, None)
      | Some _ \<Rightarrow> (w\<lparr>wal_f := None\<rparr>, if clean then None else Some ErrCloseFile))"

text \<open>\<open>binary.LittleEndian.PutUint32\<close> and \<open>binary.LittleEndian.Uint32\<close>.\<close>

definition put_u32 :: "u32 \<Rightarrow> bytes" where
  "put_u32 n = [ucast n, ucast (drop_bit 8 n), ucast (drop_bit 16 n), ucast (drop_bit 24 n)]"

fun get_u32 :: "bytes \<Rightarrow> u32" where
  "get_u32 (a # b # c # d # _) =
     ucast a OR push_bit 8 (ucast b) OR push_bit 16 (ucast c) OR push_bit 24 (ucast d)"
| "get_u32 _ = 0"

definition frame :: "bytes \<Rightarrow> bytes" where
  "frame b = put_u32 (of_nat (length b)) @ b"

definition file_data :: "wal \<Rightarrow> files \<Rightarrow> bytes" where
  "file_data w fs = (case fs (wal_path w) of None \<Rightarrow> [] | Some d \<Rightarrow> d)"

text \<open>\<open>failed = Some k\<close>: the write fails after \<open>k\<close> bytes.\<close>

definition wal_append :: "nat option \<Rightarrow> bytes \<Rightarrow> wal \<times> files \<Rightarrow> (wal \<times> files) \<times> wal_error option" where
  "wal_append failed b s =
     (let (w, fs) = s in
      if b = [] then (s, None)
      else case wal_f w of
          None \<Rightarrow> (s, Some ErrClosed)
        | Some _ \<Rightarrow>
            (let buf = frame b;
                 out = (case failed of None \<Rightarrow> buf | Some k \<Rightarrow> take k buf);
                 d = file_data w fs @ out
             in ((w\<lparr>wal_f := Some (length d)\<rparr>, fs(wal_path w \<mapsto> d)),
                 if failed = None then None else Some ErrWrite)))"

text \<open>The loop of \<open>Replay\<close> on the bytes that are left to read; \<open>io.ReadFull\<close> fails with
  \<open>EOF\<close> when nothing was left and with \<open>UnexpectedEOF\<close> when too little was.\<close>

function replay_loop :: "bytes \<Rightarrow> bytes list \<Rightarrow> wal_error + bytes list" where
  "replay_loop xs out =
     (if length xs < 4 then Inr out
      else let n = get_u32 (take 4 xs); ys = drop 4 xs in
        if n = 0 then replay_loop ys out
        else if length ys < unat n then Inl (if ys = [] then EOF else UnexpectedEOF)
        else replay_loop (drop (unat n) ys) (out @ [take (unat n) ys]))"
  by auto
termination
  by (relation "measure (\<lambda>(xs, _). length xs)") auto

declare replay_loop.simps [simp del]

definition wal_replay :: "bool \<Rightarrow> wal \<times> files \<Rightarrow> (wal \<times> files) \<times> (wal_error + bytes list)" where
  "wal_replay seek_ok s =
     (let (w, fs) = s in
      case wal_f w of
        None \<Rightarrow> (s, Inl ErrClosed)
      | Some _ \<Rightarrow>
          if \<not> seek_ok then (s, Inl ErrSeek)
          else ((w\<lparr>wal_f := Some (length (file_data w fs))\<rparr>, fs), replay_loop (file_data w fs) []))"

subsection \<open>Framing\<close>

lemma get_put_u32 [simp]: "get_u32 (put_u32 n @ xs) = n"
proof -
  have "ucast (ucast n :: u8) OR push_bit 8 (ucast (ucast (drop_bit 8 n) :: u8)) OR
      push_bit 16 (ucast (ucast (drop_bit 16 n) :: u8)) OR push_bit 24 (ucast (ucast (drop_bit 24 n) :: u8)) = n"
  proof (rule bit_word_eqI)
    fix i assume "i < LENGTH(32)"
    then consider "i < 8" | "8 \<le> i" "i < 16" | "16 \<le> i" "i < 24" | "24 \<le> i" "i < 32"
      by (simp only: len_num1 len_num0 len_bit0 len_bit1) linarith
    then show "bit (ucast (ucast n :: u8) OR push_bit 8 (ucast (ucast (drop_bit 8 n) :: u8)) OR
      push_bit 16 (ucast (ucast (drop_bit 16 n) :: u8)) OR push_bit 24 (ucast (ucast (drop_bit 24 n) :: u8)) :: u32) i
      \<longleftrightarrow> bit n i"
      by cases (auto simp: bit_simps less_diff_conv2)
  qed
  then show ?thesis by (simp add: put_u32_def)
qed

lemma get_put_u32_nil [simp]: "get_u32 (put_u32 n) = n"
  using get_put_u32 [of n "[]"] by simp

lemma length_put_u32 [simp]: "length (put_u32 n) = 4"
  by (simp add: put_u32_def)

lemma length_frame [simp]: "length (frame b) = 4 + length b"
  by (simp add: frame_def)

text \<open>Records that a header can describe: not empty, and shorter than \<open>2^32\<close> bytes.\<close>

definition fits :: "bytes \<Rightarrow> bool" where
  "fits b \<longleftrightarrow> b \<noteq> [] \<and> length b < 2 ^ 32"

lemma fits_header:
  assumes "fits b"
  shows "unat (of_nat (length b) :: u32) = length b" and "(of_nat (length b) :: u32) \<noteq> 0"
proof -
  show u: "unat (of_nat (length b) :: u32) = length b"
    using assms by (simp add: fits_def unat_of_nat)
  show "(of_nat (length b) :: u32) \<noteq> 0"
    using u assms by (metis fits_def length_0_conv unat_0)
qed

lemma replay_frame:
  assumes "fits b"
  shows "replay_loop (frame b @ xs) out = replay_loop xs (out @ [b])"
  using fits_header [OF assms] by (subst replay_loop.simps) (simp add: frame_def Let_def)

lemma replay_frames:
  assumes "list_all fits bs"
  shows "replay_loop (concat (map frame bs) @ xs) out = replay_loop xs (out @ bs)"
  using assms by (induction bs arbitrary: out) (simp_all add: replay_frame)

lemma replay_rest:
  "length xs < 4 \<Longrightarrow> replay_loop xs out = Inr out"
  by (simp add: replay_loop.simps)

lemma replay_torn_payload:
  assumes "fits b" and "k < length b"
  shows "replay_loop (put_u32 (of_nat (length b)) @ take k b) out = Inl (if k = 0 then EOF else UnexpectedEOF)"
  using fits_header [OF assms(1)] assms by (subst replay_loop.simps) (auto simp: Let_def fits_def)

subsection \<open>The contract of a record log\<close>

text \<open>What the mailbox and the actor rely on: a record that was appended comes back, after
  those before it.\<close>

locale record_log =
  fixes append_rec :: "'r \<Rightarrow> 's \<Rightarrow> 's" and replay_recs :: "'s \<Rightarrow> 'r list option"
    and storable :: "'r \<Rightarrow> bool" and sound :: "'s \<Rightarrow> bool"
  assumes append_sound: "sound s \<Longrightarrow> storable b \<Longrightarrow> sound (append_rec b s)"
    and sound_replay: "sound s \<Longrightarrow> replay_recs s \<noteq> None"
    and replay_append: "sound s \<Longrightarrow> storable b \<Longrightarrow>
      replay_recs (append_rec b s) = Some (the (replay_recs s) @ [b])"
begin

lemma replay_history:
  assumes "sound s" and "list_all storable bs"
  shows "sound (fold append_rec bs s) \<and> replay_recs (fold append_rec bs s) = Some (the (replay_recs s) @ bs)"
  using assms
proof (induction bs arbitrary: s)
  case Nil
  then show ?case using sound_replay by auto
next
  case (Cons b bs)
  then have s: "sound (append_rec b s)" and "storable b"
    using append_sound by simp_all
  with Cons.IH [OF s] Cons.prems replay_append show ?case by simp
qed

end

text \<open>The log as its owner uses it: successful writes, the answer of \<open>Replay\<close> without the
  error value.\<close>

definition log_append :: "bytes \<Rightarrow> wal \<times> files \<Rightarrow> wal \<times> files" where
  "log_append b s = fst (wal_append None b s)"

definition log_replay :: "wal \<times> files \<Rightarrow> bytes list option" where
  "log_replay s = (case snd (wal_replay True s) of Inl _ \<Rightarrow> None | Inr rs \<Rightarrow> Some rs)"

text \<open>An open log whose file is a sequence of complete records.\<close>

definition log_sound :: "wal \<times> files \<Rightarrow> bool" where
  "log_sound s \<longleftrightarrow> wal_f (fst s) \<noteq> None \<and>
     (\<exists>bs. list_all fits bs \<and> file_data (fst s) (snd s) = concat (map frame bs))"

lemma log_replay_frames:
  assumes "wal_f w \<noteq> None" and "list_all fits bs" and "file_data w fs = concat (map frame bs)"
  shows "log_replay (w, fs) = Some bs"
  using assms replay_frames [of bs "[]" "[]"] replay_rest [of "[]" bs]
  by (auto simp: log_replay_def wal_replay_def)

lemma log_append_data:
  assumes "wal_f w \<noteq> None" and "b \<noteq> []" and "log_append b (w, fs) = (w', fs')"
  shows "wal_f w' \<noteq> None" and "wal_path w' = wal_path w"
    and "file_data w' fs' = file_data w fs @ frame b"
  using assms by (auto simp: log_append_def wal_append_def Let_def file_data_def)

lemma log_append_frames:
  assumes "wal_f w \<noteq> None" and "fits b" and "list_all fits bs" and "file_data w fs = concat (map frame bs)"
    and "log_append b (w, fs) = (w', fs')"
  shows "wal_f w' \<noteq> None" and "list_all fits (bs @ [b])" and "file_data w' fs' = concat (map frame (bs @ [b]))"
  using log_append_data [OF assms(1) _ assms(5)] assms(2,3,4) by (simp_all add: fits_def)

interpretation wlog: record_log log_append log_replay fits log_sound
proof unfold_locales
  fix s :: "wal \<times> files" and b
  obtain w fs where s: "s = (w, fs)" by (cases s)
  assume snd: "log_sound s"
  then obtain bs where f: "wal_f w \<noteq> None" and bs: "list_all fits bs" "file_data w fs = concat (map frame bs)"
    by (auto simp: log_sound_def s)
  note old = log_replay_frames [OF f bs]
  then show "log_replay s \<noteq> None" by (simp add: s)
  assume b: "fits b"
  obtain w' fs' where s': "log_append b (w, fs) = (w', fs')"
    by (cases "log_append b (w, fs)")
  note new = log_append_frames [OF f b bs s']
  show "log_sound (log_append b s)"
    unfolding log_sound_def s s' using new by (intro conjI exI [of _ "bs @ [b]"]) simp_all
  show "log_replay (log_append b s) = Some (the (log_replay s) @ [b])"
    using log_replay_frames [OF new] old by (simp add: s s')
qed

lemma log_append_nil [simp]: "log_append [] s = s"
  by (simp add: log_append_def wal_append_def split: prod.split)

lemma fold_log_append_nonempty: "fold log_append bs s = fold log_append (filter (\<lambda>b. b \<noteq> []) bs) s"
  by (induction bs arbitrary: s) auto

lemma log_append_path: "wal_path (fst (log_append b s)) = wal_path (fst s)"
  by (cases s) (auto simp: log_append_def wal_append_def Let_def split: option.splits)

lemma fold_log_append_path: "wal_path (fst (fold log_append bs s)) = wal_path (fst s)"
  by (induction bs arbitrary: s) (simp_all add: log_append_path)

lemma log_sound_reopen:
  assumes "log_sound (w, fs)" and "wal_open True (wal_path w) fs = (fs', Inr w')"
  shows "log_sound (w', fs') \<and> log_replay (w', fs') = log_replay (w, fs)"
proof -
  have "file_data w' fs' = file_data w fs" and "wal_f w' \<noteq> None"
    using assms(2) by (auto simp: wal_open_def file_data_def split: option.splits)
  then show ?thesis
    using assms(1) by (auto simp: log_sound_def log_replay_def wal_replay_def)
qed

subsection \<open>Properties\<close>

text \<open>C14. What was logged comes back after a restart. On a file that holds complete records
  (an absent file holds none) open the log, append any records of less than \<open>2^32\<close> bytes,
  close it or crash after the last write, and open it again: \<open>Replay\<close> returns the old
  records and then the appended ones in order, without the empty ones, which are not
  logged.\<close>

theorem wal_roundtrip:
  assumes "fs path = None \<and> olds = [] \<or> fs path = Some (concat (map frame olds))"
    and "list_all fits olds" and "list_all (\<lambda>b. length b < 2 ^ 32) bs"
    and "wal_open True path fs = (fs1, Inr w1)"
    and "fold log_append bs (w1, fs1) = (w2, fs2)"
    and "wal_open True path fs2 = (fs3, Inr w3)"
  shows "snd (wal_replay True (w3, fs3)) = Inr (olds @ filter (\<lambda>b. b \<noteq> []) bs)"
proof -
  let ?bs = "filter (\<lambda>b. b \<noteq> []) bs"
  have w1: "wal_f w1 \<noteq> None" "wal_path w1 = path" and d: "file_data w1 fs1 = concat (map frame olds)"
    using assms(1,4) by (auto simp: wal_open_def file_data_def split: option.splits)
  have s: "log_sound (w1, fs1)"
    using w1 d assms(2) by (auto simp: log_sound_def)
  have ok: "list_all fits ?bs"
    using assms(3) by (auto simp: list_all_iff fits_def)
  have f: "fold log_append ?bs (w1, fs1) = (w2, fs2)"
    using assms(5) fold_log_append_nonempty [of bs] by simp
  have "log_sound (w2, fs2)" "log_replay (w2, fs2) = Some (olds @ ?bs)"
    using wlog.replay_history [OF s ok] log_replay_frames [OF w1(1) assms(2) d] by (simp_all add: f)
  moreover have "wal_path w2 = path"
    using fold_log_append_path [of bs "(w1, fs1)"] assms(5) w1(2) by simp
  ultimately have "log_replay (w3, fs3) = Some (olds @ ?bs)"
    using log_sound_reopen assms(6) by auto
  then show ?thesis
    by (auto simp: log_replay_def split: sum.splits)
qed

theorem wal_roundtrip_witness:
  "\<exists>fs1 w1 w2 fs2 fs3 w3. wal_open True ''a.wal'' Map.empty = (fs1, Inr w1) \<and>
     fold log_append [[1, 2], [], [3]] (w1, fs1) = (w2, fs2) \<and>
     wal_open True ''a.wal'' fs2 = (fs3, Inr w3) \<and> snd (wal_replay True (w3, fs3)) = Inr [[1, 2], [3]]"
proof -
  obtain fs1 w1 where o: "wal_open True ''a.wal'' Map.empty = (fs1, Inr w1)"
    by (simp add: wal_open_def)
  obtain w2 fs2 where f: "fold log_append [[1, 2], [], [3]] (w1, fs1) = (w2, fs2)"
    by (meson surj_pair)
  obtain fs3 w3 where o2: "wal_open True ''a.wal'' fs2 = (fs3, Inr w3)"
    by (simp add: wal_open_def)
  have "snd (wal_replay True (w3, fs3)) = Inr ([] @ filter (\<lambda>b. b \<noteq> []) [[1, 2], [], [3]])"
    by (rule wal_roundtrip [OF _ _ _ o f o2]) simp_all
  with o f o2 show ?thesis by auto
qed

text \<open>C31. A write torn by a crash. If only \<open>k\<close> bytes of a new record reached the file, then
  \<open>Replay\<close> returns the complete records exactly when the header itself is incomplete; a
  complete header with an incomplete payload makes it return an error and none of the records
  before it. (The actor's \<open>Start\<close> skips the replay on an error, so all logged messages are
  dropped.)\<close>

theorem wal_torn_tail:
  assumes "log_sound s" and "log_replay s = Some bs" and "fits b" and "k < length (frame b)"
  shows "snd (wal_replay True (fst (wal_append (Some k) b s))) =
    (if k < 4 then Inr bs else Inl (if k = 4 then EOF else UnexpectedEOF))"
proof -
  obtain w fs where s: "s = (w, fs)" by (cases s)
  obtain bs' where f: "wal_f w \<noteq> None" and bs': "list_all fits bs'" "file_data w fs = concat (map frame bs')"
    using assms(1) by (auto simp: log_sound_def s)
  have "bs' = bs"
    using log_replay_frames [OF f bs'] assms(2) by (simp add: s)
  have "snd (wal_replay True (fst (wal_append (Some k) b s))) =
      replay_loop (concat (map frame bs) @ take k (frame b)) []"
    using f bs'(2) \<open>bs' = bs\<close> assms(3)
    by (auto simp: s wal_append_def wal_replay_def file_data_def Let_def fits_def)
  also have "\<dots> = replay_loop (take k (frame b)) bs"
    using replay_frames [OF bs'(1)] \<open>bs' = bs\<close> by simp
  also have "\<dots> = (if k < 4 then Inr bs else Inl (if k = 4 then EOF else UnexpectedEOF))"
  proof (cases "k < 4")
    case True
    then show ?thesis by (simp add: replay_rest)
  next
    case False
    then have "take k (frame b) = put_u32 (of_nat (length b)) @ take (k - 4) b"
      by (simp add: frame_def)
    then show ?thesis
      using replay_torn_payload [OF assms(3), of "k - 4" bs] assms(4) False by auto
  qed
  finally show ?thesis .
qed

definition small_log :: "wal \<times> files" where
  "small_log = (\<lparr>wal_f = Some 0, wal_path = ''a''\<rparr>, [''a'' \<mapsto> frame [5] @ frame [6]])"

lemma small_log_ok: "log_sound small_log" "log_replay small_log = Some [[5], [6]]"
proof -
  have f: "list_all fits [[5], [6]]" by (simp add: fits_def)
  show "log_sound small_log"
    unfolding log_sound_def small_log_def using f by (intro conjI exI [of _ "[[5], [6]]"]) (simp_all add: file_data_def)
  show "log_replay small_log = Some [[5], [6]]"
    unfolding small_log_def by (rule log_replay_frames [OF _ f]) (simp_all add: file_data_def)
qed

theorem wal_torn_tail_witness:
  "snd (wal_replay True (fst (wal_append (Some 3) [7, 8] small_log))) = Inr [[5], [6]] \<and>
   snd (wal_replay True (fst (wal_append (Some 5) [7, 8] small_log))) = Inl UnexpectedEOF"
  using wal_torn_tail [OF small_log_ok, of "[7, 8]" 3] wal_torn_tail [OF small_log_ok, of "[7, 8]" 5]
  by (simp add: fits_def)

text \<open>A torn header is accepted as the end of the log but never removed. After it \<open>Replay\<close>
  succeeds, and so does the next \<open>Append\<close>; but the new record is written behind the stray
  byte, the frames no longer line up, and from then on \<open>Replay\<close> returns an error and no
  record at all.\<close>

theorem wal_append_after_torn_header:
  assumes "log_sound s" and "log_replay s = Some bs"
    and "s1 = fst (wal_append (Some 1) [7, 8] s)" and "wal_append None [7, 8] s1 = (s2, err)"
  shows "log_replay s1 = Some bs \<and> err = None \<and> snd (wal_replay True s2) = Inl UnexpectedEOF"
proof -
  obtain w fs where s: "s = (w, fs)" by (cases s)
  obtain bs' where f: "wal_f w \<noteq> None" and bs': "list_all fits bs'" "file_data w fs = concat (map frame bs')"
    using assms(1) by (auto simp: log_sound_def s)
  have eq: "bs' = bs"
    using log_replay_frames [OF f bs'] assms(2) by (simp add: s)
  obtain w1 fs1 where s1: "s1 = (w1, fs1)" by (cases s1)
  have f1: "wal_f w1 \<noteq> None" and d1: "file_data w1 fs1 = concat (map frame bs) @ [2]"
    using assms(3) f bs'(2) eq by (auto simp: s s1 wal_append_def Let_def file_data_def frame_def put_u32_def)
  obtain w2 fs2 where s2: "s2 = (w2, fs2)" by (cases s2)
  have f2: "wal_f w2 \<noteq> None" and e: "err = None"
    and d2: "file_data w2 fs2 = concat (map frame bs) @ [2, 2, 0, 0, 0, 7, 8]"
    using assms(4) f1 d1 by (auto simp: s1 s2 wal_append_def Let_def file_data_def frame_def put_u32_def)
  have "replay_loop [2, 2, 0, 0, 0, 7, 8] bs = Inl UnexpectedEOF"
    by (simp add: replay_loop.simps Let_def push_bit_eq_mult)
  moreover have "replay_loop [2] bs = Inr bs"
    by (simp add: replay_rest)
  ultimately show ?thesis
    using f1 f2 d1 d2 e replay_frames [OF bs'(1)] eq by (auto simp: s1 s2 log_replay_def wal_replay_def)
qed

theorem wal_append_after_torn_header_witness:
  "snd (wal_replay True (fst (wal_append None [7, 8] (fst (wal_append (Some 1) [7, 8] small_log))))) =
     Inl UnexpectedEOF"
  using wal_append_after_torn_header [OF small_log_ok refl surjective_pairing] by simp

text \<open>A closed log refuses everything that would touch the file: \<open>Close\<close> may be called
  again, \<open>Append\<close> of a non-empty record and \<open>Replay\<close> return \<open>os.ErrClosed\<close>, and no byte of any
  file changes.\<close>

theorem wal_closed:
  "case wal_close clean w of (w', _) \<Rightarrow>
     wal_close clean' w' = (w', None) \<and> wal_replay seek_ok (w', fs) = ((w', fs), Inl ErrClosed) \<and>
     wal_append failed b (w', fs) = ((w', fs), if b = [] then None else Some ErrClosed)"
  by (auto simp: wal_close_def wal_replay_def wal_append_def split: option.splits)

end
