(* ===== verification/Future.thy ===== *)
theory Future
  imports Prelude Transition
begin

text \<open>
  \<open>actor/future.go\<close>: single-assignment futures, \<open>Then\<close> and \<open>All\<close>. The futures of a program
  live in a heap and are named by their address; a callback is a user function (named by a
  number, its calls are logged) or one of the closures that \<open>Then\<close> and \<open>All\<close> install.
  Completing a future runs its callbacks, which may complete further futures: the calls still
  to be made are a work list, in the order in which the nested calls of the code make them.
  First the calls one after the other, then the steps of concurrent calls on one future.
\<close>

subsection \<open>State and operations\<close>

text \<open>Values, and slices of them (the type of the result of \<open>All\<close>).\<close>

datatype 'v gval = Val 'v | Vals "'v gval list"

datatype 'v callback =
    CBUser nat
  | CBThen nat "'v gval \<Rightarrow> 'v gval"
  | CBAll nat nat

record 'v fut =
  fch :: "'v gval list"
  fch_closed :: bool
  fdone :: bool
  fresult :: "'v gval option"
  fcbs :: "'v callback list"

text \<open>The variables that the closures of one call of \<open>All\<close> share.\<close>

record 'v all_cell =
  all_left :: u32
  all_vals :: "'v gval list"
  all_out :: nat

record 'v fheap =
  futs :: "'v fut list"
  cells :: "'v all_cell list"
  calls :: "(nat \<times> 'v gval) list"

definition empty_future :: "'v fut" where
  "empty_future = \<lparr>fch = [], fch_closed = False, fdone = False, fresult = None, fcbs = []\<rparr>"

definition new_future :: "'v fheap \<Rightarrow> 'v fheap \<times> nat" where
  "new_future h = (h\<lparr>futs := futs h @ [empty_future]\<rparr>, length (futs h))"

text \<open>\<open>complete\<close> up to the loop over the callbacks, which it returns.\<close>

definition settle :: "nat \<Rightarrow> 'v gval \<Rightarrow> 'v fheap \<Rightarrow> 'v fheap \<times> ('v callback \<times> 'v gval) list" where
  "settle f v h =
     (if f < length (futs h) \<and> \<not> fdone (futs h ! f) then
        let fu = futs h ! f in
        (h\<lparr>futs := (futs h)[f := \<lparr>fch = [v], fch_closed = True, fdone = True, fresult = Some v, fcbs = []\<rparr>]\<rparr>,
         map (\<lambda>cb. (cb, v)) (fcbs fu))
      else (h, []))"

definition pending :: "'v fheap \<Rightarrow> nat" where
  "pending h = length (filter (\<lambda>fu. \<not> fdone fu) (futs h))"

lemma filter_update_less:
  "i < length xs \<Longrightarrow> P (xs ! i) \<Longrightarrow> \<not> P y \<Longrightarrow> length (filter P (xs[i := y])) < length (filter P xs)"
  by (induction xs arbitrary: i) (auto split: nat.split simp: nth_Cons)

lemma settle_pending:
  assumes "settle f v h = (h', ws)"
  shows "pending h' < pending h \<or> h' = h \<and> ws = []"
  using assms filter_update_less [of f "futs h" "\<lambda>fu. \<not> fdone fu"]
  by (auto simp: settle_def pending_def Let_def split: if_splits)

lemma pending_simps [simp]:
  "pending (h\<lparr>calls := x\<rparr>) = pending h" "pending (h\<lparr>cells := y\<rparr>) = pending h"
  by (simp_all add: pending_def)

function run_work :: "('v callback \<times> 'v gval) list \<Rightarrow> 'v fheap \<Rightarrow> 'v fheap" where
  "run_work [] h = h"
| "run_work ((CBUser k, v) # ws) h = run_work ws (h\<lparr>calls := calls h @ [(k, v)]\<rparr>)"
| "run_work ((CBThen t fn, v) # ws) h =
     (case settle t (fn v) h of (h', ws') \<Rightarrow> run_work (ws' @ ws) h')"
| "run_work ((CBAll a i, v) # ws) h =
     (let c = cells h ! a;
          c' = c\<lparr>all_vals := (all_vals c)[i := v], all_left := all_left c - 1\<rparr>;
          h1 = h\<lparr>cells := (cells h)[a := c']\<rparr>
      in if all_left c' = 0
         then (case settle (all_out c') (Vals (all_vals c')) h1 of (h', ws') \<Rightarrow> run_work (ws' @ ws) h')
         else run_work ws h1)"
  by pat_completeness auto

termination
  by (relation "measures [\<lambda>(ws, h). pending h, \<lambda>(ws, h). length ws]") (auto dest!: settle_pending [OF sym])

definition complete :: "nat \<Rightarrow> 'v gval \<Rightarrow> 'v fheap \<Rightarrow> 'v fheap" where
  "complete f v h = (case settle f v h of (h', ws) \<Rightarrow> run_work ws h')"

definition on_complete :: "nat \<Rightarrow> 'v callback \<Rightarrow> 'v fheap \<Rightarrow> 'v fheap" where
  "on_complete f cb h =
     (if fdone (futs h ! f) then
        (case fresult (futs h ! f) of Some r \<Rightarrow> run_work [(cb, r)] h | None \<Rightarrow> h)
      else h\<lparr>futs := (futs h)[f := (futs h ! f)\<lparr>fcbs := fcbs (futs h ! f) @ [cb]\<rparr>]\<rparr>)"

text \<open>\<open>Await\<close>: \<open>None\<close> while it blocks, and \<open>Some None\<close> is the zero value with false.\<close>

definition await :: "int \<Rightarrow> bool \<Rightarrow> nat \<Rightarrow> 'v fheap \<Rightarrow> 'v fheap \<times> 'v gval option option" where
  "await timeout expired f h =
     (let fu = futs h ! f in
      if fdone fu then (h, Some (fresult fu))
      else case fch fu of
          v # vs \<Rightarrow> (h\<lparr>futs := (futs h)[f := fu\<lparr>fch := vs\<rparr>]\<rparr>, Some (Some v))
        | [] \<Rightarrow> (h, if fch_closed fu then Some None
                   else if 0 < timeout \<and> expired then Some None else None))"

definition then_future :: "nat \<Rightarrow> ('v gval \<Rightarrow> 'v gval) \<Rightarrow> 'v fheap \<Rightarrow> 'v fheap \<times> nat" where
  "then_future fa fn h =
     (case new_future h of (h1, fb) \<Rightarrow> (on_complete fa (CBThen fb fn) h1, fb))"

text \<open>\<open>All\<close>; \<open>zero\<close> is the zero value of the element type, with which \<open>make\<close> fills the
  slice.\<close>

definition all_futures :: "'v gval \<Rightarrow> nat list \<Rightarrow> 'v fheap \<Rightarrow> 'v fheap \<times> nat" where
  "all_futures zero fs h =
     (case new_future h of (h1, out) \<Rightarrow>
        if fs = [] then (complete out (Vals []) h1, out)
        else let a = length (cells h1);
                 h2 = h1\<lparr>cells := cells h1 @ [\<lparr>all_left = of_nat (length fs), all_vals = replicate (length fs) zero, all_out = out\<rparr>]\<rparr>
             in (fold (\<lambda>(i, f). on_complete f (CBAll a i)) (enumerate 0 fs) h2, out))"

subsection \<open>\<open>All\<close>\<close>

text \<open>The heap while the futures of one call of \<open>All\<close> are being completed; those in \<open>S\<close> are
  complete.\<close>

definition settled :: "'v gval \<Rightarrow> 'v fut" where
  "settled v = \<lparr>fch = [v], fch_closed = True, fdone = True, fresult = Some v, fcbs = []\<rparr>"

definition all_inv :: "'v gval \<Rightarrow> nat list \<Rightarrow> nat \<Rightarrow> nat \<Rightarrow> (nat \<Rightarrow> 'v gval) \<Rightarrow> nat set \<Rightarrow> 'v fheap \<Rightarrow> bool" where
  "all_inv zero fs out a val S h \<longleftrightarrow>
     a < length (cells h) \<and> out < length (futs h) \<and> out \<notin> set fs \<and> (\<forall>f \<in> set fs. f < length (futs h)) \<and>
     cells h ! a = \<lparr>all_left = of_nat (length fs - card S), all_vals = map (\<lambda>f. if f \<in> S then val f else zero) fs,
       all_out = out\<rparr> \<and>
     (\<forall>i < length fs. futs h ! (fs ! i) =
        (if fs ! i \<in> S then settled (val (fs ! i)) else empty_future\<lparr>fcbs := [CBAll a i]\<rparr>)) \<and>
     futs h ! out = (if S = set fs then settled (Vals (map val fs)) else empty_future)"

lemma all_left_step:
  assumes "k < n" and "n < 2 ^ 32"
  shows "of_nat (n - k) - 1 = (of_nat (n - Suc k) :: u32)" and "(of_nat (n - Suc k) :: u32) = 0 \<longleftrightarrow> Suc k = n"
proof -
  have "of_nat (n - k) = (of_nat (Suc (n - Suc k)) :: u32)"
    using assms(1) by (simp add: Suc_diff_Suc del: of_nat_Suc)
  then show "of_nat (n - k) - 1 = (of_nat (n - Suc k) :: u32)" by simp
  have "(of_nat (n - Suc k) :: u32) = 0 \<longleftrightarrow> unat (of_nat (n - Suc k) :: u32) = 0"
    by (simp add: unat_eq_zero)
  also have "unat (of_nat (n - Suc k) :: u32) = n - Suc k"
    by (subst unat_of_nat) (use assms in simp)
  finally show "(of_nat (n - Suc k) :: u32) = 0 \<longleftrightarrow> Suc k = n"
    using assms(1) by auto
qed

lemma all_inv_complete:
  assumes inv: "all_inv zero fs out a val S h" and d: "distinct fs" and n: "length fs < 2 ^ 32"
    and S: "S \<subseteq> set fs" and f: "f \<in> set fs" "f \<notin> S"
  shows "all_inv zero fs out a val (insert f S) (complete f (val f) h)"
proof -
  obtain i where i: "i < length fs" "fs ! i = f" using f(1) by (auto simp: in_set_conv_nth)
  have ix: "fs ! j = f \<longleftrightarrow> j = i" if "j < length fs" for j
    using that i d by (auto simp: nth_eq_iff_index_eq)
  let ?n = "length fs" and ?vals = "map (\<lambda>g. if g \<in> insert f S then val g else zero) fs"
  let ?h1 = "h\<lparr>futs := (futs h)[f := settled (val f)]\<rparr>"
  let ?c = "\<lparr>all_left = of_nat (?n - Suc (card S)), all_vals = ?vals, all_out = out\<rparr>"
  let ?h2 = "?h1\<lparr>cells := (cells h)[a := ?c]\<rparr>"
  have fin: "finite S" using S finite_subset by blast
  have card: "card S < ?n"
    using psubset_card_mono [of "set fs" S] S f distinct_card [OF d] by (metis List.finite_set psubsetI)
  have lt: "f < length (futs h)" "out < length (futs h)" "a < length (cells h)" "out \<noteq> f"
    using inv f(1) by (auto simp: all_inv_def)
  have fu: "futs h ! f = empty_future\<lparr>fcbs := [CBAll a i]\<rparr>"
    using inv i f(2) by (auto simp: all_inv_def)
  have vals: "(map (\<lambda>g. if g \<in> S then val g else zero) fs)[i := val f] = ?vals"
    using i ix by (intro nth_equalityI) (auto simp: nth_list_update)
  have cell: "cells h ! a = \<lparr>all_left = of_nat (?n - card S), all_vals = map (\<lambda>g. if g \<in> S then val g else zero) fs,
       all_out = out\<rparr>"
    using inv by (simp add: all_inv_def)
  note left = all_left_step [OF card n]
  have done_out: "futs h ! out = empty_future"
    using inv f by (auto simp: all_inv_def)
  have whole: "Suc (card S) = ?n \<longleftrightarrow> insert f S = set fs"
    using S f fin distinct_card [OF d] by (metis List.finite_set card_insert_disjoint card_subset_eq insert_subset)
  have full: "map (\<lambda>g. if g \<in> set fs then val g else zero) fs = map val fs"
    by simp
  have c: "(cells ?h1 ! a)\<lparr>all_vals := (all_vals (cells ?h1 ! a))[i := val f], all_left := all_left (cells ?h1 ! a) - 1\<rparr> = ?c"
    using cell vals left(1) by simp
  have "settle f (val f) h = (?h1, [(CBAll a i, val f)])"
    using lt(1) fu by (simp add: settle_def settled_def empty_future_def)
  then have "complete f (val f) h = run_work [(CBAll a i, val f)] ?h1"
    by (simp only: complete_def prod.case)
  also have "\<dots> = (if all_left ?c = 0
      then (case settle (all_out ?c) (Vals (all_vals ?c)) ?h2 of (h', ws') \<Rightarrow> run_work (ws' @ []) h') else run_work [] ?h2)"
    by (simp only: run_work.simps Let_def c) simp
  also have "\<dots> = (if insert f S = set fs
      then (case settle out (Vals ?vals) ?h2 of (h', ws') \<Rightarrow> run_work ws' h') else ?h2)"
    using left(2) whole by simp
  finally have run: "complete f (val f) h =
      (if insert f S = set fs then ?h2\<lparr>futs := (futs ?h2)[out := settled (Vals (map val fs))]\<rparr> else ?h2)"
    using lt done_out by (simp add: settle_def settled_def empty_future_def full)
  have others: "futs ?h2 ! (fs ! j) = (if fs ! j \<in> insert f S then settled (val (fs ! j))
      else empty_future\<lparr>fcbs := [CBAll a j]\<rparr>)" if "j < length fs" for j
    using inv that ix [OF that] i lt(1) by (cases "j = i") (auto simp: all_inv_def)
  have "out \<noteq> fs ! j" if "j < length fs" for j
    using inv that by (auto simp: all_inv_def)
  then show ?thesis
    using inv others lt fin f(2) done_out by (auto simp: run all_inv_def)
qed

lemma all_inv_fold:
  assumes "all_inv zero fs out a val S h" and "distinct fs" and "length fs < 2 ^ 32"
    and "S \<subseteq> set fs" and "distinct fo" and "set fo \<subseteq> set fs - S"
  shows "all_inv zero fs out a val (S \<union> set fo) (fold (\<lambda>f. complete f (val f)) fo h)"
  using assms
proof (induction fo arbitrary: S h)
  case (Cons f fo)
  have "all_inv zero fs out a val (insert f S) (complete f (val f) h)"
    using Cons.prems by (intro all_inv_complete) auto
  then have "all_inv zero fs out a val (insert f S \<union> set fo) (fold (\<lambda>f. complete f (val f)) fo (complete f (val f) h))"
    using Cons.prems by (intro Cons.IH) auto
  then show ?case by simp
qed simp

text \<open>Registering the closures.\<close>

lemma fold_register:
  assumes "distinct fs" and "\<forall>f \<in> set fs. f < length (futs h) \<and> futs h ! f = empty_future"
  shows "let h' = fold (\<lambda>(i, f). on_complete f (CBAll a i)) (enumerate n fs) h in
    cells h' = cells h \<and> length (futs h') = length (futs h) \<and>
    (\<forall>i < length fs. futs h' ! (fs ! i) = empty_future\<lparr>fcbs := [CBAll a (n + i)]\<rparr>) \<and>
    (\<forall>g. g \<notin> set fs \<longrightarrow> futs h' ! g = futs h ! g)"
  using assms
proof (induction fs arbitrary: n h)
  case (Cons f fs)
  let ?h = "h\<lparr>futs := (futs h)[f := empty_future\<lparr>fcbs := [CBAll a n]\<rparr>]\<rparr>"
  have one: "on_complete f (CBAll a n) h = ?h"
    using Cons.prems by (simp add: on_complete_def empty_future_def)
  have "\<forall>g \<in> set fs. g < length (futs ?h) \<and> futs ?h ! g = empty_future"
    using Cons.prems by (auto simp: nth_list_update)
  note ih = Cons.IH [OF _ this, of "Suc n", unfolded Let_def]
  show ?case
    unfolding Let_def using ih Cons.prems one
    by (auto simp: nth_Cons nth_list_update split: nat.split)
qed simp

lemma all_futures_inv:
  assumes "distinct fs" and "fs \<noteq> []" and "\<forall>f \<in> set fs. f < length (futs h) \<and> futs h ! f = empty_future"
    and "all_futures zero fs h = (h', out)"
  shows "all_inv zero fs out (length (cells h)) val {} h'"
proof -
  let ?h1 = "h\<lparr>futs := futs h @ [empty_future],
    cells := cells h @ [\<lparr>all_left = of_nat (length fs), all_vals = replicate (length fs) zero, all_out = length (futs h)\<rparr>]\<rparr>"
  have h': "h' = fold (\<lambda>(i, f). on_complete f (CBAll (length (cells h)) i)) (enumerate 0 fs) ?h1"
    and out: "out = length (futs h)"
    using assms(2,4) by (auto simp: all_futures_def new_future_def Let_def)
  have fresh: "\<forall>f \<in> set fs. f < length (futs ?h1) \<and> futs ?h1 ! f = empty_future"
    using assms(3) by (auto simp: nth_append)
  have "out \<notin> set fs" using assms(3) out by auto
  moreover have "replicate (length fs) zero = map (\<lambda>_. zero) fs" by (simp add: map_replicate_const)
  ultimately show ?thesis
    using fold_register [OF assms(1) fresh, of "length (cells h)" 0, unfolded Let_def, folded h'] assms(2,3) out
    by (auto simp: all_inv_def nth_append)
qed

subsection \<open>Concurrent calls on one future\<close>

text \<open>One step is one atomic access, channel operation or critical section. A callback is
  named by a token that is used for one call of \<open>OnComplete\<close> only. \<open>winner\<close> is the value of
  the call of \<open>complete\<close> that wins the swap, \<open>ran\<close> logs the callbacks that were run and \<open>got\<close>
  the answers of \<open>Await\<close> (\<open>None\<close>: zero value and false).\<close>

datatype 'v fpc =
    FIdle
  | FSwap 'v              \<comment> \<open>before \<open>f.done.Swap(true)\<close>\<close>
  | FStore 'v             \<comment> \<open>before \<open>f.result.Store\<close>\<close>
  | FSend 'v              \<comment> \<open>before \<open>f.ch <- v\<close>\<close>
  | FClose 'v             \<comment> \<open>before \<open>close(f.ch)\<close>\<close>
  | FTake 'v              \<comment> \<open>before the critical section that takes the callbacks\<close>
  | FRun 'v "nat list"    \<comment> \<open>callbacks still to run\<close>
  | FOnLoad nat           \<comment> \<open>\<open>OnComplete\<close>, before \<open>f.done.Load()\<close>\<close>
  | FOnResult nat         \<comment> \<open>before \<open>f.result.Load()\<close>\<close>
  | FOnAppend nat         \<comment> \<open>before the critical section that registers the callback\<close>
  | FAwLoad               \<comment> \<open>\<open>Await\<close>, before \<open>f.done.Load()\<close>\<close>
  | FAwResult             \<comment> \<open>before \<open>f.result.Load()\<close>\<close>
  | FAwRecv               \<comment> \<open>blocked in the receive\<close>

record 'v fsys =
  cdone :: bool
  cresult :: "'v option"
  cbuf :: "'v list"
  cclosed :: bool
  ccbs :: "nat list"
  fpcs :: "nat \<Rightarrow> 'v fpc"
  used :: "nat set"
  winner :: "'v option"
  ran :: "(nat \<times> 'v) list"
  got :: "(nat \<times> 'v option) list"

definition goto_fpc :: "'v fsys \<Rightarrow> nat \<Rightarrow> 'v fpc \<Rightarrow> 'v fsys" where
  "goto_fpc s t pc = s\<lparr>fpcs := (fpcs s)(t := pc)\<rparr>"

fun fut_advance :: "'v fsys \<Rightarrow> nat \<Rightarrow> 'v fpc \<Rightarrow> 'v fsys" where
  "fut_advance s t FIdle = s"
| "fut_advance s t (FSwap v) =
     (if cdone s then goto_fpc s t FIdle
      else goto_fpc (s\<lparr>cdone := True, winner := Some v\<rparr>) t (FStore v))"
| "fut_advance s t (FStore v) = goto_fpc (s\<lparr>cresult := Some v\<rparr>) t (FSend v)"
| "fut_advance s t (FSend v) = goto_fpc (s\<lparr>cbuf := cbuf s @ [v]\<rparr>) t (FClose v)"
| "fut_advance s t (FClose v) = goto_fpc (s\<lparr>cclosed := True\<rparr>) t (FTake v)"
| "fut_advance s t (FTake v) = goto_fpc (s\<lparr>ccbs := []\<rparr>) t (FRun v (ccbs s))"
| "fut_advance s t (FRun v []) = goto_fpc s t FIdle"
| "fut_advance s t (FRun v (k # ks)) = goto_fpc (s\<lparr>ran := ran s @ [(k, v)]\<rparr>) t (FRun v ks)"
| "fut_advance s t (FOnLoad k) = goto_fpc s t (if cdone s then FOnResult k else FOnAppend k)"
| "fut_advance s t (FOnResult k) =
     (case cresult s of
        Some v \<Rightarrow> goto_fpc (s\<lparr>ran := ran s @ [(k, v)]\<rparr>) t FIdle
      | None \<Rightarrow> goto_fpc s t FIdle)"
| "fut_advance s t (FOnAppend k) = goto_fpc (s\<lparr>ccbs := ccbs s @ [k]\<rparr>) t FIdle"
| "fut_advance s t FAwLoad = goto_fpc s t (if cdone s then FAwResult else FAwRecv)"
| "fut_advance s t FAwResult = goto_fpc (s\<lparr>got := got s @ [(t, cresult s)]\<rparr>) t FIdle"
| "fut_advance s t FAwRecv =
     (case cbuf s of
        v # vs \<Rightarrow> goto_fpc (s\<lparr>cbuf := vs, got := got s @ [(t, Some v)]\<rparr>) t FIdle
      | [] \<Rightarrow> if cclosed s then goto_fpc (s\<lparr>got := got s @ [(t, None)]\<rparr>) t FIdle else s)"

inductive fut_step :: "'v fsys \<Rightarrow> 'v fsys \<Rightarrow> bool" where
  call_complete: "fpcs s t = FIdle \<Longrightarrow> fut_step s (goto_fpc s t (FSwap v))"
| call_on: "fpcs s t = FIdle \<Longrightarrow> k \<notin> used s \<Longrightarrow> fut_step s (goto_fpc (s\<lparr>used := insert k (used s)\<rparr>) t (FOnLoad k))"
| call_await: "fpcs s t = FIdle \<Longrightarrow> fut_step s (goto_fpc s t FAwLoad)"
| advance: "fpcs s t = pc \<Longrightarrow> fut_step s (fut_advance s t pc)"
| await_timeout: "fpcs s t = FAwRecv \<Longrightarrow> fut_step s (goto_fpc (s\<lparr>got := got s @ [(t, None)]\<rparr>) t FIdle)"

definition fut_start :: "'v fsys \<Rightarrow> bool" where
  "fut_start s \<longleftrightarrow> s = \<lparr>cdone = False, cresult = None, cbuf = [], cclosed = False, ccbs = [], fpcs = \<lambda>_. FIdle,
     used = {}, winner = None, ran = [], got = []\<rparr>"

text \<open>The value that a goroutine past the swap carries.\<close>

fun carries :: "'v fpc \<Rightarrow> 'v option" where
  "carries (FStore v) = Some v"
| "carries (FSend v) = Some v"
| "carries (FClose v) = Some v"
| "carries (FTake v) = Some v"
| "carries (FRun v ks) = Some v"
| "carries _ = None"

definition one_value :: "'v fsys \<Rightarrow> bool" where
  "one_value s \<longleftrightarrow> (cdone s \<longleftrightarrow> winner s \<noteq> None) \<and>
     (\<forall>v. cresult s = Some v \<longrightarrow> winner s = Some v) \<and> (\<forall>v \<in> set (cbuf s). winner s = Some v) \<and>
     (\<forall>t v. carries (fpcs s t) = Some v \<longrightarrow> winner s = Some v) \<and>
     (\<forall>(k, v) \<in> set (ran s). winner s = Some v) \<and> (\<forall>(t, r) \<in> set (got s). r \<noteq> None \<longrightarrow> winner s = r)"

lemma one_value_goto:
  assumes "one_value s" and "\<forall>v. carries pc = Some v \<longrightarrow> winner s = Some v"
  shows "one_value (goto_fpc s t pc)"
  using assms by (auto simp: one_value_def goto_fpc_def)

lemma fut_advance_value:
  assumes inv: "one_value s" and pc: "fpcs s t = pc"
  shows "one_value (fut_advance s t pc)"
proof -
  have car: "winner s = Some v" if "carries pc = Some v" for v
    using inv pc that by (auto simp: one_value_def)
  show ?thesis
  proof (cases pc)
    case (FSwap v)
    show ?thesis
    proof (cases "cdone s")
      case True
      then show ?thesis using FSwap inv by (simp add: one_value_goto)
    next
      case False
      then have "winner s = None" using inv by (simp add: one_value_def)
      with inv False FSwap show ?thesis
        by (fastforce simp: one_value_def goto_fpc_def)
    qed
  next
    case (FRun v ks)
    then show ?thesis
      using inv car by (cases ks) (auto simp: one_value_def goto_fpc_def)
  next
    case (FOnResult k)
    then show ?thesis
      using inv by (cases "cresult s") (auto simp: one_value_def goto_fpc_def)
  next
    case FAwRecv
    then show ?thesis
      using inv by (cases "cbuf s") (auto simp: one_value_def goto_fpc_def)
  qed (use inv car in \<open>auto simp: one_value_def goto_fpc_def\<close>)
qed

interpretation futsys: inductive_invariant fut_start fut_step one_value
proof unfold_locales
  fix s :: "'v fsys"
  assume "fut_start s"
  then show "one_value s" by (auto simp: fut_start_def one_value_def)
next
  fix s s' :: "'v fsys"
  assume inv: "one_value s" and "fut_step s s'"
  from this(2) show "one_value s'"
  proof cases
    case (advance t pc)
    then show ?thesis using fut_advance_value [OF inv advance(2)] by (simp only:)
  qed (use inv in \<open>auto simp: one_value_def goto_fpc_def\<close>)
qed

text \<open>A registered callback that nobody will run any more: the future is complete and its
  callbacks have been taken.\<close>

fun harmless :: "nat \<Rightarrow> 'v fpc \<Rightarrow> bool" where
  "harmless k (FStore v) = False"
| "harmless k (FSend v) = False"
| "harmless k (FClose v) = False"
| "harmless k (FTake v) = False"
| "harmless k (FRun v ks) = (k \<notin> set ks)"
| "harmless k (FOnLoad j) = (j \<noteq> k)"
| "harmless k (FOnResult j) = (j \<noteq> k)"
| "harmless k (FOnAppend j) = (j \<noteq> k)"
| "harmless k _ = True"

definition forgotten :: "nat \<Rightarrow> 'v fsys \<Rightarrow> bool" where
  "forgotten k s \<longleftrightarrow> cdone s \<and> k \<in> used s \<and> k \<notin> fst ` set (ran s) \<and> (\<forall>t. harmless k (fpcs s t))"

lemma fut_advance_forgotten:
  assumes "forgotten k s" and "fpcs s t = pc"
  shows "forgotten k (fut_advance s t pc)"
proof -
  have h: "harmless k pc" using assms by (auto simp: forgotten_def)
  show ?thesis
  proof (cases pc)
    case (FRun v ks)
    then show ?thesis using assms h by (cases ks) (auto simp: forgotten_def goto_fpc_def)
  qed (use assms h in \<open>auto simp: forgotten_def goto_fpc_def split: option.splits list.splits\<close>)
qed

interpretation forget: inductive_invariant "forgotten k" fut_step "forgotten k"
  for k
proof unfold_locales
  fix s s' :: "'a fsys"
  assume inv: "forgotten k s" and "fut_step s s'"
  from this(2) show "forgotten k s'"
  proof cases
    case (advance t pc)
    then show ?thesis using fut_advance_forgotten [OF inv advance(2)] by (simp only:)
  qed (use inv in \<open>auto simp: forgotten_def goto_fpc_def\<close>)
qed

datatype 'v fact = FCall nat "'v fpc" | FGo nat

fun fut_act :: "'v fsys \<Rightarrow> 'v fact \<Rightarrow> 'v fsys" where
  "fut_act s (FCall t (FSwap v)) = (case fpcs s t of FIdle \<Rightarrow> goto_fpc s t (FSwap v) | _ \<Rightarrow> s)"
| "fut_act s (FCall t (FOnLoad k)) =
     (case fpcs s t of FIdle \<Rightarrow> if k \<in> used s then s else goto_fpc (s\<lparr>used := insert k (used s)\<rparr>) t (FOnLoad k)
      | _ \<Rightarrow> s)"
| "fut_act s (FCall t FAwLoad) = (case fpcs s t of FIdle \<Rightarrow> goto_fpc s t FAwLoad | _ \<Rightarrow> s)"
| "fut_act s (FCall t _) = s"
| "fut_act s (FGo t) = fut_advance s t (fpcs s t)"

lemma fut_act_step: "fut_act s a = s \<or> fut_step s (fut_act s a)"
proof (cases a)
  case (FCall t pc)
  then show ?thesis by (cases pc) (auto intro: fut_step.intros split: fpc.splits)
qed (auto intro: fut_step.intros)

definition fut0 :: "nat fsys" where
  "fut0 = \<lparr>cdone = False, cresult = None, cbuf = [], cclosed = False, ccbs = [], fpcs = \<lambda>_. FIdle,
     used = {}, winner = None, ran = [], got = []\<rparr>"

lemma fut0_reach: "reach fut_start fut_step (run_schedule fut_act fut0 acts)"
proof -
  have "reach fut_start fut_step fut0"
    by (rule reach_start) (simp add: fut_start_def fut0_def)
  then show ?thesis
    using reach_run_schedule [where f = fut_act and s = fut0] fut_act_step by blast
qed

text \<open>Two goroutines block in \<open>Await\<close>, a third is about to register callback 9 when a fourth
  completes the future.\<close>

definition fut_race :: "nat fact list" where
  "fut_race = [FCall 1 FAwLoad, FGo 1, FCall 2 FAwLoad, FGo 2, FCall 3 (FOnLoad 9), FGo 3,
     FCall 0 (FSwap 7), FGo 0, FGo 0, FGo 0, FGo 0, FGo 0, FGo 0, FGo 3, FGo 1, FGo 2]"

lemma fut_race_end:
  "run_schedule fut_act fut0 fut_race =
     \<lparr>cdone = True, cresult = Some 7, cbuf = [], cclosed = True, ccbs = [9],
      fpcs = (\<lambda>_. FIdle)(1 := FIdle, 2 := FIdle, 3 := FIdle, 0 := FIdle), used = {9}, winner = Some 7, ran = [],
      got = [(1, Some 7), (2, None)]\<rparr>"
  by (simp add: fut_race_def fut0_def goto_fpc_def fun_upd_twist)

subsection \<open>Properties\<close>

text \<open>C17. A future has one value. However calls of \<open>complete\<close>, \<open>OnComplete\<close> and \<open>Await\<close>
  interleave, there is one value such that every callback that runs receives it, every
  \<open>Await\<close> that succeeds returns it, and the stored result is it.\<close>

theorem future_one_value:
  assumes "reach fut_start fut_step s"
  shows "\<exists>w. (\<forall>(k, v) \<in> set (ran s). v = w) \<and> (\<forall>(t, r) \<in> set (got s). r = None \<or> r = Some w) \<and>
    (cresult s = None \<or> cresult s = Some w)"
proof -
  have inv: "one_value s" using futsys.reach_inv [OF assms] .
  note one = inv [unfolded one_value_def, THEN conjunct2, THEN conjunct2, THEN conjunct2, THEN conjunct2]
  have "v = the (winner s)" if "(k, v) \<in> set (ran s)" for k v
    using one [THEN conjunct1, THEN bspec, OF that] by simp
  moreover have "r = None \<or> r = Some (the (winner s))" if "(t, r) \<in> set (got s)" for t r
    using one [THEN conjunct2, THEN bspec, OF that] by (cases "winner s") auto
  moreover have "cresult s = None \<or> cresult s = Some (the (winner s))"
    using inv [unfolded one_value_def, THEN conjunct2, THEN conjunct1] by (cases "cresult s") auto
  ultimately show ?thesis by blast
qed

theorem future_one_value_witness:
  "\<exists>w. (\<forall>(t, r) \<in> set (got (run_schedule fut_act fut0 fut_race)). r = None \<or> r = Some w) \<and>
     got (run_schedule fut_act fut0 fut_race) = [(1, Some 7), (2, None)]"
  using future_one_value [OF fut0_reach [of fut_race]] by (auto simp: fut_race_end)


text \<open>C36. \<open>All\<close> delivers the results in the order of its arguments. Take new futures, call
  \<open>All\<close> on them, and complete some of them in any order: the resulting future is complete if
  and only if all of them are, and its value is then the slice of their values in argument
  order, whatever the order of completion was.\<close>

theorem future_all:
  assumes "distinct fs" and "\<forall>f \<in> set fs. f < length (futs h) \<and> futs h ! f = empty_future"
    and "length fs < 2 ^ 32" and "all_futures zero fs h = (h1, out)"
    and "distinct fo" and "set fo \<subseteq> set fs"
  shows "fresult (futs (fold (\<lambda>f. complete f (val f)) fo h1) ! out) =
    (if set fo = set fs then Some (Vals (map val fs)) else None)"
proof (cases "fs = []")
  case True
  then show ?thesis
    using assms(4,6) by (auto simp: all_futures_def new_future_def complete_def settle_def empty_future_def Let_def)
next
  case False
  have "all_inv zero fs out (length (cells h)) val {} h1"
    using all_futures_inv [OF assms(1) False assms(2,4)] .
  then have "all_inv zero fs out (length (cells h)) val ({} \<union> set fo) (fold (\<lambda>f. complete f (val f)) fo h1)"
    using assms by (intro all_inv_fold) auto
  then show ?thesis
    by (simp add: all_inv_def settled_def empty_future_def)
qed

definition heap3 :: "nat fheap" where
  "heap3 = \<lparr>futs = [empty_future, empty_future, empty_future], cells = [], calls = []\<rparr>"

theorem future_all_witness:
  "fresult (futs (fold (\<lambda>f. complete f (Val (10 * f))) [2, 0, 1] (fst (all_futures (Val 0) [0, 1, 2] heap3))) ! 3) =
     Some (Vals [Val 0, Val 10, Val 20])"
proof -
  have f: "\<forall>f \<in> set [0, 1, 2]. f < length (futs heap3) \<and> futs heap3 ! f = empty_future"
    by (simp add: heap3_def)
  have a: "all_futures (Val 0) [0, 1, 2] heap3 = (fst (all_futures (Val 0) [0, 1, 2] heap3), 3)"
    by (simp add: all_futures_def new_future_def heap3_def Let_def)
  have "set [2, 0, 1] = set [0, 1, 2 :: nat]" by auto
  then show ?thesis
    using future_all [OF _ f _ a, of "[2, 0, 1]" "\<lambda>f. Val (10 * f)"] by simp
qed

end
