(* ===== verification/Registry.thy ===== *)
theory Registry
  imports Main
begin

text \<open>
  \<open>actor/registry.go\<close>: actors by id, and ids by name. Each method runs under the lock, so it
  is one step. An actor is an interface value, \<open>None\<close> when it is \<open>nil\<close>.
\<close>

subsection \<open>State and operations\<close>

record 'a registry =
  by_id :: "string \<rightharpoonup> 'a option"
  by_name :: "string \<rightharpoonup> string"

definition new_registry :: "'a registry" where
  "new_registry = \<lparr>by_id = Map.empty, by_name = Map.empty\<rparr>"

definition register :: "string \<Rightarrow> string \<Rightarrow> 'a option \<Rightarrow> 'a registry \<Rightarrow> 'a registry" where
  "register aid name a r =
     (let r' = r\<lparr>by_id := (by_id r)(aid \<mapsto> a)\<rparr>
      in if name \<noteq> [] then r'\<lparr>by_name := (by_name r')(name \<mapsto> aid)\<rparr> else r')"

definition unregister :: "string \<Rightarrow> string \<Rightarrow> 'a registry \<Rightarrow> 'a registry" where
  "unregister aid name r =
     (let r' = r\<lparr>by_id := (by_id r)(aid := None)\<rparr>
      in if name \<noteq> [] then r'\<lparr>by_name := (by_name r')(name := None)\<rparr> else r')"

definition reg_get :: "string \<Rightarrow> 'a registry \<Rightarrow> 'a option \<times> bool" where
  "reg_get aid r = (case by_id r aid of None \<Rightarrow> (None, False) | Some a \<Rightarrow> (a, True))"

definition reg_get_by_name :: "string \<Rightarrow> 'a registry \<Rightarrow> 'a option \<times> bool" where
  "reg_get_by_name name r =
     (case by_name r name of
        None \<Rightarrow> (None, False)
      | Some aid \<Rightarrow> (let a = (case by_id r aid of None \<Rightarrow> None | Some a \<Rightarrow> a) in (a, a \<noteq> None)))"

definition snapshot :: "'a registry \<Rightarrow> (string \<rightharpoonup> 'a option)" where
  "snapshot r = (\<lambda>aid. by_id r aid)"

subsection \<open>The contract of a directory\<close>

text \<open>What the delivery of messages relies on: an actor is found under its id from the moment
  it is entered until it is removed, whatever happens to other ids.\<close>

locale directory =
  fixes enter :: "'k \<Rightarrow> 'n \<Rightarrow> 'v \<Rightarrow> 'd \<Rightarrow> 'd" and remove :: "'k \<Rightarrow> 'n \<Rightarrow> 'd \<Rightarrow> 'd"
    and find_entry :: "'k \<Rightarrow> 'd \<Rightarrow> 'v option"
  assumes find_enter: "find_entry k (enter k' n v d) = (if k = k' then Some v else find_entry k d)"
    and find_remove: "find_entry k (remove k' n d) = (if k = k' then None else find_entry k d)"

datatype ('k, 'n, 'v) dir_op = Enter 'k 'n 'v | Remove 'k 'n

fun dir_key :: "('k, 'n, 'v) dir_op \<Rightarrow> 'k" where
  "dir_key (Enter k n v) = k"
| "dir_key (Remove k n) = k"

fun dir_value :: "('k, 'n, 'v) dir_op \<Rightarrow> 'v option" where
  "dir_value (Enter k n v) = Some v"
| "dir_value (Remove k n) = None"

text \<open>What a history of calls leaves under a key: the last call that names the key
  decides.\<close>

definition last_word :: "'k \<Rightarrow> ('k, 'n, 'v) dir_op list \<Rightarrow> 'v option \<Rightarrow> 'v option" where
  "last_word k ops old = (case filter (\<lambda>op. dir_key op = k) ops of [] \<Rightarrow> old | xs \<Rightarrow> dir_value (last xs))"

context directory
begin

fun dir_step :: "('k, 'n, 'v) dir_op \<Rightarrow> 'd \<Rightarrow> 'd" where
  "dir_step (Enter k n v) d = enter k n v d"
| "dir_step (Remove k n) d = remove k n d"

lemma find_step: "find_entry k (dir_step op d) = (if dir_key op = k then dir_value op else find_entry k d)"
  by (cases op) (auto simp: find_enter find_remove)

lemma find_history: "find_entry k (fold dir_step ops d) = last_word k ops (find_entry k d)"
proof (induction ops arbitrary: d)
  case Nil
  then show ?case by (simp add: last_word_def)
next
  case (Cons op ops)
  then show ?case
    by (auto simp: last_word_def find_step split: list.splits)
qed

end

definition reg_find :: "string \<Rightarrow> 'a registry \<Rightarrow> 'a option option" where
  "reg_find aid r = (case reg_get aid r of (a, ok) \<Rightarrow> if ok then Some a else None)"

lemma reg_find_by_id: "reg_find aid r = by_id r aid"
  by (simp add: reg_find_def reg_get_def split: option.split)

interpretation regdir: directory register unregister reg_find
  by unfold_locales (auto simp: reg_find_by_id register_def unregister_def Let_def)

fun reg_step :: "(string, string, 'a option) dir_op \<Rightarrow> 'a registry \<Rightarrow> 'a registry" where
  "reg_step (Enter aid name a) r = register aid name a r"
| "reg_step (Remove aid name) r = unregister aid name r"

lemma reg_step_dir: "reg_step = regdir.dir_step"
proof (intro ext)
  fix op and r :: "'a registry"
  show "reg_step op r = regdir.dir_step op r" by (cases op) simp_all
qed

text \<open>A name resolves only through the id it was last bound to.\<close>

lemma get_by_name_register:
  assumes "name \<noteq> []"
  shows "reg_get_by_name name (register aid name (Some a) r) = (Some a, True)"
  using assms by (simp add: reg_get_by_name_def register_def Let_def)

lemma get_by_name_other:
  assumes "by_name r name \<noteq> Some aid" and "name \<noteq> name'"
  shows "reg_get_by_name name (register aid name' a r) = reg_get_by_name name r"
    and "reg_get_by_name name (unregister aid name' r) = reg_get_by_name name r"
  using assms by (auto simp: reg_get_by_name_def register_def unregister_def Let_def split: option.splits)

subsection \<open>Properties\<close>



text \<open>Removing an actor also removes a name that meanwhile belongs to another one. Actors 1
  and 2 are started under the same name, which then resolves to actor 2; when actor 1 stops,
  the name resolves to nobody although actor 2 is still registered.\<close>

theorem unregister_steals_name:
  assumes "id1 \<noteq> id2" and "name \<noteq> []"
    and "r = register id2 name (Some b) (register id1 name (Some a) new_registry)"
  shows "reg_get_by_name name r = (Some b, True) \<and>
    reg_get id2 (unregister id1 name r) = (Some b, True) \<and>
    reg_get_by_name name (unregister id1 name r) = (None, False)"
  using assms by (simp add: register_def unregister_def reg_get_def reg_get_by_name_def Let_def)

theorem unregister_steals_name_witness:
  "reg_get_by_name ''svc'' (unregister ''1'' ''svc''
     (register ''2'' ''svc'' (Some (20 :: nat)) (register ''1'' ''svc'' (Some 10) new_registry))) = (None, False)"
  using unregister_steals_name [OF _ _ refl, of "''1''" "''2''" "''svc''" "20 :: nat" 10] by simp

end
