(* ===== verification/Metrics.thy ===== *)
theory Metrics
  imports Prelude
begin

text \<open>
  \<open>actor/metrics.go\<close>: the counters and the latency histogram. Durations are nanoseconds. The
  HTTP endpoint is left out; what it prints is the record \<open>report\<close>, in which bounds and sums
  stay integers where the code prints them as decimal seconds.
\<close>

subsection \<open>State and operations\<close>

record metrics =
  started_at :: int
  msg_out :: u64
  msg_in :: u64
  restart_total :: u64
  lat_buckets :: "int list"
  lat_counts :: "u64 list"
  lat_sum :: u64

definition default_buckets :: "int list" where
  "default_buckets = [10000, 50000, 100000, 500000, 1000000, 2000000, 5000000, 10000000, 20000000,
     50000000, 100000000]"

definition new_metrics :: metrics where
  "new_metrics = \<lparr>started_at = 0, msg_out = 0, msg_in = 0, restart_total = 0, lat_buckets = default_buckets,
     lat_counts = replicate (length default_buckets + 1) 0, lat_sum = 0\<rparr>"

definition mark_start :: "int \<Rightarrow> metrics \<Rightarrow> metrics" where
  "mark_start now m = (if started_at m = 0 then m\<lparr>started_at := now div 1000000000\<rparr> else m)"

definition inc_out :: "metrics \<Rightarrow> metrics" where "inc_out m = m\<lparr>msg_out := msg_out m + 1\<rparr>"
definition inc_in :: "metrics \<Rightarrow> metrics" where "inc_in m = m\<lparr>msg_in := msg_in m + 1\<rparr>"
definition inc_restart :: "metrics \<Rightarrow> metrics" where "inc_restart m = m\<lparr>restart_total := restart_total m + 1\<rparr>"

text \<open>\<open>sort.Search\<close>: binary search for the first index at which \<open>f\<close> holds.\<close>

function search_loop :: "(nat \<Rightarrow> bool) \<Rightarrow> nat \<Rightarrow> nat \<Rightarrow> nat" where
  "search_loop f i j =
     (if i < j then let h = (i + j) div 2 in if f h then search_loop f i h else search_loop f (h + 1) j
      else i)"
  by auto
termination
  by (relation "measure (\<lambda>(f, i, j). j - i)") auto

declare search_loop.simps [simp del]

definition sort_search :: "nat \<Rightarrow> (nat \<Rightarrow> bool) \<Rightarrow> nat" where
  "sort_search n f = search_loop f 0 n"

definition observe_latency :: "int \<Rightarrow> metrics \<Rightarrow> metrics" where
  "observe_latency d m =
     (if d < 0 then m
      else let i = sort_search (length (lat_buckets m)) (\<lambda>i. d \<le> lat_buckets m ! i)
           in m\<lparr>lat_sum := lat_sum m + word_of_int d, lat_counts := (lat_counts m)[i := lat_counts m ! i + 1]\<rparr>)"

record report =
  rep_out :: u64
  rep_in :: u64
  rep_backlog :: int
  rep_restarts :: u64
  rep_buckets :: "(int \<times> u64) list"
  rep_inf :: u64
  rep_sum :: u64
  rep_count :: u64
  rep_uptime :: int

fun cumulate :: "u64 \<Rightarrow> u64 list \<Rightarrow> u64 list" where
  "cumulate c [] = []"
| "cumulate c (x # xs) = (c + x) # cumulate (c + x) xs"

text \<open>\<open>writeMetrics\<close>; \<open>lens\<close> are the mailbox lengths of the registered actors.\<close>

definition write_metrics :: "int list \<Rightarrow> int \<Rightarrow> metrics \<Rightarrow> report" where
  "write_metrics lens now m =
     (let k = length (lat_buckets m);
          cums = cumulate 0 (take k (lat_counts m));
          total = (if cums = [] then 0 else last cums) + lat_counts m ! k;
          started = (if started_at m = 0 then now div 1000000000 else started_at m)
      in \<lparr>rep_out = msg_out m, rep_in = msg_in m, rep_backlog = fold (\<lambda>l b. wrap64 (b + l)) lens 0,
          rep_restarts = restart_total m, rep_buckets = zip (lat_buckets m) cums, rep_inf = total,
          rep_sum = lat_sum m, rep_count = total,
          rep_uptime = time_sub now (started * 1000000000)\<rparr>)"

subsection \<open>Binary search\<close>

definition upward :: "nat \<Rightarrow> (nat \<Rightarrow> bool) \<Rightarrow> bool" where
  "upward n f \<longleftrightarrow> (\<forall>a b. a \<le> b \<longrightarrow> b < n \<longrightarrow> f a \<longrightarrow> f b)"

definition splits_at :: "nat \<Rightarrow> (nat \<Rightarrow> bool) \<Rightarrow> nat \<Rightarrow> bool" where
  "splits_at n f r \<longleftrightarrow> r \<le> n \<and> (\<forall>a < n. f a \<longleftrightarrow> r \<le> a)"

lemma search_loop_spec:
  assumes "upward n f" and "i \<le> j" and "j \<le> n"
    and "\<forall>a < i. \<not> f a" and "\<forall>a < n. j \<le> a \<longrightarrow> f a"
  shows "splits_at n f (search_loop f i j)"
  using assms
proof (induction f i j rule: search_loop.induct)
  case (1 f i j)
  show ?case
  proof (cases "i < j")
    case True
    let ?h = "(i + j) div 2"
    have h: "i \<le> ?h" "?h < j" using True by auto
    show ?thesis
    proof (cases "f ?h")
      case fh: True
      have "\<forall>a < n. ?h \<le> a \<longrightarrow> f a"
        using fh 1(3) by (auto simp: upward_def)
      then have "splits_at n f (search_loop f i ?h)"
        using 1(1) [OF True refl fh] 1(3-7) h by simp
      then show ?thesis using True fh by (simp add: search_loop.simps [of f i j] Let_def)
    next
      case False
      have "\<forall>a < Suc ?h. \<not> f a"
        using False 1(3,5) h by (auto simp: upward_def less_Suc_eq_le)
      then have "splits_at n f (search_loop f (?h + 1) j)"
        using 1(2) [OF True refl False] 1(3-7) h by simp
      then show ?thesis using True False by (simp add: search_loop.simps [of f i j] Let_def)
    qed
  next
    case False
    then have "i = j" using 1(4) by simp
    then show ?thesis
      using 1(5-7) by (simp add: search_loop.simps splits_at_def) (meson not_le)
  qed
qed

lemma sort_search_spec: "upward n f \<Longrightarrow> splits_at n f (sort_search n f)"
  unfolding sort_search_def by (rule search_loop_spec) simp_all

subsection \<open>The histogram\<close>

definition bucket_of :: "int list \<Rightarrow> int \<Rightarrow> nat" where
  "bucket_of bs d = sort_search (length bs) (\<lambda>i. d \<le> bs ! i)"

lemma bucket_of_le:
  assumes "sorted bs"
  shows "bucket_of bs d \<le> length bs" and "i < length bs \<Longrightarrow> bucket_of bs d \<le> i \<longleftrightarrow> d \<le> bs ! i"
proof -
  have "upward (length bs) (\<lambda>i. d \<le> bs ! i)"
    using assms by (auto simp: upward_def dest: sorted_nth_mono)
  from sort_search_spec [OF this]
  show "bucket_of bs d \<le> length bs" "i < length bs \<Longrightarrow> bucket_of bs d \<le> i \<longleftrightarrow> d \<le> bs ! i"
    by (auto simp: bucket_of_def splits_at_def)
qed

definition tally :: "nat \<Rightarrow> (int \<Rightarrow> nat) \<Rightarrow> int list \<Rightarrow> u64 list" where
  "tally k idx ds = map (\<lambda>i. of_nat (length (filter (\<lambda>d. idx d = i) ds))) [0..<k]"

lemma tally_snoc:
  "idx d < k \<Longrightarrow> tally k idx (ds @ [d]) = (tally k idx ds)[idx d := tally k idx ds ! idx d + 1]"
  by (rule nth_equalityI) (auto simp: tally_def nth_list_update)

lemma cumulate_Nil_iff [simp]: "cumulate c xs = [] \<longleftrightarrow> xs = []"
  by (cases xs) simp_all

lemma cumulate_append: "cumulate c (xs @ [x]) = cumulate c xs @ [(if xs = [] then c else last (cumulate c xs)) + x]"
  by (induction xs arbitrary: c) auto

lemma cumulate_tally:
  "cumulate 0 (tally k idx ds) = map (\<lambda>i. of_nat (length (filter (\<lambda>d. idx d \<le> i) ds))) [0..<k]"
proof (induction k)
  case 0
  then show ?case by (simp add: tally_def)
next
  case (Suc k)
  have split: "tally (Suc k) idx ds = tally k idx ds @ [of_nat (length (filter (\<lambda>d. idx d = k) ds))]"
    by (simp add: tally_def)
  have ne: "tally k idx ds = [] \<longleftrightarrow> k = 0" by (simp add: tally_def)
  have add: "length (filter (\<lambda>d. idx d \<le> k) ds) =
      (if k = 0 then 0 else length (filter (\<lambda>d. idx d \<le> k - 1) ds)) + length (filter (\<lambda>d. idx d = k) ds)"
    by (induction ds) auto
  show ?case
    unfolding split cumulate_append Suc ne by (auto simp: add last_map)
qed

lemma take_tally: "take k (tally (Suc k) idx ds) = tally k idx ds"
  by (simp add: tally_def)

definition observed :: "int list \<Rightarrow> metrics \<Rightarrow> metrics" where
  "observed ds m = fold observe_latency ds m"

lemma observed_counts:
  assumes "sorted (lat_buckets m)" and "lat_counts m = tally (Suc (length (lat_buckets m))) (bucket_of (lat_buckets m)) es"
    and "lat_sum m = of_int (sum_list es)"
  shows "lat_counts (observed ds m) =
      tally (Suc (length (lat_buckets m))) (bucket_of (lat_buckets m)) (es @ filter (\<lambda>d. 0 \<le> d) ds) \<and>
    lat_sum (observed ds m) = of_int (sum_list (es @ filter (\<lambda>d. 0 \<le> d) ds)) \<and>
    lat_buckets (observed ds m) = lat_buckets m"
  using assms
proof (induction ds arbitrary: m es)
  case Nil
  then show ?case by (simp add: observed_def)
next
  case (Cons d ds)
  show ?case
  proof (cases "d < 0")
    case True
    then show ?thesis
      using Cons.IH [OF Cons.prems] by (simp add: observed_def observe_latency_def)
  next
    case False
    let ?m = "observe_latency d m" and ?i = "bucket_of (lat_buckets m) d"
    have b: "lat_buckets ?m = lat_buckets m"
      using False by (simp add: observe_latency_def Let_def)
    have "?i < Suc (length (lat_buckets m))"
      using bucket_of_le(1) [OF Cons.prems(1), of d] by simp
    then have c: "lat_counts ?m = tally (Suc (length (lat_buckets m))) (bucket_of (lat_buckets m)) (es @ [d])"
      using False Cons.prems(2) by (simp add: observe_latency_def Let_def tally_snoc flip: bucket_of_def)
    have s: "lat_sum ?m = of_int (sum_list (es @ [d]))"
      using False Cons.prems(3) by (simp add: observe_latency_def Let_def)
    have "observed (d # ds) m = observed ds ?m"
      by (simp add: observed_def)
    then show ?thesis
      using Cons.IH [of ?m "es @ [d]"] Cons.prems(1) b c s False by simp
  qed
qed

subsection \<open>Properties\<close>

text \<open>The latency histogram is right. After any sequence of observations on new metrics,
  the line for the bound \<open>b\<close> counts exactly the observations from 0 to \<open>b\<close> (negative ones are
  ignored), the line for infinity and the total count all of them, and the sum is their sum,
  all modulo \<open>2^64\<close>. The binary search that selects a bucket ends, and at the right one.\<close>

theorem metrics_histogram:
  assumes "rep = write_metrics lens now (fold observe_latency ds new_metrics)"
    and "es = filter (\<lambda>d. 0 \<le> d) ds"
  shows "rep_buckets rep = map (\<lambda>b. (b, of_nat (length (filter (\<lambda>d. d \<le> b) es)))) default_buckets \<and>
    rep_inf rep = of_nat (length es) \<and> rep_count rep = of_nat (length es) \<and>
    rep_sum rep = of_int (sum_list es)"
proof -
  let ?m = "observed ds new_metrics" and ?k = "length default_buckets"
  have so: "sorted default_buckets" by (simp add: default_buckets_def)
  have z: "lat_counts new_metrics = tally (Suc (length (lat_buckets new_metrics))) (bucket_of (lat_buckets new_metrics)) []"
    by (simp add: new_metrics_def tally_def map_replicate_const)
  have m: "lat_buckets ?m = default_buckets" "lat_counts ?m = tally (Suc ?k) (bucket_of default_buckets) es"
    "lat_sum ?m = of_int (sum_list es)"
    using observed_counts [OF _ z, of ds] so by (simp_all add: new_metrics_def assms(2))
  note le = bucket_of_le [OF so]
  have cum: "cumulate 0 (take ?k (lat_counts ?m)) =
      map (\<lambda>b. of_nat (length (filter (\<lambda>d. d \<le> b) es))) default_buckets"
    unfolding m take_tally cumulate_tally using le(2) by (intro nth_equalityI) simp_all
  have last: "lat_counts ?m = take ?k (lat_counts ?m) @ [lat_counts ?m ! ?k]"
    by (simp add: m tally_def nth_append)
  have "filter (\<lambda>d. bucket_of default_buckets d \<le> ?k) es = es"
    using le(1) by (simp add: filter_id_conv)
  then have "last (cumulate 0 (lat_counts ?m)) = of_nat (length es)"
    unfolding m(2) cumulate_tally by simp
  moreover have "last (cumulate 0 (lat_counts ?m)) =
      (if cumulate 0 (take ?k (lat_counts ?m)) = [] then 0 else last (cumulate 0 (take ?k (lat_counts ?m)))) + lat_counts ?m ! ?k"
    by (subst last) (simp add: cumulate_append)
  moreover have ne: "default_buckets \<noteq> []" "lat_counts ?m \<noteq> []"
    by (simp_all add: default_buckets_def m tally_def)
  ultimately have tot: "last (map (\<lambda>b. of_nat (length (filter (\<lambda>d. d \<le> b) es))) default_buckets) + lat_counts ?m ! ?k =
      of_nat (length es)"
    using cum by simp
  show ?thesis
    using m(3) cum ne tot
    by (simp add: assms(1) write_metrics_def Let_def m(1) zip_map2 zip_same_conv_map flip: observed_def)
qed

theorem metrics_histogram_witness:
  "rep_inf (write_metrics [] 0 (fold observe_latency [20000, 10000, 999000000, - 5] new_metrics)) = 3 \<and>
   take 2 (rep_buckets (write_metrics [] 0 (fold observe_latency [20000, 10000, 999000000, - 5] new_metrics))) =
     [(10000, 1), (50000, 2)]"
  using metrics_histogram [OF refl refl, of "[]" 0 "[20000, 10000, 999000000, - 5]"]
  by (simp add: default_buckets_def)

end
