(* ===== verification/Ids.thy ===== *)
theory Ids
  imports Prelude "HOL-Library.List_Lexorder" "HOL-Library.Char_ord"
begin

text \<open>
  \<open>actor/id.go\<close>: actor ids. The counter value, the clock reading and the node id (random
  bytes drawn once per process) are arguments.
\<close>

subsection \<open>Operations\<close>

definition hex_digit :: "nat \<Rightarrow> char" where
  "hex_digit n = ''0123456789abcdef'' ! n"

text \<open>\<open>hex.EncodeToString\<close>.\<close>

definition hex_byte :: "u8 \<Rightarrow> string" where
  "hex_byte b = [hex_digit (unat b div 16), hex_digit (unat b mod 16)]"

definition hex_encode :: "u8 list \<Rightarrow> string" where
  "hex_encode bs = concat (map hex_byte bs)"

text \<open>The loops \<open>tmp[i] = byte(ts >> (56 - 8*i))\<close>.\<close>

definition be_bytes :: "u64 \<Rightarrow> u8 list" where
  "be_bytes w = map (\<lambda>i. ucast (drop_bit (56 - 8 * i) w)) [0..<8]"

definition node_id :: "u8 list \<Rightarrow> string" where
  "node_id random = hex_encode random"

definition new_actor_id :: "string \<Rightarrow> int \<Rightarrow> u64 \<Rightarrow> u64 \<times> string" where
  "new_actor_id node now counter =
     (let n = counter + 1; ts = word_of_int now
      in (n, hex_encode (be_bytes ts @ be_bytes n) @ node))"

subsection \<open>Digits\<close>

lemma hex_digit_less: "m < n \<Longrightarrow> n < 16 \<Longrightarrow> hex_digit m < hex_digit n"
proof -
  assume "m < n" "n < 16"
  then have "m \<in> set [0..<16] \<and> n \<in> set [0..<16] \<and> m < n" by simp
  then show ?thesis
    by (auto simp: upt_rec hex_digit_def less_char_def)
qed

lemma hex_digit_inj: "m < 16 \<Longrightarrow> n < 16 \<Longrightarrow> hex_digit m = hex_digit n \<Longrightarrow> m = n"
  using hex_digit_less by (metis less_irrefl linorder_neqE_nat)

lemma unat_u8: "unat (b :: u8) < 256"
  using unsigned_less [of b] by simp

lemma hex_byte_less:
  assumes "a < b"
  shows "hex_byte a @ xs < hex_byte b @ ys"
proof -
  have "unat a < unat b" using assms by (simp add: word_less_nat_alt)
  then have "unat a div 16 < unat b div 16 \<or> unat a div 16 = unat b div 16 \<and> unat a mod 16 < unat b mod 16"
    by (metis div_le_mono div_mult_mod_eq le_neq_implies_less less_imp_le nat_add_left_cancel_less)
  then show ?thesis
    using hex_digit_less unat_u8 [of b] by (auto simp: hex_byte_def)
qed

lemma hex_encode_less:
  assumes "bs < cs" and "length bs = length cs"
  shows "hex_encode bs @ xs < hex_encode cs @ ys"
  using assms(2,1)
proof (induction bs cs rule: list_induct2)
  case (Cons b bs c cs)
  then consider "b < c" | "b = c" "bs < cs" by auto
  then show ?case
  proof cases
    case 1
    then show ?thesis using hex_byte_less by (simp add: hex_encode_def)
  next
    case 2
    then show ?thesis using Cons.IH by (simp add: hex_encode_def hex_byte_def)
  qed
qed simp

lemma hex_encode_inj:
  assumes "hex_encode bs @ xs = hex_encode cs @ ys" and "length bs = length cs"
  shows "bs = cs"
  using hex_encode_less assms by (metis less_irrefl linorder_neqE)

lemma length_hex_encode [simp]: "length (hex_encode bs) = 2 * length bs"
  by (induction bs) (simp_all add: hex_encode_def hex_byte_def)

subsection \<open>Big-endian order is numeric order\<close>

fun be_tail :: "nat \<Rightarrow> u64 \<Rightarrow> u8 list" where
  "be_tail 0 w = []"
| "be_tail (Suc k) w = ucast (drop_bit (8 * k) w) # be_tail k w"

lemma be_bytes_tail: "be_bytes w = be_tail 8 w"
  by (simp add: be_bytes_def upt_rec numeral_eq_Suc)

lemma length_be_bytes [simp]: "length (be_bytes w) = 8"
  by (simp add: be_bytes_def)

lemma unat_byte: "unat (ucast (drop_bit n (w :: u64)) :: u8) = unat w div 2 ^ n mod 256"
proof -
  have "unat (drop_bit n w) = unat w div 2 ^ n"
    by (simp only: unsigned_drop_bit_eq take_bit_length_eq drop_bit_nat_def) (use unat_bound [of w] in \<open>simp add: take_bit_nat_def\<close>)
  moreover have "unat (ucast v :: u8) = unat v mod 256" for v :: u64
    by (simp add: unsigned_ucast_eq take_bit_nat_def)
  ultimately show ?thesis by (simp only:)
qed

lemma mod_digit: "x mod 256 ^ Suc k = (x div 256 ^ k mod 256) * 256 ^ k + x mod (256 :: nat) ^ k"
  using mod_mult2_eq [of x "256 ^ k" 256] by (simp add: mult.commute)

lemma be_tail_less:
  assumes "unat x mod 256 ^ k < unat y mod 256 ^ k"
  shows "be_tail k x < be_tail k y"
  using assms
proof (induction k)
  case (Suc k)
  let ?d = "\<lambda>w. unat w div 256 ^ k mod 256"
  have d: "unat (ucast (drop_bit (8 * k) w) :: u8) = ?d w" for w :: u64
    by (simp add: unat_byte power_mult)
  have m: "unat w mod 256 ^ k < 256 ^ k" for w :: u64 by simp
  have "\<not> ?d y < ?d x"
  proof
    assume "?d y < ?d x"
    then have "Suc (?d y) * 256 ^ k \<le> ?d x * 256 ^ k" by (intro mult_le_mono1) simp
    then have "unat y mod 256 ^ Suc k < unat x mod 256 ^ Suc k"
      using m [of y] unfolding mod_digit mult_Suc by linarith
    with Suc.prems show False by simp
  qed
  then consider "?d x < ?d y" | "?d x = ?d y" "unat x mod 256 ^ k < unat y mod 256 ^ k"
    using Suc.prems unfolding mod_digit by (cases "?d x = ?d y") auto
  then show ?case
  proof cases
    case 1
    then show ?thesis by (simp add: word_less_nat_alt d)
  next
    case 2
    then have "(ucast (drop_bit (8 * k) x) :: u8) = ucast (drop_bit (8 * k) y)"
      by (simp add: word_unat_eq_iff d)
    then show ?thesis using Suc.IH 2 by simp
  qed
qed simp

lemma be_bytes_less: "x < y \<Longrightarrow> be_bytes x < be_bytes y"
proof -
  assume "x < y"
  have "unat w mod 256 ^ 8 = unat w" for w :: u64
    using unat_bound [of w] by simp
  then have "be_tail 8 x < be_tail 8 y"
    using \<open>x < y\<close> by (intro be_tail_less) (simp add: word_less_nat_alt)
  then show ?thesis by (simp only: be_bytes_tail)
qed

lemma be_bytes_inj: "be_bytes x = be_bytes y \<Longrightarrow> x = y"
  using be_bytes_less by (metis less_irrefl linorder_neqE)

lemma new_actor_id_counter:
  assumes "new_actor_id node now1 c1 = (n1, aid)" and "new_actor_id node now2 c2 = (n2, aid)"
  shows "c1 = c2"
proof -
  let ?t1 = "word_of_int now1 :: u64" and ?t2 = "word_of_int now2 :: u64"
  have i: "aid = hex_encode (be_bytes ?t1) @ hex_encode (be_bytes (c1 + 1)) @ node"
      "aid = hex_encode (be_bytes ?t2) @ hex_encode (be_bytes (c2 + 1)) @ node"
    using assms by (auto simp: new_actor_id_def Let_def hex_encode_def)
  then have "be_bytes ?t1 = be_bytes ?t2"
    by (intro hex_encode_inj [of _ "hex_encode (be_bytes (c1 + 1)) @ node" _ "hex_encode (be_bytes (c2 + 1)) @ node"]) simp_all
  with i have "hex_encode (be_bytes (c1 + 1)) @ node = hex_encode (be_bytes (c2 + 1)) @ node" by simp
  then have "be_bytes (c1 + 1) = be_bytes (c2 + 1)"
    by (rule hex_encode_inj) simp
  then show "c1 = c2" using be_bytes_inj by fastforce
qed

subsection \<open>Properties\<close>

text \<open>C34. Ids are unique and sorted by time. Two calls in one process, at whatever clock
  readings, get different ids as long as the counter has not come back to the same value; ids
  are 44 characters long (with the 6 random bytes of the node id); and an id drawn at an
  earlier instant (after 1970, before 2262) is smaller, as a string, than one drawn at a later
  instant, whatever the nodes are.\<close>

theorem actor_ids:
  assumes "new_actor_id (node_id r1) now1 c1 = (n1, id1)" and "new_actor_id (node_id r2) now2 c2 = (n2, id2)"
    and "length r1 = 6"
  shows "length id1 = 44 \<and> n1 = c1 + 1 \<and> (r1 = r2 \<and> c1 \<noteq> c2 \<longrightarrow> id1 \<noteq> id2) \<and>
    (0 \<le> now1 \<and> now1 < now2 \<and> now2 < 2 ^ 63 \<longrightarrow> id1 < id2)"
proof -
  define t1 t2 :: u64 where "t1 = word_of_int now1" and "t2 = word_of_int now2"
  have i1: "id1 = hex_encode (be_bytes t1) @ hex_encode (be_bytes (c1 + 1)) @ node_id r1"
    and i2: "id2 = hex_encode (be_bytes t2) @ hex_encode (be_bytes (c2 + 1)) @ node_id r2"
    and n: "n1 = c1 + 1"
    using assms(1,2) by (auto simp: new_actor_id_def Let_def t1_def t2_def hex_encode_def)
  have len: "length id1 = 44"
    using assms(3) by (simp add: i1 node_id_def)
  have uniq: "c1 = c2" if "id1 = id2" "r1 = r2"
    using new_actor_id_counter assms(1,2) that by blast
  have ord: "id1 < id2" if "0 \<le> now1" "now1 < now2" "now2 < 2 ^ 63"
  proof -
    have "uint t1 = now1" "uint t2 = now2"
      using that by (simp_all add: t1_def t2_def uint_word_of_int)
    then have "t1 < t2" using that by (simp add: word_less_def)
    then show ?thesis
      unfolding i1 i2 by (intro hex_encode_less be_bytes_less) simp_all
  qed
  from len n uniq ord show ?thesis by blast
qed

theorem actor_ids_witness:
  "snd (new_actor_id (node_id [1, 2, 3, 4, 5, 6]) 1000 0) < snd (new_actor_id (node_id [1, 2, 3, 4, 5, 6]) 2000 1)"
proof -
  let ?r = "[1, 2, 3, 4, 5, 6] :: u8 list"
  have "new_actor_id (node_id ?r) 1000 0 = (1, snd (new_actor_id (node_id ?r) 1000 0))"
    "new_actor_id (node_id ?r) 2000 1 = (2, snd (new_actor_id (node_id ?r) 2000 1))"
    by (simp_all add: new_actor_id_def)
  from actor_ids [OF this] show ?thesis by simp
qed

end
