(* ===== verification/System.thy ===== *)
theory System
  imports Mailbox WAL Breaker RateLimit Future Registry Metrics Ids
begin

text \<open>
  The runtime that ties the components together: \<open>actor/types.go\<close>, \<open>envelope.go\<close>,
  \<open>errors.go\<close>, \<open>ref.go\<close>, \<open>system.go\<close> and the routing
  half of \<open>remote.go\<close>. The state of one process is a record; a method is a function on it. A
  call returns, has not returned yet (it waits for the limiter or for room in a mailbox), or
  panics. The life of an actor and the request and response calls are in the theory that
  follows.

  Arguments of the model are the code that is not the repository's: the serializer behind
  the \<open>Serializer\<close> interface, dialling and the remote procedure call, the operating system's
  decision about listening, and the readings of the clock.
\<close>

subsection \<open>Messages, envelopes, errors\<close>

datatype 'a outcome = Returns 'a | Waits | Panics

fun and_then :: "'a outcome \<Rightarrow> ('a \<Rightarrow> 'b outcome) \<Rightarrow> 'b outcome" where
  "and_then (Returns x) f = f x"
| "and_then Waits f = Waits"
| "and_then Panics f = Panics"

datatype aerror =
    ErrActorNotFound | ErrMailboxClosed | ErrMailboxFull | ErrUnknownPolicy | ErrCircuitOpen
  | ErrDegradedToAsync | ErrAskTimeout | ErrRemoteNotEnabled | ErrListen | ErrDial | ErrMarshal | ErrRPC
  | ErrRemote string
  | ErrUser string

text \<open>Any value that travels: a user's own, a \<open>PriorityMessage\<close>, a \<open>*Request\<close> (correlation
  id, payload, reply-to), a \<open>*Response\<close> (correlation id, value, error).\<close>

datatype 'u msg =
    User 'u
  | PriorityMsg u8 "'u msg"
  | Request string "'u msg" string
  | Response string "'u msg option" "aerror option"

definition priority_normal :: u8 where "priority_normal = 0"
definition priority_urgent :: u8 where "priority_urgent = 1"

definition kind_user :: u8 where "kind_user = 0"
definition kind_request :: u8 where "kind_request = 1"
definition kind_response :: u8 where "kind_response = 2"

lemmas kinds = kind_user_def kind_request_def kind_response_def priority_normal_def priority_urgent_def

record env_meta =
  ekind :: u8
  from_id :: string
  corr_id :: string
  reply_to :: string

record send_options =
  so_priority :: u8
  so_persist :: bool
  so_timeout :: int
  so_callback :: "nat option"
  so_degrade :: bool

definition default_send :: send_options where
  "default_send = \<lparr>so_priority = priority_normal, so_persist = False, so_timeout = 0, so_callback = None,
     so_degrade = False\<rparr>"

definition state_new :: u8 where "state_new = 0"
definition state_running :: u8 where "state_running = 1"
definition state_stopping :: u8 where "state_stopping = 2"
definition state_stopped :: u8 where "state_stopped = 3"

lemmas states = state_new_def state_running_def state_stopping_def state_stopped_def

text \<open>What an \<open>IActor\<close> value can be: \<open>nil\<close>, a \<open>*BaseActor\<close> (by its address), an \<open>*ActorRef\<close>,
  or some other implementation, with or without an \<open>ID\<close> method.\<close>

datatype target = TNil | TBase nat | TRef string | TOther nat "string option"

subsection \<open>State\<close>

text \<open>Files, and the open write-ahead log of each actor.\<close>

record store =
  st_files :: files
  st_wals :: "nat \<Rightarrow> wal"

text \<open>An actor. \<open>ba_receive\<close> says whether there is a handler; the handler itself is an argument
  of the run loop. The two \<open>sync.Once\<close> are flags, \<open>ba_done\<close> is the closed channel \<open>done\<close>.\<close>

record 'u base_actor =
  ba_id :: string
  ba_name :: string
  ba_mb :: "('u msg, env_meta, store) mailbox"
  ba_receive :: bool
  ba_wal :: bool
  ba_state :: u8
  ba_started :: bool
  ba_stopped :: bool
  ba_done :: bool

record remote_envelope =
  re_to :: string
  re_from :: string
  re_kind :: u8
  re_priority :: u8
  re_corr :: string
  re_reply :: string
  re_payload :: bytes

record remote_ack =
  ack_ok :: bool
  ack_err :: string

record remote_transport =
  rt_addr :: string
  rt_conns :: "string set"

text \<open>The last part holds what is outside \<open>System\<close> in the code: the files, the package state
  of \<open>id.go\<close>, the running timers (by the correlation id they watch), the goroutines that
  are about to call \<open>Stop\<close>, what the failure subscribers were told, and the calls of
  \<open>Receive\<close> on values that are not a \<open>*BaseActor\<close>.\<close>

record 'u system =
  sys_registry :: "target registry"
  sys_actors :: "'u base_actor list"
  sys_pending :: "string \<rightharpoonup> nat"
  sys_futures :: "'u msg fheap"
  sys_breakers :: "string \<rightharpoonup> breaker"
  sys_tokens :: nat
  sys_marshal :: "'u msg \<Rightarrow> bytes option"
  sys_unmarshal :: "bytes \<Rightarrow> string + 'u msg"
  sys_persist_dir :: string
  sys_metrics :: "metrics option"
  sys_limiter :: "bucket option"
  sys_remote :: "remote_transport option"
  sys_dial :: "string \<Rightarrow> bool"
  sys_rpc :: "string \<Rightarrow> remote_envelope \<Rightarrow> remote_ack option"
  sys_locations :: "string \<rightharpoonup> string"
  sys_subscribers :: nat
  sys_store :: store
  sys_node :: string
  sys_counter :: u64
  sys_timers :: "string list"
  sys_stops :: "nat list"
  sys_failed :: "string list"
  sys_direct :: "(nat \<times> 'u msg) list"

definition new_system :: "('u msg \<Rightarrow> bytes option) \<Rightarrow> (bytes \<Rightarrow> string + 'u msg) \<Rightarrow> (string \<Rightarrow> bool) \<Rightarrow>
    (string \<Rightarrow> remote_envelope \<Rightarrow> remote_ack option) \<Rightarrow> store \<Rightarrow> string \<Rightarrow> 'u system" where
  "new_system ser des dial rpc st node =
     \<lparr>sys_registry = new_registry, sys_actors = [], sys_pending = Map.empty,
      sys_futures = \<lparr>futs = [], cells = [], calls = []\<rparr>, sys_breakers = Map.empty, sys_tokens = 0,
      sys_marshal = ser, sys_unmarshal = des, sys_persist_dir = [], sys_metrics = None, sys_limiter = None,
      sys_remote = None, sys_dial = dial, sys_rpc = rpc, sys_locations = Map.empty, sys_subscribers = 0,
      sys_store = st, sys_node = node, sys_counter = 0, sys_timers = [], sys_stops = [], sys_failed = [],
      sys_direct = []\<rparr>"

subsection \<open>Settings\<close>

definition set_serializer ::
    "(('u msg \<Rightarrow> bytes option) \<times> (bytes \<Rightarrow> string + 'u msg)) option \<Rightarrow> 'u system \<Rightarrow> 'u system" where
  "set_serializer ser s =
     (case ser of None \<Rightarrow> s | Some (m, u) \<Rightarrow> s\<lparr>sys_marshal := m, sys_unmarshal := u\<rparr>)"

definition enable_persistence :: "string \<Rightarrow> 'u system \<Rightarrow> 'u system" where
  "enable_persistence dir s = s\<lparr>sys_persist_dir := dir\<rparr>"

definition enable_rate_limit :: "int \<Rightarrow> int \<Rightarrow> int \<Rightarrow> 'u system \<Rightarrow> 'u system" where
  "enable_rate_limit now qps brst s = s\<lparr>sys_limiter := Some (new_bucket now qps brst)\<rparr>"

definition sys_set_qps :: "int \<Rightarrow> int \<Rightarrow> 'u system \<Rightarrow> 'u system" where
  "sys_set_qps now qps s =
     (case sys_limiter s of
        None \<Rightarrow> s\<lparr>sys_limiter := Some (new_bucket now qps qps)\<rparr>
      | Some tb \<Rightarrow> s\<lparr>sys_limiter := Some (set_qps now qps tb)\<rparr>)"

definition enable_metrics :: "int \<Rightarrow> 'u system \<Rightarrow> 'u system" where
  "enable_metrics now s =
     s\<lparr>sys_metrics := Some (mark_start now (case sys_metrics s of None \<Rightarrow> new_metrics | Some m \<Rightarrow> m))\<rparr>"

text \<open>\<open>filepath.Join\<close> on a directory name that is already clean and an id without separators.\<close>

definition actor_wal_path :: "'u system \<Rightarrow> string \<Rightarrow> string" where
  "actor_wal_path s aid =
     (if sys_persist_dir s = [] \<or> aid = [] then [] else sys_persist_dir s @ ''/'' @ aid @ ''.wal'')"

definition find_by_id :: "string \<Rightarrow> 'u system \<Rightarrow> target option \<times> bool" where
  "find_by_id aid s = reg_get aid (sys_registry s)"

definition find_by_name :: "string \<Rightarrow> 'u system \<Rightarrow> target option \<times> bool" where
  "find_by_name name s = reg_get_by_name name (sys_registry s)"

definition set_location :: "string \<Rightarrow> string \<Rightarrow> 'u system \<Rightarrow> 'u system" where
  "set_location aid addr s =
     (if aid = [] then s
      else if addr = [] then s\<lparr>sys_locations := (sys_locations s)(aid := None)\<rparr>
      else s\<lparr>sys_locations := (sys_locations s)(aid \<mapsto> addr)\<rparr>)"

definition location_of :: "string \<Rightarrow> 'u system \<Rightarrow> string option" where
  "location_of aid s = sys_locations s aid"

definition subscribe_failures :: "'u system \<Rightarrow> 'u system" where
  "subscribe_failures s = s\<lparr>sys_subscribers := sys_subscribers s + 1\<rparr>"

definition notify_failure :: "string \<Rightarrow> 'u system \<Rightarrow> 'u system" where
  "notify_failure aid s = s\<lparr>sys_failed := sys_failed s @ replicate (sys_subscribers s) aid\<rparr>"

text \<open>\<open>waitTokens\<close>: a channel with 4096 places.\<close>

definition try_acquire_token :: "'u system \<Rightarrow> 'u system \<times> bool" where
  "try_acquire_token s =
     (if sys_tokens s < 4096 then (s\<lparr>sys_tokens := sys_tokens s + 1\<rparr>, True) else (s, False))"

definition acquire_token :: "'u system \<Rightarrow> 'u system outcome" where
  "acquire_token s = (if sys_tokens s < 4096 then Returns (s\<lparr>sys_tokens := sys_tokens s + 1\<rparr>) else Waits)"

definition release_token :: "'u system \<Rightarrow> 'u system" where
  "release_token s = (if 0 < sys_tokens s then s\<lparr>sys_tokens := sys_tokens s - 1\<rparr> else s)"

subsection \<open>Delivery\<close>

definition set_actor :: "nat \<Rightarrow> 'u base_actor \<Rightarrow> 'u system \<Rightarrow> 'u system" where
  "set_actor a x s = s\<lparr>sys_actors := (sys_actors s)[a := x]\<rparr>"

fun push_outcome :: "push_result \<Rightarrow> aerror option outcome" where
  "push_outcome PushOk = Returns None"
| "push_outcome PushClosed = Returns (Some ErrMailboxClosed)"
| "push_outcome PushFull = Returns (Some ErrMailboxFull)"
| "push_outcome PushUnknownPolicy = Returns (Some ErrUnknownPolicy)"
| "push_outcome PushWaiting = Waits"

text \<open>\<open>BaseActor.tell\<close>. A blocking \<open>Push\<close> is shown with its first attempt only: it returns or
  it waits.\<close>

definition ba_tell :: "nat \<Rightarrow> 'u msg \<Rightarrow> env_meta \<Rightarrow> u8 \<Rightarrow> bool \<Rightarrow> 'u system \<Rightarrow>
    ('u system \<times> aerror option) outcome" where
  "ba_tell a m me pri persist s =
     (let x = sys_actors s ! a;
          env = \<lparr>prio = pri, payload = m, meta = me, persist_flag = persist\<rparr>
      in case mb_push env [] (ba_mb x) (sys_store s) of
           None \<Rightarrow> Panics
         | Some (mb, st, r) \<Rightarrow>
             and_then (push_outcome r)
               (\<lambda>err. Returns ((set_actor a (x\<lparr>ba_mb := mb\<rparr>) s)\<lparr>sys_store := st\<rparr>, err)))"

text \<open>\<open>Receive\<close> called on a value that is not a \<open>*BaseActor\<close>: a reference does nothing, other
  implementations are recorded.\<close>

definition receive_direct :: "target \<Rightarrow> 'u msg \<Rightarrow> 'u system \<Rightarrow> 'u system" where
  "receive_direct t m s =
     (case t of TOther k _ \<Rightarrow> s\<lparr>sys_direct := sys_direct s @ [(k, m)]\<rparr> | _ \<Rightarrow> s)"

definition conn :: "string \<Rightarrow> remote_transport \<Rightarrow> 'u system \<Rightarrow> 'u system \<times> bool" where
  "conn addr rt s =
     (if addr \<in> rt_conns rt then (s, True)
      else if sys_dial s addr then (s\<lparr>sys_remote := Some (rt\<lparr>rt_conns := insert addr (rt_conns rt)\<rparr>)\<rparr>, True)
      else (s, False))"

definition remote_deliver :: "string \<Rightarrow> remote_envelope \<Rightarrow> 'u system \<Rightarrow> 'u system \<times> aerror option" where
  "remote_deliver addr env s =
     (case sys_remote s of
        None \<Rightarrow> (s, Some ErrRemoteNotEnabled)
      | Some rt \<Rightarrow>
          (case conn addr rt s of
             (s1, False) \<Rightarrow> (s1, Some ErrDial)
           | (s1, True) \<Rightarrow>
               (case sys_rpc s1 addr env of
                  None \<Rightarrow> (s1, Some ErrRPC)
                | Some ack \<Rightarrow>
                    (s1, if \<not> ack_ok ack \<and> ack_err ack \<noteq> [] then Some (ErrRemote (ack_err ack)) else None))))"

definition deliver_to_id :: "string \<Rightarrow> env_meta \<Rightarrow> u8 \<Rightarrow> 'u msg \<Rightarrow> bool \<Rightarrow> 'u system \<Rightarrow>
    ('u system \<times> aerror option) outcome" where
  "deliver_to_id to_id me pri m persist s =
     (if to_id = [] then Returns (s, Some ErrActorNotFound)
      else case reg_get to_id (sys_registry s) of
          (Some (TBase a), True) \<Rightarrow> ba_tell a m me pri persist s
        | (Some t, True) \<Rightarrow> Returns (receive_direct t m s, None)
        | (None, True) \<Rightarrow> Panics   \<comment> \<open>a method call on a \<open>nil\<close> entry\<close>
        | (_, False) \<Rightarrow>
            (case location_of to_id s of
               Some addr \<Rightarrow>
                 (case sys_marshal s m of
                    None \<Rightarrow> Returns (s, Some ErrMarshal)
                  | Some b \<Rightarrow> Returns (remote_deliver addr
                      \<lparr>re_to = to_id, re_from = from_id me, re_kind = ekind me, re_priority = pri,
                       re_corr = corr_id me, re_reply = reply_to me, re_payload = b\<rparr> s))
             | None \<Rightarrow> Returns (s, Some ErrActorNotFound)))"

text \<open>The prologue of every send: the limiter (with the clock readings of its attempts) and the
  counter.\<close>

definition send_prologue :: "int list \<Rightarrow> 'u system \<Rightarrow> 'u system outcome" where
  "send_prologue nows s =
     and_then
       (case sys_limiter s of
          None \<Rightarrow> Returns s
        | Some tb \<Rightarrow> (case tb_wait 1 nows tb of (tb', ok) \<Rightarrow>
            if ok then Returns (s\<lparr>sys_limiter := Some tb'\<rparr>) else Waits))
       (\<lambda>s. Returns (s\<lparr>sys_metrics := map_option inc_out (sys_metrics s)\<rparr>))"

text \<open>Where \<open>Tell\<close> and \<open>sendRequest\<close> send to.\<close>

definition route :: "target \<Rightarrow> env_meta \<Rightarrow> u8 \<Rightarrow> 'u msg \<Rightarrow> bool \<Rightarrow> 'u system \<Rightarrow>
    ('u system \<times> aerror option) outcome" where
  "route t me pri m persist s =
     (case t of
        TNil \<Rightarrow> Panics
      | TBase a \<Rightarrow> ba_tell a m me pri persist s
      | TRef aid \<Rightarrow> deliver_to_id aid me pri m persist s
      | TOther k (Some aid) \<Rightarrow>
          if aid \<noteq> [] then deliver_to_id aid me pri m persist s else Returns (receive_direct t m s, None)
      | TOther k None \<Rightarrow> Returns (receive_direct t m s, None))"

definition sender_id :: "nat option \<Rightarrow> 'u system \<Rightarrow> string" where
  "sender_id from s = (case from of None \<Rightarrow> [] | Some a \<Rightarrow> ba_id (sys_actors s ! a))"

definition unwrap :: "u8 \<Rightarrow> 'u msg \<Rightarrow> u8 \<times> 'u msg" where
  "unwrap pri m = (case m of PriorityMsg p m' \<Rightarrow> (p, m') | _ \<Rightarrow> (pri, m))"

definition tell :: "int list \<Rightarrow> nat option \<Rightarrow> target \<Rightarrow> 'u msg \<Rightarrow> send_options \<Rightarrow> 'u system \<Rightarrow>
    ('u system \<times> aerror option) outcome" where
  "tell nows from t m opts s =
     (if t = TNil then Returns (s, Some ErrActorNotFound)
      else and_then (send_prologue nows s)
        (\<lambda>s1. case unwrap (so_priority opts) m of (pri, pl) \<Rightarrow>
           route t \<lparr>ekind = kind_user, from_id = sender_id from s1, corr_id = [], reply_to = []\<rparr> pri pl
             (so_persist opts) s1))"

text \<open>\<open>sendRequest\<close> has no test for a \<open>nil\<close> target.\<close>

definition send_request :: "int list \<Rightarrow> nat option \<Rightarrow> target \<Rightarrow> string \<Rightarrow> 'u msg \<Rightarrow> string \<Rightarrow> u8 \<Rightarrow> bool \<Rightarrow>
    'u system \<Rightarrow> ('u system \<times> aerror option) outcome" where
  "send_request nows from t cid m reply pri persist s =
     and_then (send_prologue nows s)
       (\<lambda>s1. route t \<lparr>ekind = kind_request, from_id = sender_id from s1, corr_id = cid, reply_to = reply\<rparr> pri
          (Request cid m reply) persist s1)"

definition send_response :: "int list \<Rightarrow> string \<Rightarrow> string \<Rightarrow> string \<Rightarrow> 'u msg option \<Rightarrow> aerror option \<Rightarrow>
    'u system \<Rightarrow> ('u system \<times> aerror option) outcome" where
  "send_response nows fromid to_id cid v err s =
     and_then (send_prologue nows s)
       (\<lambda>s1. deliver_to_id to_id \<lparr>ekind = kind_response, from_id = fromid, corr_id = cid, reply_to = []\<rparr>
          priority_urgent (Response cid v err) False s1)"

text \<open>\<open>BaseActor.Send\<close> and \<open>ActorRef.Send\<close>.\<close>

definition actor_send :: "int list \<Rightarrow> nat \<Rightarrow> target \<Rightarrow> 'u msg \<Rightarrow> 'u system \<Rightarrow> 'u system outcome" where
  "actor_send nows a t m s =
     (if t = TNil then Returns s
      else and_then (tell nows (Some a) t m default_send s) (\<lambda>(s', _). Returns s'))"

definition ref_send :: "int list \<Rightarrow> target \<Rightarrow> 'u msg \<Rightarrow> 'u system \<Rightarrow> 'u system outcome" where
  "ref_send nows t m s = and_then (tell nows None t m default_send s) (\<lambda>(s', _). Returns s')"

subsection \<open>The remote half\<close>

text \<open>\<open>EnableRemote\<close>; \<open>listen\<close> gives the bound address, or nothing.\<close>

definition enable_remote :: "(string \<Rightarrow> string option) \<Rightarrow> string \<Rightarrow> 'u system \<Rightarrow> 'u system \<times> aerror option" where
  "enable_remote listen addr s =
     (let addr' = (if addr = [] then '':50051'' else addr)
      in if sys_remote s \<noteq> None then (s, None)
         else case listen addr' of
             None \<Rightarrow> (s, Some ErrListen)
           | Some bound \<Rightarrow> (s\<lparr>sys_remote := Some \<lparr>rt_addr = bound, rt_conns = {}\<rparr>\<rparr>, None))"

definition remote_addr :: "'u system \<Rightarrow> string" where
  "remote_addr s = (case sys_remote s of None \<Rightarrow> [] | Some rt \<Rightarrow> rt_addr rt)"

definition stop_remote :: "'u system \<Rightarrow> 'u system" where
  "stop_remote s = s\<lparr>sys_remote := None\<rparr>"

text \<open>\<open>Deliver\<close> on the receiving node.\<close>

definition remote_receive :: "remote_envelope \<Rightarrow> 'u system \<Rightarrow> ('u system \<times> remote_ack) outcome" where
  "remote_receive env s =
     (case sys_unmarshal s (re_payload env) of
        Inl err \<Rightarrow> Returns (s, \<lparr>ack_ok = False, ack_err = err\<rparr>)
      | Inr m \<Rightarrow>
          (case reg_get (re_to env) (sys_registry s) of
             (_, False) \<Rightarrow> Returns (s, \<lparr>ack_ok = False, ack_err = ''actor not found''\<rparr>)
           | (Some (TBase a), True) \<Rightarrow>
               and_then
                 (ba_tell a m \<lparr>ekind = re_kind env, from_id = re_from env, corr_id = re_corr env,
                    reply_to = re_reply env\<rparr> (re_priority env) False s)
                 (\<lambda>(s', _). Returns (s', \<lparr>ack_ok = True, ack_err = []\<rparr>))
           | (Some t, True) \<Rightarrow> Returns (receive_direct t m s, \<lparr>ack_ok = True, ack_err = []\<rparr>)
           | (None, True) \<Rightarrow> Panics))"

subsection \<open>Where a message goes\<close>

definition sys_ok :: "'u system \<Rightarrow> bool" where
  "sys_ok s \<longleftrightarrow> (\<forall>x \<in> set (sys_actors s). mb_inv (ba_mb x)) \<and>
     (\<forall>aid a. by_id (sys_registry s) aid = Some (Some (TBase a)) \<longrightarrow> a < length (sys_actors s))"

text \<open>The place a target names, from the tables alone.\<close>

datatype dest = Nowhere | Local nat | Direct target | Remote string string | NilEntry

definition dest_of_id :: "string \<Rightarrow> 'u system \<Rightarrow> dest" where
  "dest_of_id aid s =
     (if aid = [] then Nowhere
      else case by_id (sys_registry s) aid of
          Some (Some (TBase a)) \<Rightarrow> Local a
        | Some (Some t) \<Rightarrow> Direct t
        | Some None \<Rightarrow> NilEntry
        | None \<Rightarrow> (case sys_locations s aid of Some addr \<Rightarrow> Remote addr aid | None \<Rightarrow> Nowhere))"

fun destination :: "target \<Rightarrow> 'u system \<Rightarrow> dest" where
  "destination TNil s = NilEntry"
| "destination (TBase a) s = Local a"
| "destination (TRef aid) s = dest_of_id aid s"
| "destination (TOther k None) s = Direct (TOther k None)"
| "destination (TOther k (Some [])) s = Direct (TOther k (Some []))"
| "destination (TOther k (Some (c # cs))) s = dest_of_id (c # cs) s"

text \<open>What is done there.\<close>

definition send_over :: "string \<Rightarrow> string \<Rightarrow> env_meta \<Rightarrow> u8 \<Rightarrow> 'u msg \<Rightarrow> 'u system \<Rightarrow> 'u system \<times> aerror option" where
  "send_over addr aid me pri m s =
     (case sys_marshal s m of
        None \<Rightarrow> (s, Some ErrMarshal)
      | Some b \<Rightarrow> remote_deliver addr
          \<lparr>re_to = aid, re_from = from_id me, re_kind = ekind me, re_priority = pri,
           re_corr = corr_id me, re_reply = reply_to me, re_payload = b\<rparr> s)"

fun hand_over :: "dest \<Rightarrow> env_meta \<Rightarrow> u8 \<Rightarrow> 'u msg \<Rightarrow> bool \<Rightarrow> 'u system \<Rightarrow> ('u system \<times> aerror option) outcome" where
  "hand_over Nowhere me pri m persist s = Returns (s, Some ErrActorNotFound)"
| "hand_over (Local a) me pri m persist s = ba_tell a m me pri persist s"
| "hand_over (Direct t) me pri m persist s = Returns (receive_direct t m s, None)"
| "hand_over (Remote addr aid) me pri m persist s = Returns (send_over addr aid me pri m s)"
| "hand_over NilEntry me pri m persist s = Panics"

lemma deliver_to_id_dest: "deliver_to_id aid me pri m persist s = hand_over (dest_of_id aid s) me pri m persist s"
  by (simp add: deliver_to_id_def dest_of_id_def reg_get_def location_of_def send_over_def
      split: option.split target.split)

lemma route_dest: "route t me pri m persist s = hand_over (destination t s) me pri m persist s"
  by (cases "(t, s)" rule: destination.cases) (simp_all add: route_def deliver_to_id_dest)

text \<open>What a push to a mailbox answers and leaves, as the sender sees it.\<close>

definition pushed :: "('p, 'm) envelope \<Rightarrow> ('p, 'm, 'w) mailbox \<Rightarrow> ('p, 'm, 'w) mailbox \<Rightarrow> aerror option \<Rightarrow> bool" where
  "pushed e mb mb' err \<longleftrightarrow>
     (if mb_closed mb then mb' = mb \<and> err = Some ErrMailboxClosed
      else if backpressure_drop_newest < mb_policy mb then mb' = mb \<and> err = Some ErrUnknownPolicy
      else if mb_full e mb then mb' = mb \<and>
        err = (if mb_policy mb = backpressure_drop_newest then None else Some ErrMailboxFull)
      else err = None \<and> lanes mb' = lanes_push e (lanes mb) \<and> mb_notify mb')"

text \<open>The mailbox of actor \<open>a\<close>, and the system with another one in its place.\<close>

abbreviation mailbox_of :: "nat \<Rightarrow> 'u system \<Rightarrow> ('u msg, env_meta, store) mailbox" where
  "mailbox_of a s \<equiv> ba_mb (sys_actors s ! a)"

definition put_mailbox :: "nat \<Rightarrow> ('u msg, env_meta, store) mailbox \<Rightarrow> 'u system \<Rightarrow> 'u system" where
  "put_mailbox a mb s = set_actor a ((sys_actors s ! a)\<lparr>ba_mb := mb\<rparr>) s"

lemma put_mailbox_other [simp]: "b \<noteq> a \<Longrightarrow> sys_actors (put_mailbox a mb s) ! b = sys_actors s ! b"
  by (simp add: put_mailbox_def set_actor_def)

lemma put_mailbox_same [simp]:
  "a < length (sys_actors s) \<Longrightarrow> sys_actors (put_mailbox a mb s) ! a = (sys_actors s ! a)\<lparr>ba_mb := mb\<rparr>"
  by (simp add: put_mailbox_def set_actor_def)

lemma put_mailbox_simps [simp]:
  "length (sys_actors (put_mailbox a mb s)) = length (sys_actors s)"
  "sys_registry (put_mailbox a mb s) = sys_registry s" "sys_pending (put_mailbox a mb s) = sys_pending s"
  "sys_futures (put_mailbox a mb s) = sys_futures s" "sys_breakers (put_mailbox a mb s) = sys_breakers s"
  "sys_limiter (put_mailbox a mb s) = sys_limiter s" "sys_metrics (put_mailbox a mb s) = sys_metrics s"
  "sys_store (put_mailbox a mb s) = sys_store s" "sys_locations (put_mailbox a mb s) = sys_locations s"
  "sys_marshal (put_mailbox a mb s) = sys_marshal s" "sys_unmarshal (put_mailbox a mb s) = sys_unmarshal s"
  "sys_tokens (put_mailbox a mb s) = sys_tokens s"
  by (simp_all add: put_mailbox_def set_actor_def)

lemma sys_ok_put_mailbox:
  assumes "sys_ok s" and "mb_inv mb"
  shows "sys_ok (put_mailbox a mb s)"
  using assms
  by (cases "a < length (sys_actors s)")
    (auto simp: sys_ok_def put_mailbox_def set_actor_def all_set_conv_all_nth nth_list_update)

lemma sys_ok_mailbox: "sys_ok s \<Longrightarrow> a < length (sys_actors s) \<Longrightarrow> mb_inv (mailbox_of a s)"
  by (simp add: sys_ok_def)

lemma ba_tell_cases:
  assumes "sys_ok s" and "a < length (sys_actors s)" and "mb_policy (mailbox_of a s) \<noteq> backpressure_block"
  obtains mb err where
    "ba_tell a m me pri persist s = Returns ((put_mailbox a mb s)\<lparr>sys_store :=
       if mb_closed (mailbox_of a s) then sys_store s
       else run_persist (mailbox_of a s) \<lparr>prio = pri, payload = m, meta = me, persist_flag = persist\<rparr> (sys_store s)\<rparr>,
       err)"
    "mb_inv mb" "pushed \<lparr>prio = pri, payload = m, meta = me, persist_flag = persist\<rparr> (mailbox_of a s) mb err"
    "mb_policy mb = mb_policy (mailbox_of a s)" "mb_closed mb = mb_closed (mailbox_of a s)"
    "mb_persist mb = mb_persist (mailbox_of a s)" "mb_encode mb = mb_encode (mailbox_of a s)"
proof -
  let ?e = "\<lparr>prio = pri, payload = m, meta = me, persist_flag = persist\<rparr>"
  let ?mb = "mailbox_of a s"
  obtain mb st r where p: "mb_push ?e [] ?mb (sys_store s) = Some (mb, st, r)" "mb_inv mb"
      "mb_policy mb = mb_policy ?mb" "mb_closed mb = mb_closed ?mb" "mb_persist mb = mb_persist ?mb"
      "mb_encode mb = mb_encode ?mb"
    and c: "if mb_closed ?mb then mb = ?mb \<and> st = sys_store s \<and> r = PushClosed
     else st = run_persist ?mb ?e (sys_store s) \<and>
       (if backpressure_drop_newest < mb_policy ?mb then mb = ?mb \<and> r = PushUnknownPolicy
        else if mb_full ?e ?mb then mb = ?mb \<and>
          r = (if mb_policy ?mb = backpressure_drop_newest then PushOk else PushFull)
        else r = PushOk \<and> lanes mb = lanes_push ?e (lanes ?mb) \<and> mb_notify mb \<and>
          mb_len mb = wrap64 (mb_len ?mb + 1))"
    using mb_push_cases [OF sys_ok_mailbox [OF assms(1,2)] assms(3), of ?e "[]" "sys_store s"] by blast
  have st: "st = (if mb_closed ?mb then sys_store s else run_persist ?mb ?e (sys_store s))"
    using c by (simp split: if_splits)
  obtain err where "push_outcome r = Returns err" "pushed ?e ?mb mb err"
    using c by (cases r) (auto simp: pushed_def split: if_splits)
  then show thesis
    using p st by (intro that [of mb err]) (simp_all add: ba_tell_def put_mailbox_def Let_def)
qed

text \<open>The prologue changes the limiter and the counter only.\<close>

lemma send_prologue_Returns:
  assumes "send_prologue nows s = Returns s1"
  obtains tb ms where "s1 = s\<lparr>sys_limiter := tb, sys_metrics := ms\<rparr>"
proof -
  consider "sys_limiter s = None" | tb tb' where "sys_limiter s = Some tb" "tb_wait 1 nows tb = (tb', True)"
    using assms by (cases "sys_limiter s") (auto simp: send_prologue_def split: prod.splits if_splits)
  then show thesis
  proof cases
    case 1
    then have "s1 = s\<lparr>sys_limiter := sys_limiter s, sys_metrics := map_option inc_out (sys_metrics s)\<rparr>"
      using assms by (cases s) (simp add: send_prologue_def)
    then show thesis by (rule that)
  next
    case 2
    then have "s1 = s\<lparr>sys_limiter := Some tb', sys_metrics := map_option inc_out (sys_metrics s)\<rparr>"
      using assms by (simp add: send_prologue_def)
    then show thesis by (rule that)
  qed
qed

lemma sys_ok_update [simp]:
  "sys_ok (s\<lparr>sys_limiter := tb\<rparr>) = sys_ok s" "sys_ok (s\<lparr>sys_metrics := ms\<rparr>) = sys_ok s"
  "sys_ok (s\<lparr>sys_store := st\<rparr>) = sys_ok s" "sys_ok (s\<lparr>sys_pending := pe\<rparr>) = sys_ok s"
  "sys_ok (s\<lparr>sys_futures := fh\<rparr>) = sys_ok s" "sys_ok (s\<lparr>sys_timers := ti\<rparr>) = sys_ok s"
  "sys_ok (s\<lparr>sys_counter := co\<rparr>) = sys_ok s"
  by (simp_all add: sys_ok_def)

lemma dest_of_id_update [simp]:
  "dest_of_id aid (s\<lparr>sys_limiter := tb\<rparr>) = dest_of_id aid s"
  "dest_of_id aid (s\<lparr>sys_metrics := ms\<rparr>) = dest_of_id aid s"
  by (simp_all add: dest_of_id_def split: option.split target.split)

lemma destination_update [simp]:
  "destination t (s\<lparr>sys_limiter := tb\<rparr>) = destination t s"
  "destination t (s\<lparr>sys_metrics := ms\<rparr>) = destination t s"
  by (cases "(t, s)" rule: destination.cases; simp)+

subsection \<open>A small system\<close>

text \<open>Two running actors \<open>''a''\<close> and \<open>''b''\<close> with room for two messages in each lane. The
  serializer knows the small numbers. Other witnesses start from it.\<close>

fun small_marshal :: "nat msg \<Rightarrow> bytes option" where
  "small_marshal (User n) = Some [of_nat n]"
| "small_marshal _ = None"

fun small_unmarshal :: "bytes \<Rightarrow> string + nat msg" where
  "small_unmarshal [b] = Inr (User (unat b))"
| "small_unmarshal _ = Inl ''EOF''"

definition small_mailbox :: "(nat msg, env_meta, store) mailbox" where
  "small_mailbox = \<lparr>mb_urgent = empty2, mb_normal = empty2, mb_policy = backpressure_expand, mb_closed = False,
     mb_notify = False, mb_size = 0, mb_persist = None, mb_encode = None\<rparr>"

definition small_actor :: "string \<Rightarrow> nat base_actor" where
  "small_actor aid = \<lparr>ba_id = aid, ba_name = [], ba_mb = small_mailbox, ba_receive = True, ba_wal = False,
     ba_state = state_running, ba_started = True, ba_stopped = False, ba_done = False\<rparr>"

definition no_files :: store where
  "no_files = \<lparr>st_files = Map.empty, st_wals = (\<lambda>_. \<lparr>wal_f = None, wal_path = []\<rparr>)\<rparr>"

definition small_system :: "nat system" where
  "small_system = (new_system small_marshal small_unmarshal (\<lambda>_. False) (\<lambda>_ _. None) no_files ''n'')
     \<lparr>sys_actors := [small_actor ''a'', small_actor ''b''],
      sys_registry := register ''b'' [] (Some (TBase 1)) (register ''a'' [] (Some (TBase 0)) new_registry)\<rparr>"

lemma small_mailbox_ok: "mb_inv small_mailbox" and small_mailbox_lanes: "lanes small_mailbox = ([], [])"
proof -
  have "new_mailbox \<lparr>opt_capacity = 2, opt_urgent_capacity = 2, opt_max_segments = 1, opt_policy = 0,
      opt_persist = None, opt_encode = None\<rparr> = Some small_mailbox"
    by (simp add: new_mailbox_def new_segq_def new_ring_def small_mailbox_def empty2_def round_up.simps
        push_bit_eq_mult upt_rec policies)
  note new = new_mailbox_ok [OF this]
  then show "mb_inv small_mailbox" "lanes small_mailbox = ([], [])" by simp_all
qed

lemma small_mailbox_room: "\<not> mb_full e small_mailbox"
  by (simp add: mb_full_def lane_def small_mailbox_def empty2_def segq_full_def ring_full_def ring_count_def)

lemma small_system_ok: "sys_ok small_system"
  by (simp add: sys_ok_def small_system_def new_system_def small_actor_def small_mailbox_ok register_def new_registry_def)

subsection \<open>Properties\<close>

text \<open>C7. \<open>Tell\<close> on every branch, for a target that is not \<open>nil\<close> and once the limiter has let the
  call pass. The target is looked up locally first and then remotely; an empty or unknown id
  is answered with "not found" and nothing changes. For a local actor whose mailbox does not
  block, the call returns, no other actor is touched, and the message (unwrapped, and with
  the priority of the wrapper if it was one) is at the end of the lane that its priority
  selects, or the error says why it is not there: mailbox closed, policy unknown, lane full;
  only the dropping policy loses it without an error. For a known location the marshalled
  message is sent there; other implementations get a direct call.\<close>

theorem tell_spec:
  assumes "sys_ok s" and "t \<noteq> TNil" and "send_prologue nows s = Returns s1"
    and "\<And>a. destination t s = Local a \<Longrightarrow>
      a < length (sys_actors s) \<and> mb_policy (mailbox_of a s) \<noteq> backpressure_block"
    and "unwrap (so_priority opts) m = (pri, pl)"
    and "me = \<lparr>ekind = kind_user, from_id = sender_id from s, corr_id = [], reply_to = []\<rparr>"
  shows "case destination t s of
      Nowhere \<Rightarrow> tell nows from t m opts s = Returns (s1, Some ErrActorNotFound)
    | Local a \<Rightarrow> (\<exists>s' err. tell nows from t m opts s = Returns (s', err) \<and> sys_ok s' \<and>
        (\<forall>b. b \<noteq> a \<longrightarrow> sys_actors s' ! b = sys_actors s ! b) \<and>
        pushed \<lparr>prio = pri, payload = pl, meta = me, persist_flag = so_persist opts\<rparr>
          (mailbox_of a s) (mailbox_of a s') err)
    | Direct t' \<Rightarrow> tell nows from t m opts s = Returns (receive_direct t' pl s1, None)
    | Remote addr aid \<Rightarrow> tell nows from t m opts s = Returns (send_over addr aid me pri pl s1)
    | NilEntry \<Rightarrow> tell nows from t m opts s = Panics"
proof -
  obtain tb ms where s1: "s1 = s\<lparr>sys_limiter := tb, sys_metrics := ms\<rparr>"
    using send_prologue_Returns [OF assms(3)] .
  have t: "tell nows from t m opts s = hand_over (destination t s) me pri pl (so_persist opts) s1"
    using assms(2,3,5,6) by (simp add: tell_def route_dest s1 sender_id_def split: option.split)
  show ?thesis
  proof (cases "destination t s")
    case (Local a)
    have ok: "sys_ok s1" "a < length (sys_actors s1)" "mb_policy (mailbox_of a s1) \<noteq> backpressure_block"
      using assms(1,4) Local by (simp_all add: s1)
    obtain mb err st where "ba_tell a pl me pri (so_persist opts) s1 = Returns ((put_mailbox a mb s1)\<lparr>sys_store := st\<rparr>, err)"
      "mb_inv mb"
      "pushed \<lparr>prio = pri, payload = pl, meta = me, persist_flag = so_persist opts\<rparr> (mailbox_of a s1) mb err"
      using ba_tell_cases [OF ok] by metis
    moreover from this have "sys_ok ((put_mailbox a mb s1)\<lparr>sys_store := st\<rparr>)"
      using ok(1) sys_ok_put_mailbox by simp
    ultimately show ?thesis
      using Local ok(2) by (simp add: t s1)
  qed (simp_all add: t)
qed

theorem tell_spec_witness:
  "\<exists>s' err. tell [] (Some 0) (TRef ''b'') (PriorityMsg 1 (User 7)) default_send small_system = Returns (s', err) \<and>
     sys_actors s' ! 0 = small_actor ''a'' \<and>
     pushed \<lparr>prio = 1, payload = User 7, meta = \<lparr>ekind = kind_user, from_id = ''a'', corr_id = [], reply_to = []\<rparr>,
       persist_flag = False\<rparr> small_mailbox (mailbox_of 1 s') err"
proof -
  let ?s = small_system
  have d: "destination (TRef ''b'') ?s = Local 1"
    by (simp add: dest_of_id_def small_system_def new_system_def register_def new_registry_def)
  have a: "sys_actors ?s = [small_actor ''a'', small_actor ''b'']"
    by (simp add: small_system_def)
  have p: "send_prologue [] ?s = Returns ?s"
    by (simp add: send_prologue_def small_system_def new_system_def)
  show ?thesis
    using tell_spec [OF small_system_ok _ p, of "TRef ''b''" default_send "PriorityMsg 1 (User 7)" 1 "User 7" _ "Some 0"] d
    by (auto simp: a unwrap_def sender_id_def default_send_def small_actor_def small_mailbox_def policies)
qed

text \<open>The two halves of a message to another node: what \<open>Deliver\<close> does with a decoded envelope for
  a local actor, and a \<open>Tell\<close> whose remote call is acknowledged.\<close>

lemma remote_receive_tells:
  assumes "sys_unmarshal t (re_payload env) = Inr m" and "by_id (sys_registry t) (re_to env) = Some (Some (TBase a))"
    and "sys_ok t" and "mb_policy (mailbox_of a t) \<noteq> backpressure_block"
  shows "\<exists>t' err. remote_receive env t = Returns (t', \<lparr>ack_ok = True, ack_err = []\<rparr>) \<and> sys_ok t' \<and>
    pushed \<lparr>prio = re_priority env, payload = m,
      meta = \<lparr>ekind = re_kind env, from_id = re_from env, corr_id = re_corr env, reply_to = re_reply env\<rparr>, persist_flag = False\<rparr>
      (mailbox_of a t) (mailbox_of a t') err"
proof -
  let ?me = "\<lparr>ekind = re_kind env, from_id = re_from env, corr_id = re_corr env, reply_to = re_reply env\<rparr>"
  have a: "a < length (sys_actors t)" using assms(2,3) by (simp add: sys_ok_def)
  obtain mb err st where told: "ba_tell a m ?me (re_priority env) False t = Returns ((put_mailbox a mb t)\<lparr>sys_store := st\<rparr>, err)"
      "mb_inv mb" "pushed \<lparr>prio = re_priority env, payload = m, meta = ?me, persist_flag = False\<rparr> (mailbox_of a t) mb err"
    using ba_tell_cases [OF assms(3) a assms(4)] by metis
  let ?t = "(put_mailbox a mb t)\<lparr>sys_store := st\<rparr>"
  have "remote_receive env t = Returns (?t, \<lparr>ack_ok = True, ack_err = []\<rparr>)"
    using told(1) assms(1,2) by (simp add: remote_receive_def reg_get_def)
  moreover have "sys_ok ?t" "mailbox_of a ?t = mb"
    using assms(3) told(2) a by (simp_all add: sys_ok_put_mailbox)
  ultimately show ?thesis using told(3) by metis
qed

lemma remote_send_acked:
  assumes "send_prologue nows s = Returns s1" and "tgt \<noteq> TNil" and "destination tgt s = Remote addr aid"
    and "unwrap (so_priority opts) m = (pri, pl)" and "sys_remote s = Some rt" and "addr \<in> rt_conns rt \<or> sys_dial s addr"
    and "sys_marshal s pl = Some b"
    and "env = \<lparr>re_to = aid, re_from = sender_id from s, re_kind = kind_user, re_priority = pri, re_corr = [],
      re_reply = [], re_payload = b\<rparr>"
    and "sys_rpc s addr env = Some \<lparr>ack_ok = True, ack_err = []\<rparr>"
  shows "\<exists>s'. tell nows from tgt m opts s = Returns (s', None)"
proof -
  let ?me = "\<lparr>ekind = kind_user, from_id = sender_id from s, corr_id = [], reply_to = []\<rparr>"
  obtain tb ms where s1: "s1 = s\<lparr>sys_limiter := tb, sys_metrics := ms\<rparr>"
    using send_prologue_Returns [OF assms(1)] .
  have "tell nows from tgt m opts s = Returns (send_over addr aid ?me pri pl s1)"
    using assms(1,2,3,4) by (simp add: tell_def route_dest s1 sender_id_def split: option.split)
  moreover have "snd (send_over addr aid ?me pri pl s1) = None"
    using assms(5,6,7,8,9) by (auto simp: send_over_def remote_deliver_def conn_def s1)
  ultimately show ?thesis by (metis prod.collapse)
qed

text \<open>A message told to an actor on another node arrives there. The sender knows the location
  of the target, its transport is on and can reach the address, the remote call runs \<open>Deliver\<close> on
  the other node, and the receiver decodes what the sender encoded. Then \<open>Deliver\<close> puts the
  message into the mailbox of the target with its priority, kind and sender, exactly as a local
  \<open>Tell\<close> would, except that the persist option is dropped; and \<open>Tell\<close> returns no error whatever
  that mailbox answered, so a message refused by a full or closed mailbox looks delivered.\<close>

theorem remote_tell:
  fixes s t :: "'u system"
  assumes "send_prologue nows s = Returns s1" and "tgt \<noteq> TNil" and "destination tgt s = Remote addr aid"
    and "unwrap (so_priority opts) m = (pri, pl)" and "sys_remote s = Some rt" and "addr \<in> rt_conns rt \<or> sys_dial s addr"
    and "sys_marshal s pl = Some b" and "sys_unmarshal t b = Inr pl"
    and "env = \<lparr>re_to = aid, re_from = sender_id from s, re_kind = kind_user, re_priority = pri, re_corr = [],
      re_reply = [], re_payload = b\<rparr>"
    and "sys_rpc s addr env = (case remote_receive env t of Returns (_, ack) \<Rightarrow> Some ack | _ \<Rightarrow> None)"
    and "by_id (sys_registry t) aid = Some (Some (TBase a))" and "sys_ok t"
    and "mb_policy (mailbox_of a t) \<noteq> backpressure_block"
  shows "\<exists>s' t' err. tell nows from tgt m opts s = Returns (s', None) \<and>
    remote_receive env t = Returns (t', \<lparr>ack_ok = True, ack_err = []\<rparr>) \<and> sys_ok t' \<and>
    pushed \<lparr>prio = pri, payload = pl,
      meta = \<lparr>ekind = kind_user, from_id = sender_id from s, corr_id = [], reply_to = []\<rparr>, persist_flag = False\<rparr>
      (mailbox_of a t) (mailbox_of a t') err"
proof -
  obtain t' err where t': "remote_receive env t = Returns (t', \<lparr>ack_ok = True, ack_err = []\<rparr>)" "sys_ok t'"
      "pushed \<lparr>prio = pri, payload = pl,
        meta = \<lparr>ekind = kind_user, from_id = sender_id from s, corr_id = [], reply_to = []\<rparr>, persist_flag = False\<rparr>
        (mailbox_of a t) (mailbox_of a t') err"
    using remote_receive_tells [of t env pl a] assms(8,11,12,13) by (auto simp: assms(9))
  moreover have "\<exists>s'. tell nows from tgt m opts s = Returns (s', None)"
    using remote_send_acked [OF assms(1-7,9)] assms(10) t'(1) by simp
  ultimately show ?thesis by blast
qed

text \<open>Two nodes: the small system, and one that knows that \<open>''b''\<close> lives there.\<close>

definition far_system :: "nat system" where
  "far_system = (new_system small_marshal small_unmarshal (\<lambda>_. True)
     (\<lambda>_ env. case remote_receive env small_system of Returns (_, ack) \<Rightarrow> Some ack | _ \<Rightarrow> None) no_files ''m'')
     \<lparr>sys_remote := Some \<lparr>rt_addr = '':1'', rt_conns = {}\<rparr>, sys_locations := [''b'' \<mapsto> '':2'']\<rparr>"

theorem remote_tell_witness:
  "\<exists>s' t' err. tell [] None (TRef ''b'') (User 7) default_send far_system = Returns (s', None) \<and>
     remote_receive \<lparr>re_to = ''b'', re_from = [], re_kind = kind_user, re_priority = priority_normal, re_corr = [],
       re_reply = [], re_payload = [7]\<rparr> small_system = Returns (t', \<lparr>ack_ok = True, ack_err = []\<rparr>) \<and>
     pushed \<lparr>prio = priority_normal, payload = User 7, meta = \<lparr>ekind = kind_user, from_id = [], corr_id = [], reply_to = []\<rparr>,
       persist_flag = False\<rparr> small_mailbox (mailbox_of 1 t') err"
proof -
  have p: "send_prologue [] far_system = Returns far_system"
    by (simp add: send_prologue_def far_system_def new_system_def)
  have d: "destination (TRef ''b'') far_system = Remote '':2'' ''b''"
    by (simp add: dest_of_id_def far_system_def new_system_def new_registry_def)
  have f: "sys_remote far_system = Some \<lparr>rt_addr = '':1'', rt_conns = {}\<rparr>" "sys_dial far_system '':2''"
      "sys_marshal far_system (User 7) = Some [7]" "sys_unmarshal small_system [7] = Inr (User 7)"
      "by_id (sys_registry small_system) ''b'' = Some (Some (TBase 1))" "mailbox_of 1 small_system = small_mailbox"
    by (simp_all add: far_system_def small_system_def new_system_def register_def new_registry_def small_actor_def)
  have u: "unwrap (so_priority default_send) (User 7) = (priority_normal, User 7)"
    by (simp add: unwrap_def default_send_def)
  have pol: "mb_policy (mailbox_of 1 small_system) \<noteq> backpressure_block"
    unfolding f(6) by (simp add: small_mailbox_def policies)
  have rpc: "sys_rpc far_system '':2'' env = (case remote_receive env small_system of Returns (_, ack) \<Rightarrow> Some ack | _ \<Rightarrow> None)" for env
    by (simp add: far_system_def new_system_def)
  have nonnil: "TRef ''b'' \<noteq> TNil" by simp
  have sender: "sender_id None far_system = []" by (simp add: sender_id_def)
  show ?thesis
    using remote_tell [OF p nonnil d u f(1) disjI2 [OF f(2)] f(3,4) refl rpc f(5) small_system_ok pol, of None]
    unfolding sender f(6) by blast
qed

end
