(* ===== verification/MetricsPage.thy ===== *)
theory MetricsPage
  imports System
begin

text \<open>
  The metrics page of a whole system (\<open>writeMetrics\<close> of \<open>actor/metrics.go\<close>): the counters and the
  histogram of \<open>Metrics\<close> with the mailboxes of the registered actors, for every order in which Go
  may iterate over the snapshot of the registry. A sample of the page is its name, as printed,
  and its number; a number that the code prints as seconds is kept in nanoseconds.
\<close>

subsection \<open>The page\<close>

datatype sample = Counter string u64 | Gauge string int | Seconds string int

text \<open>\<open>FormatFloat(b.Seconds(), 'f', -1, 64)\<close> for a bound under a second: a decimal of at most nine
  places is the shortest one that reads back as its nearest float.\<close>

definition digit :: "int \<Rightarrow> char" where
  "digit d = ''0123456789'' ! nat d"

definition nine_digits :: "int \<Rightarrow> string" where
  "nine_digits b = map (\<lambda>k. digit (b div 10 ^ k mod 10)) (rev [0..<9])"

definition strip_zeros :: "string \<Rightarrow> string" where
  "strip_zeros cs = rev (dropWhile (\<lambda>c. c = digit 0) (rev cs))"

definition format_seconds :: "int \<Rightarrow> string" where
  "format_seconds b = (if b = 0 then ''0'' else ''0.'' @ strip_zeros (nine_digits b))"

definition bucket_name :: "string \<Rightarrow> string" where
  "bucket_name le = ''deqinactor_latency_seconds_bucket{le='' @ [CHR 0x22] @ le @ [CHR 0x22] @ ''}''"

definition page_samples :: "report \<Rightarrow> sample list" where
  "page_samples rep =
     [Counter ''deqinactor_messages_out_total'' (rep_out rep), Counter ''deqinactor_messages_in_total'' (rep_in rep),
      Gauge ''deqinactor_mailbox_backlog'' (rep_backlog rep), Counter ''deqinactor_restarts_total'' (rep_restarts rep)] @
     map (\<lambda>(b, n). Counter (bucket_name (format_seconds b)) n) (rep_buckets rep) @
     [Counter (bucket_name ''+Inf'') (rep_inf rep), Seconds ''deqinactor_latency_seconds_sum'' (uint (rep_sum rep)),
      Counter ''deqinactor_latency_seconds_count'' (rep_count rep), Seconds ''deqinactor_uptime_seconds'' (rep_uptime rep)]"

text \<open>The loop over the snapshot adds up the lengths of the mailboxes of base actors.\<close>

fun backlog_of :: "'u system \<Rightarrow> string list \<Rightarrow> int list" where
  "backlog_of s [] = []"
| "backlog_of s (aid # aids) =
     (case snapshot (sys_registry s) aid of
        Some (Some (TBase a)) \<Rightarrow> mb_len (mailbox_of a s) # backlog_of s aids
      | _ \<Rightarrow> backlog_of s aids)"

text \<open>\<open>aids\<close> is the order of the iteration; without metrics the answer is "no content".\<close>

definition system_page :: "string list \<Rightarrow> int \<Rightarrow> 'u system \<Rightarrow> report option" where
  "system_page aids now s = map_option (write_metrics (backlog_of s aids) now) (sys_metrics s)"

lemma bucket_labels:
  "map format_seconds default_buckets = [''0.00001'', ''0.00005'', ''0.0001'', ''0.0005'', ''0.001'', ''0.002'', ''0.005'',
     ''0.01'', ''0.02'', ''0.05'', ''0.1'']"
  by (simp add: default_buckets_def format_seconds_def strip_zeros_def nine_digits_def digit_def upt_rec)

subsection \<open>Histories of the metrics\<close>

datatype metrics_call = CallOut | CallIn | CallRestart | CallStart int | CallObserve int

fun metrics_op :: "metrics_call \<Rightarrow> metrics \<Rightarrow> metrics" where
  "metrics_op CallOut m = inc_out m"
| "metrics_op CallIn m = inc_in m"
| "metrics_op CallRestart m = inc_restart m"
| "metrics_op (CallStart now) m = mark_start now m"
| "metrics_op (CallObserve d) m = observe_latency d m"

fun observations :: "metrics_call list \<Rightarrow> int list" where
  "observations [] = []"
| "observations (CallObserve d # ops) = d # observations ops"
| "observations (_ # ops) = observations ops"

definition with_counters :: "int \<Rightarrow> u64 \<Rightarrow> u64 \<Rightarrow> u64 \<Rightarrow> metrics \<Rightarrow> metrics" where
  "with_counters t0 n_out n_in n_re m = m\<lparr>started_at := t0, msg_out := n_out, msg_in := n_in, restart_total := n_re\<rparr>"

lemma metrics_op_counters:
  "metrics_op CallOut (with_counters t0 n_out n_in n_re m) = with_counters t0 (n_out + 1) n_in n_re m"
  "metrics_op CallIn (with_counters t0 n_out n_in n_re m) = with_counters t0 n_out (n_in + 1) n_re m"
  "metrics_op CallRestart (with_counters t0 n_out n_in n_re m) = with_counters t0 n_out n_in (n_re + 1) m"
  "metrics_op (CallStart now) (with_counters t0 n_out n_in n_re m) =
     with_counters (if t0 = 0 then now div 1000000000 else t0) n_out n_in n_re m"
  "metrics_op (CallObserve d) (with_counters t0 n_out n_in n_re m) = with_counters t0 n_out n_in n_re (observe_latency d m)"
  by (simp_all add: with_counters_def inc_out_def inc_in_def inc_restart_def mark_start_def observe_latency_def Let_def)

text \<open>The counters count, and the rest of the record is what the observations alone make of it.\<close>

lemma metrics_run:
  "\<exists>t1. fold metrics_op ops (with_counters t0 n_out n_in n_re m) =
     with_counters t1 (n_out + of_nat (count_list ops CallOut)) (n_in + of_nat (count_list ops CallIn))
       (n_re + of_nat (count_list ops CallRestart)) (fold observe_latency (observations ops) m)"
proof (induction ops arbitrary: t0 n_out n_in n_re m)
  case (Cons op ops)
  show ?case
    using Cons.IH by (cases op) (simp_all add: metrics_op_counters del: metrics_op.simps flip: add.assoc)
qed auto

lemma write_metrics_counters:
  "write_metrics lens now (with_counters t0 n_out n_in n_re m) =
     (write_metrics lens now m)\<lparr>rep_out := n_out, rep_in := n_in, rep_restarts := n_re,
        rep_uptime := time_sub now ((if t0 = 0 then now div 1000000000 else t0) * 1000000000)\<rparr>"
  by (simp add: with_counters_def write_metrics_def Let_def)

subsection \<open>The backlog\<close>

definition queued_at :: "'u system \<Rightarrow> string \<Rightarrow> nat" where
  "queued_at s aid =
     (case snapshot (sys_registry s) aid of
        Some (Some (TBase a)) \<Rightarrow> length (fst (lanes (mailbox_of a s))) + length (snd (lanes (mailbox_of a s)))
      | _ \<Rightarrow> 0)"

lemma fold_wrap64: "fold (\<lambda>l b. wrap64 (b + l)) lens (wrap64 x) = wrap64 (x + sum_list lens)"
  by (induction lens arbitrary: x) (simp_all add: add.assoc)

lemma backlog_sum:
  assumes "sys_ok s"
  shows "wrap64 (x + sum_list (backlog_of s aids)) = wrap64 (x + int (sum_list (map (queued_at s) aids)))"
proof (induction aids arbitrary: x)
  case (Cons aid aids)
  show ?case
  proof (cases "\<exists>a. snapshot (sys_registry s) aid = Some (Some (TBase a))")
    case True
    then obtain a where a: "snapshot (sys_registry s) aid = Some (Some (TBase a))" by blast
    then have "mb_inv (mailbox_of a s)" using assms by (auto simp: sys_ok_def snapshot_def)
    then have len: "mb_len (mailbox_of a s) = wrap64 (int (queued_at s aid))"
      by (simp add: mb_inv_len queued_at_def a)
    have "wrap64 (x + sum_list (backlog_of s (aid # aids))) =
        wrap64 (wrap64 (int (queued_at s aid)) + (x + sum_list (backlog_of s aids)))"
      by (simp add: a len ac_simps)
    also have "\<dots> = wrap64 (x + int (queued_at s aid) + sum_list (backlog_of s aids))"
      by (simp only: wrap64_add) (simp add: ac_simps)
    finally show ?thesis using Cons.IH [of "x + int (queued_at s aid)"] by (simp add: ac_simps)
  next
    case False
    then have "queued_at s aid = 0" "backlog_of s (aid # aids) = backlog_of s aids"
      by (auto simp: queued_at_def split: option.split target.split)
    then show ?thesis using Cons.IH by simp
  qed
qed simp

subsection \<open>Properties\<close>

text \<open>C39. The metrics page tells the truth. After any sequence of calls on new metrics and for every
  order in which the snapshot of the registry is iterated, the counters are the numbers of the
  calls, the bucket for the bound \<open>b\<close> counts exactly the observations from 0 to \<open>b\<close> (negative
  ones are ignored), the infinite bucket and the count are all of them and the sum is their
  sum, and the backlog is the number of messages that lie in the two lanes of the mailboxes of
  all registered actors; all modulo \<open>2^64\<close>. A system without metrics has no page.\<close>

theorem metrics_page:
  assumes "sys_ok s" and "sys_metrics s = Some (fold metrics_op ops new_metrics)"
    and "distinct aids" and "set aids = dom (snapshot (sys_registry s))" and "es = filter (\<lambda>d. 0 \<le> d) (observations ops)"
  shows "\<exists>rep. system_page aids now s = Some rep \<and>
    rep_out rep = of_nat (count_list ops CallOut) \<and> rep_in rep = of_nat (count_list ops CallIn) \<and>
    rep_restarts rep = of_nat (count_list ops CallRestart) \<and>
    rep_buckets rep = map (\<lambda>b. (b, of_nat (length (filter (\<lambda>d. d \<le> b) es)))) default_buckets \<and>
    rep_inf rep = of_nat (length es) \<and> rep_count rep = of_nat (length es) \<and> rep_sum rep = of_int (sum_list es) \<and>
    rep_backlog rep = wrap64 (int (\<Sum>aid \<in> dom (snapshot (sys_registry s)). queued_at s aid)) \<and>
    system_page aids now (s\<lparr>sys_metrics := None\<rparr>) = None"
proof -
  let ?lens = "backlog_of s aids" and ?m = "fold observe_latency (observations ops) new_metrics"
  have "new_metrics = with_counters 0 0 0 0 new_metrics" by (simp add: with_counters_def new_metrics_def)
  then obtain t1 where m: "fold metrics_op ops new_metrics = with_counters t1 (of_nat (count_list ops CallOut))
      (of_nat (count_list ops CallIn)) (of_nat (count_list ops CallRestart)) ?m"
    using metrics_run [of ops 0 0 0 0 new_metrics] by auto
  have "rep_backlog (write_metrics ?lens now ?m) = wrap64 (0 + sum_list ?lens)"
    using fold_wrap64 [of ?lens 0] by (simp add: write_metrics_def Let_def)
  also have "\<dots> = wrap64 (0 + int (sum_list (map (queued_at s) aids)))"
    by (rule backlog_sum [OF assms(1)])
  also have "sum_list (map (queued_at s) aids) = (\<Sum>aid \<in> dom (snapshot (sys_registry s)). queued_at s aid)"
    using assms(3,4) by (simp add: sum_list_distinct_conv_sum_set)
  finally have bl: "rep_backlog (write_metrics ?lens now ?m) =
      wrap64 (int (\<Sum>aid \<in> dom (snapshot (sys_registry s)). queued_at s aid))" by simp
  show ?thesis
    using metrics_histogram [OF refl assms(5), of ?lens now] bl assms(2) m
    by (simp add: system_page_def write_metrics_counters)
qed

definition watched_calls :: "metrics_call list" where
  "watched_calls = [CallStart 5000000000, CallOut, CallObserve 20000, CallIn, CallObserve (- 5), CallOut, CallObserve 999000000]"

definition watched_system :: "nat system" where
  "watched_system = small_system\<lparr>sys_metrics := Some (fold metrics_op watched_calls new_metrics)\<rparr>"

theorem metrics_page_witness:
  "\<exists>rep. system_page [''b'', ''a''] 7000000000 watched_system = Some rep \<and> rep_out rep = 2 \<and> rep_in rep = 1 \<and>
     rep_inf rep = 2 \<and> take 2 (rep_buckets rep) = [(10000, 0), (50000, 1)] \<and> rep_backlog rep = 0"
proof -
  have ok: "sys_ok watched_system" using small_system_ok by (simp add: watched_system_def sys_ok_def)
  have reg: "snapshot (sys_registry watched_system) = [''a'' \<mapsto> Some (TBase 0), ''b'' \<mapsto> Some (TBase 1)]"
    by (simp add: watched_system_def small_system_def new_system_def register_def new_registry_def snapshot_def fun_eq_iff)
  have empty: "queued_at watched_system ''a'' = 0" "queued_at watched_system ''b'' = 0"
    by (simp_all add: queued_at_def reg) (simp_all add: watched_system_def small_system_def small_actor_def small_mailbox_lanes)
  have "sys_metrics watched_system = Some (fold metrics_op watched_calls new_metrics)" by (simp add: watched_system_def)
  from metrics_page [OF ok this, of "[''b'', ''a'']" "[20000, 999000000]" 7000000000]
  show ?thesis
    by (auto simp: reg empty watched_calls_def default_buckets_def)
qed

end
