(* ===== verification/Actor.thy ===== *)
theory Actor
  imports System
begin

text \<open>
  The life of an actor and the request and response calls: \<open>actor/base_actor.go\<close>,
  \<open>context.go\<close>, \<open>ask.go\<close>, and the table of pending requests and breakers of \<open>system.go\<close>.

  A handler is the user's code, so it is an argument: what one call of it does to the system,
  and whether it panics; \<open>None\<close> is a call that does not return. The goroutines of the code are
  the functions below applied in some order: \<open>run_iter\<close> is one round of an actor's loop,
  \<open>timer_fire\<close> a timer, \<open>stop_begin\<close> and \<open>stop_end\<close> the two halves of \<open>Stop\<close>; a blocked \<open>Ask\<close> takes
  what the others do meanwhile as an argument.
\<close>

subsection \<open>Pending requests and breakers\<close>

definition complete_future :: "string \<Rightarrow> 'u msg option \<Rightarrow> aerror option \<Rightarrow> 'u system \<Rightarrow> 'u system" where
  "complete_future cid v err s =
     (case sys_pending s cid of
        None \<Rightarrow> s
      | Some f \<Rightarrow> s\<lparr>sys_pending := (sys_pending s)(cid := None),
          sys_futures := complete f (Val (Response cid v err)) (sys_futures s)\<rparr>)"

definition track_pending :: "string \<Rightarrow> nat \<Rightarrow> int \<Rightarrow> 'u system \<Rightarrow> 'u system" where
  "track_pending cid f timeout s =
     (let s1 = s\<lparr>sys_pending := (sys_pending s)(cid \<mapsto> f)\<rparr>
      in if 0 < timeout then s1\<lparr>sys_timers := sys_timers s1 @ [cid]\<rparr> else s1)"

text \<open>The function that \<open>time.AfterFunc\<close> runs.\<close>

definition timer_fire :: "string \<Rightarrow> 'u system \<Rightarrow> 'u system" where
  "timer_fire cid s =
     (if cid \<in> set (sys_timers s)
      then complete_future cid None (Some ErrAskTimeout) (s\<lparr>sys_timers := remove1 cid (sys_timers s)\<rparr>)
      else s)"

definition target_id :: "target \<Rightarrow> 'u system \<Rightarrow> string" where
  "target_id t s =
     (case t of TNil \<Rightarrow> [] | TBase a \<Rightarrow> ba_id (sys_actors s ! a) | TRef aid \<Rightarrow> aid
      | TOther _ (Some aid) \<Rightarrow> aid | TOther _ None \<Rightarrow> [])"

text \<open>The breaker is known by its key; \<open>None\<close> is \<open>nil\<close>.\<close>

definition breaker_for :: "target \<Rightarrow> 'u system \<Rightarrow> 'u system \<times> string option" where
  "breaker_for t s =
     (let aid = target_id t s
      in if aid = [] then (s, None)
         else case sys_breakers s aid of
             None \<Rightarrow> (s\<lparr>sys_breakers := (sys_breakers s)(aid \<mapsto> new_breaker 50 30000000000)\<rparr>, Some aid)
           | Some _ \<Rightarrow> (s, Some aid))"

definition with_breaker :: "(breaker \<Rightarrow> breaker) \<Rightarrow> string option \<Rightarrow> 'u system \<Rightarrow> 'u system" where
  "with_breaker f key s =
     (case key of
        None \<Rightarrow> s
      | Some k \<Rightarrow> s\<lparr>sys_breakers := (sys_breakers s)(k := map_option f (sys_breakers s k))\<rparr>)"

definition breaker_admits :: "int \<Rightarrow> string option \<Rightarrow> 'u system \<Rightarrow> 'u system \<times> bool" where
  "breaker_admits now key s =
     (case key of
        None \<Rightarrow> (s, True)
      | Some k \<Rightarrow>
          (case sys_breakers s k of
             None \<Rightarrow> (s, True)
           | Some b \<Rightarrow> (with_breaker (\<lambda>b. fst (breaker_allow now b)) key s, snd (breaker_allow now b))))"

subsection \<open>Handlers\<close>

record actor_context =
  cx_self :: nat
  cx_sender :: string
  cx_corr :: string
  cx_reply :: string

type_synonym 'u handler = "actor_context \<Rightarrow> 'u msg \<Rightarrow> 'u system \<Rightarrow> ('u system \<times> bool) option"

definition respond :: "int list \<Rightarrow> actor_context \<Rightarrow> 'u msg option \<Rightarrow> aerror option \<Rightarrow> 'u system \<Rightarrow> 'u system outcome" where
  "respond nows cx v err s =
     (if cx_corr cx = [] \<or> cx_reply cx = [] then Returns s
      else and_then (send_response nows (ba_id (sys_actors s ! cx_self cx)) (cx_reply cx) (cx_corr cx) v err s)
        (\<lambda>(s', _). Returns s'))"

text \<open>\<open>BaseActor.Receive\<close>: the handler called directly, with no protection from a panic.\<close>

definition ba_receive_direct :: "'u handler \<Rightarrow> nat \<Rightarrow> 'u msg \<Rightarrow> 'u system \<Rightarrow> ('u system \<times> bool) option" where
  "ba_receive_direct h a m s =
     (if ba_receive (sys_actors s ! a)
      then h \<lparr>cx_self = a, cx_sender = [], cx_corr = [], cx_reply = []\<rparr> m s else Some (s, False))"

text \<open>The deferred function of \<open>handle\<close>: after a panic the failure is reported, the mailbox
  closed and a goroutine started that calls \<open>Stop\<close>.\<close>

definition close_mailbox :: "nat \<Rightarrow> 'u system \<Rightarrow> 'u system" where
  "close_mailbox a s =
     set_actor a ((sys_actors s ! a)\<lparr>ba_mb := mb_close (ba_mb (sys_actors s ! a))\<rparr>) s"

definition recovered :: "nat \<Rightarrow> ('u system \<times> bool) option \<Rightarrow> 'u system outcome" where
  "recovered a r =
     (case r of
        None \<Rightarrow> Waits
      | Some (s, False) \<Rightarrow> Returns s
      | Some (s, True) \<Rightarrow>
          (let s1 = close_mailbox a (notify_failure (ba_id (sys_actors s ! a)) s)
           in Returns (s1\<lparr>sys_stops := sys_stops s1 @ [a]\<rparr>)))"

definition handle :: "'u handler \<Rightarrow> nat \<Rightarrow> ('u msg, env_meta) envelope \<Rightarrow> 'u system \<Rightarrow> 'u system outcome" where
  "handle h a env s =
     (let s1 = s\<lparr>sys_metrics := map_option inc_in (sys_metrics s)\<rparr>;
          me = meta env;
          has = ba_receive (sys_actors s ! a)
      in if ekind me = kind_response then
           (case payload env of
              Response cid v err \<Rightarrow> Returns (complete_future cid v err s1)
            | _ \<Rightarrow> Returns s1)
         else if ekind me = kind_request then
           (case payload env of
              Request cid m reply \<Rightarrow>
                if has then recovered a (h \<lparr>cx_self = a, cx_sender = from_id me, cx_corr = cid, cx_reply = reply\<rparr> m s1)
                else Returns s1
            | _ \<Rightarrow> Returns s1)
         else if has then
           recovered a (h \<lparr>cx_self = a, cx_sender = from_id me, cx_corr = [], cx_reply = []\<rparr> (payload env) s1)
         else Returns s1)"

subsection \<open>The life of an actor\<close>

record 'u ba_options =
  bo_id :: string
  bo_name :: string
  bo_mailbox :: "('u msg, store) mb_options"
  bo_receive :: bool

text \<open>\<open>wal.Append\<close> of actor \<open>a\<close>, as the mailbox calls it; \<open>fails\<close> is the operating system's
  answer to a write.\<close>

definition wal_hook :: "(bytes \<Rightarrow> files \<Rightarrow> nat option) \<Rightarrow> nat \<Rightarrow> store persist_hook" where
  "wal_hook fails a b st =
     (case wal_append (fails b (st_files st)) b (st_wals st a, st_files st) of
        ((w, fs), err) \<Rightarrow> (\<lparr>st_files = fs, st_wals = (st_wals st)(a := w)\<rparr>, err = None))"

text \<open>\<open>NewBaseActor\<close>; the clock reading is for a generated id, \<open>allowed\<close> says whether the log may
  be opened.\<close>

definition new_base_actor :: "(bytes \<Rightarrow> files \<Rightarrow> nat option) \<Rightarrow> bool \<Rightarrow> int \<Rightarrow> 'u ba_options \<Rightarrow> 'u system \<Rightarrow>
    ('u system \<times> nat) outcome" where
  "new_base_actor fails allowed now opts s =
     (let a = length (sys_actors s);
          (s1, aid) = (if bo_id opts = [] then
             (case new_actor_id (sys_node s) now (sys_counter s) of (c, i) \<Rightarrow> (s\<lparr>sys_counter := c\<rparr>, i))
             else (s, bo_id opts));
          (s2, has_wal, mo) =
            (if sys_persist_dir s1 \<noteq> [] \<and> opt_persist (bo_mailbox opts) = None then
               (case wal_open allowed (actor_wal_path s1 aid) (st_files (sys_store s1)) of
                  (fs, Inl _) \<Rightarrow> (s1\<lparr>sys_store := (sys_store s1)\<lparr>st_files := fs\<rparr>\<rparr>, False, bo_mailbox opts)
                | (fs, Inr w) \<Rightarrow>
                    (s1\<lparr>sys_store := \<lparr>st_files = fs, st_wals = (st_wals (sys_store s1))(a := w)\<rparr>\<rparr>, True,
                     (bo_mailbox opts)\<lparr>opt_persist := Some (wal_hook fails a), opt_encode := Some (sys_marshal s1)\<rparr>))
             else (s1, False, bo_mailbox opts))
      in case new_mailbox mo of
           None \<Rightarrow> Waits   \<comment> \<open>\<open>NewRing\<close> does not return\<close>
         | Some mb \<Rightarrow>
             Returns (s2\<lparr>sys_actors := sys_actors s2 @ [\<lparr>ba_id = aid, ba_name = bo_name opts, ba_mb = mb,
               ba_receive = bo_receive opts, ba_wal = has_wal, ba_state = state_new, ba_started = False,
               ba_stopped = False, ba_done = False\<rparr>]\<rparr>, a))"

text \<open>The loop of \<open>Start\<close> over the replayed records. The error of \<open>Push\<close> is ignored.\<close>

fun replay_records :: "nat \<Rightarrow> bytes list \<Rightarrow> 'u system \<Rightarrow> 'u system outcome" where
  "replay_records a [] s = Returns s"
| "replay_records a (b # bs) s =
     (case sys_unmarshal s b of
        Inl _ \<Rightarrow> replay_records a bs s
      | Inr m \<Rightarrow>
          and_then (ba_tell a m \<lparr>ekind = kind_user, from_id = [], corr_id = [], reply_to = []\<rparr> priority_normal False s)
            (\<lambda>(s', _). replay_records a bs s'))"

definition read_log :: "bool \<Rightarrow> nat \<Rightarrow> 'u system \<Rightarrow> 'u system \<times> (wal_error + bytes list)" where
  "read_log seek_ok a s =
     (case wal_replay seek_ok (st_wals (sys_store s) a, st_files (sys_store s)) of
        ((w, fs), r) \<Rightarrow>
          (s\<lparr>sys_store := \<lparr>st_files = fs, st_wals = (st_wals (sys_store s))(a := w)\<rparr>\<rparr>, r))"

definition start_replay :: "bool \<Rightarrow> nat \<Rightarrow> 'u system \<Rightarrow> 'u system outcome" where
  "start_replay seek_ok a s =
     (if ba_wal (sys_actors s ! a) then
        (case read_log seek_ok a s of
           (s1, Inl _) \<Rightarrow> Returns s1
         | (s1, Inr recs) \<Rightarrow> replay_records a recs s1)
      else Returns s)"

definition ba_start :: "bool \<Rightarrow> nat \<Rightarrow> 'u system \<Rightarrow> 'u system outcome" where
  "ba_start seek_ok a s =
     (if ba_started (sys_actors s ! a) then Returns s
      else and_then (start_replay seek_ok a (set_actor a ((sys_actors s ! a)\<lparr>ba_started := True\<rparr>) s))
        (\<lambda>s1. let x = sys_actors s1 ! a
          in Returns (set_actor a (x\<lparr>ba_state := state_running\<rparr>)
               (s1\<lparr>sys_registry := register (ba_id x) (ba_name x) (Some (TBase a)) (sys_registry s1)\<rparr>))))"

text \<open>\<open>Stop\<close> up to the wait for the loop, and from there on. \<open>stop_end\<close> waits while the loop runs.
  Whoever calls \<open>Stop\<close> later waits for the first call in the \<open>sync.Once\<close> and does nothing: for
  it \<open>stop_begin\<close> changes nothing, and \<open>stop_end\<close> neither once the actor is stopped.\<close>

definition stop_begin :: "nat \<Rightarrow> 'u system \<Rightarrow> 'u system" where
  "stop_begin a s =
     (let x = sys_actors s ! a
      in if ba_stopped x then s
         else close_mailbox a (set_actor a (x\<lparr>ba_stopped := True, ba_state := state_stopping\<rparr>) s))"

definition stop_end :: "bool \<Rightarrow> nat \<Rightarrow> 'u system \<Rightarrow> 'u system outcome" where
  "stop_end clean a s =
     (let x = sys_actors s ! a
      in if ba_state x = state_stopped then Returns s
         else if \<not> ba_done x then Waits
         else let s1 = set_actor a (x\<lparr>ba_state := state_stopped\<rparr>) s;
                  s2 = s1\<lparr>sys_registry := unregister (ba_id x) (ba_name x) (sys_registry s1)\<rparr>;
                  st = sys_store s2
              in Returns (if ba_wal x then s2\<lparr>sys_store := st\<lparr>st_wals :=
                     (st_wals st)(a := fst (wal_close clean (st_wals st a)))\<rparr>\<rparr> else s2))"

text \<open>One round of the loop \<open>run\<close>: a message is handled, or \<open>Wait\<close> chooses one of its outcomes
  (none while it blocks); the loop is over when it returns false.\<close>

definition run_iter :: "'u handler \<Rightarrow> nat \<Rightarrow> 'u system \<Rightarrow> 'u system list outcome" where
  "run_iter h a s =
     (let x = sys_actors s ! a
      in case mb_pop (ba_mb x) of
           None \<Rightarrow> Panics
         | Some (mb, Some env) \<Rightarrow>
             and_then (handle h a env (set_actor a (x\<lparr>ba_mb := mb\<rparr>) s)) (\<lambda>s'. Returns [s'])
         | Some (mb, None) \<Rightarrow>
             Returns (map (\<lambda>(mb', go). set_actor a (x\<lparr>ba_mb := mb', ba_done := \<not> go\<rparr>) s) (mb_wait mb)))"

subsection \<open>Requests\<close>

text \<open>\<open>SendAsync\<close> with the clock readings for the correlation id and for the limiter.\<close>

definition async_options :: "send_options option \<Rightarrow> send_options" where
  "async_options o1 =
     (case o1 of
        None \<Rightarrow> default_send\<lparr>so_timeout := 30000000000\<rparr>
      | Some o2 \<Rightarrow> o2\<lparr>so_timeout := if so_timeout o2 \<noteq> 0 then so_timeout o2 else 30000000000\<rparr>)"

definition send_async :: "int \<Rightarrow> int list \<Rightarrow> nat \<Rightarrow> target \<Rightarrow> 'u msg \<Rightarrow> send_options option \<Rightarrow> 'u system \<Rightarrow>
    ('u system \<times> nat) outcome" where
  "send_async now nows a t m opts s =
     (let o3 = async_options opts;
          (h1, f) = new_future (sys_futures s);
          (c, cid) = new_actor_id (sys_node s) now (sys_counter s);
          s1 = track_pending cid f (so_timeout o3) (s\<lparr>sys_futures := h1, sys_counter := c\<rparr>);
          s2 = (case so_callback o3 of None \<Rightarrow> s1
                | Some k \<Rightarrow> s1\<lparr>sys_futures := on_complete f (CBUser k) (sys_futures s1)\<rparr>)
      in and_then
           (send_request nows (Some a) t cid m (ba_id (sys_actors s2 ! a)) (so_priority o3) (so_persist o3) s2)
           (\<lambda>(s', _). Returns (s', f)))"

text \<open>The clock readings of one \<open>Ask\<close>, and whether its \<open>Await\<close> runs into the timeout.\<close>

record ask_clock =
  ck_allow :: int
  ck_id :: int
  ck_limit :: "int list"
  ck_expired :: bool
  ck_latency :: int
  ck_report :: int

definition ask_outcome :: "'u msg gval option \<Rightarrow> ('u msg option \<times> aerror option)" where
  "ask_outcome r =
     (case r of
        Some (Val (Response cid v err)) \<Rightarrow> (Some (Response cid v err), err)
      | _ \<Rightarrow> (None, Some ErrAskTimeout))"

text \<open>\<open>Ask\<close>: the response, the future and the error. \<open>others\<close> is what the other goroutines do
  to the system while the call waits for the response.\<close>

definition ask :: "ask_clock \<Rightarrow> ('u system \<Rightarrow> 'u system) \<Rightarrow> nat \<Rightarrow> target \<Rightarrow> 'u msg \<Rightarrow> send_options \<Rightarrow> 'u system \<Rightarrow>
    ('u system \<times> 'u msg option \<times> nat option \<times> aerror option) outcome" where
  "ask ck others a t m opt s =
     (case breaker_for t s of (s1, key) \<Rightarrow>
      case breaker_admits (ck_allow ck) key s1 of (s2, admitted) \<Rightarrow>
      if \<not> admitted then Returns (s2, None, None, Some ErrCircuitOpen)
      else
        let timeout = (if so_timeout opt = 0 then 5000000000 else so_timeout opt);
            opt' = opt\<lparr>so_timeout := timeout, so_degrade := False\<rparr>;
            (s3, got) = (if so_degrade opt then try_acquire_token s2 else (s2, True))
        in if so_degrade opt \<and> \<not> got then
             and_then (send_async (ck_id ck) (ck_limit ck) a t m (Some opt') s3)
               (\<lambda>(s4, f). Returns (s4, None, Some f, Some ErrDegradedToAsync))
           else
             and_then (if so_degrade opt then Returns s3 else acquire_token s3)
               (\<lambda>s4. and_then (send_async (ck_id ck) (ck_limit ck) a t m (Some opt') s4)
                 (\<lambda>(s5, f). let s6 = others s5 in
                    case await timeout (ck_expired ck) f (sys_futures s6) of
                      (_, None) \<Rightarrow> Waits
                    | (h, Some r) \<Rightarrow>
                        (case ask_outcome r of (resp, err) \<Rightarrow>
                           let s7 = s6\<lparr>sys_futures := h,
                                 sys_metrics := map_option (observe_latency (ck_latency ck)) (sys_metrics s6)\<rparr>;
                               s8 = with_breaker (if err = None then breaker_on_success
                                      else breaker_on_failure (ck_report ck)) key s7
                           in Returns (release_token s8, resp, Some f, err)))))"

text \<open>\<open>SyncAsk\<close>; its own default timeout is that of \<open>Ask\<close>.\<close>

definition sync_ask :: "ask_clock \<Rightarrow> ('u system \<Rightarrow> 'u system) \<Rightarrow> nat \<Rightarrow> target \<Rightarrow> 'u msg \<Rightarrow> send_options option \<Rightarrow>
    'u system \<Rightarrow> ('u system \<times> 'u msg option \<times> aerror option) outcome" where
  "sync_ask ck others a t m opts s =
     (let o3 = (case opts of
          None \<Rightarrow> default_send\<lparr>so_timeout := 5000000000\<rparr>
        | Some o2 \<Rightarrow> o2\<lparr>so_timeout := if so_timeout o2 \<noteq> 0 then so_timeout o2 else 5000000000\<rparr>)
      in and_then (ask ck others a t m o3 s) (\<lambda>(s', resp, _, err). Returns (s', resp, err)))"

subsection \<open>One message through a mailbox\<close>

text \<open>An open mailbox that has room for the envelope.\<close>

definition accepts :: "('p, 'm) envelope \<Rightarrow> ('p, 'm, 'w) mailbox \<Rightarrow> bool" where
  "accepts e mb \<longleftrightarrow> \<not> mb_closed mb \<and> mb_policy mb \<in> {backpressure_expand, backpressure_drop_newest} \<and> \<not> mb_full e mb"

lemma accepts_policy: "accepts e mb \<Longrightarrow> mb_policy mb \<noteq> backpressure_block"
  by (auto simp: accepts_def policies)

lemma pushed_accepts:
  "accepts e mb \<Longrightarrow> pushed e mb mb' err \<Longrightarrow> err = None \<and> lanes mb' = lanes_push e (lanes mb) \<and> mb_notify mb'"
  by (auto simp: accepts_def pushed_def policies)

lemma ba_tell_accepts:
  assumes "sys_ok s" and "a < length (sys_actors s)"
    and "accepts \<lparr>prio = pri, payload = m, meta = me, persist_flag = persist\<rparr> (mailbox_of a s)"
  obtains mb st where "ba_tell a m me pri persist s = Returns ((put_mailbox a mb s)\<lparr>sys_store := st\<rparr>, None)"
    "mb_inv mb" "mb_notify mb"
    "lanes mb = lanes_push \<lparr>prio = pri, payload = m, meta = me, persist_flag = persist\<rparr> (lanes (mailbox_of a s))"
  using ba_tell_cases [OF assms(1,2) accepts_policy [OF assms(3)]] pushed_accepts [OF assms(3)] by metis

lemma run_iter_pop:
  assumes "sys_ok s" and "a < length (sys_actors s)" and "lanes_pop (lanes (mailbox_of a s)) = (l, Some env)"
  obtains mb where "run_iter h a s = and_then (handle h a env (put_mailbox a mb s)) (\<lambda>s'. Returns [s'])"
    "mb_inv mb" "lanes mb = l" "mb_closed mb = mb_closed (mailbox_of a s)" "mb_policy mb = mb_policy (mailbox_of a s)"
    "mb_persist mb = mb_persist (mailbox_of a s)" "mb_encode mb = mb_encode (mailbox_of a s)"
  using mb_pop_spec [OF sys_ok_mailbox [OF assms(1,2)]] assms(3) that
  by (auto simp: run_iter_def put_mailbox_def Let_def)

lemma prologue_unlimited:
  "sys_limiter s = None \<Longrightarrow> send_prologue nows s = Returns (s\<lparr>sys_metrics := map_option inc_out (sys_metrics s)\<rparr>)"
  by (simp add: send_prologue_def)

subsection \<open>A request and its response\<close>

definition request_envelope :: "string \<Rightarrow> string \<Rightarrow> 'u msg \<Rightarrow> send_options \<Rightarrow> ('u msg, env_meta) envelope" where
  "request_envelope cid aid m opt =
     \<lparr>prio = so_priority opt, payload = Request cid m aid,
      meta = \<lparr>ekind = kind_request, from_id = aid, corr_id = cid, reply_to = aid\<rparr>, persist_flag = so_persist opt\<rparr>"

definition response_envelope :: "string \<Rightarrow> string \<Rightarrow> 'u msg option \<Rightarrow> aerror option \<Rightarrow> ('u msg, env_meta) envelope" where
  "response_envelope cid bid v err =
     \<lparr>prio = priority_urgent, payload = Response cid v err,
      meta = \<lparr>ekind = kind_response, from_id = bid, corr_id = cid, reply_to = []\<rparr>, persist_flag = False\<rparr>"

text \<open>The future that \<open>SendAsync\<close> makes.\<close>

definition fresh_future :: "send_options \<Rightarrow> 'u msg fut" where
  "fresh_future opt = empty_future\<lparr>fcbs := (case so_callback opt of None \<Rightarrow> [] | Some k \<Rightarrow> [CBUser k])\<rparr>"

lemma send_async_request:
  assumes "new_actor_id (sys_node s) now (sys_counter s) = (c, cid)"
  shows "send_async now nows a t m opts s =
    and_then (send_request nows (Some a) t cid m (ba_id (sys_actors s ! a)) (so_priority (async_options opts))
       (so_persist (async_options opts))
       (s\<lparr>sys_futures := (sys_futures s)\<lparr>futs := futs (sys_futures s) @ [fresh_future (async_options opts)]\<rparr>,
         sys_counter := c, sys_pending := (sys_pending s)(cid \<mapsto> length (futs (sys_futures s))),
         sys_timers := sys_timers s @ (if 0 < so_timeout (async_options opts) then [cid] else [])\<rparr>))
      (\<lambda>(s', _). Returns (s', length (futs (sys_futures s))))"
  using assms
  by (cases s; cases "so_callback (async_options opts)"; cases "0 < so_timeout (async_options opts)")
    (simp_all add: send_async_def new_future_def track_pending_def on_complete_def fresh_future_def empty_future_def Let_def)

lemma send_async_arrives:
  assumes "sys_ok s" and "sys_limiter s = None" and "destination t s = Local b" and "b < length (sys_actors s)"
    and "new_actor_id (sys_node s) now (sys_counter s) = (c, cid)"
    and "accepts (request_envelope cid (ba_id (sys_actors s ! a)) m (async_options opts)) (mailbox_of b s)"
  obtains mb st where
    "send_async now nows a t m opts s =
       Returns ((put_mailbox b mb (s\<lparr>sys_futures := (sys_futures s)\<lparr>futs := futs (sys_futures s) @
           [fresh_future (async_options opts)]\<rparr>,
         sys_counter := c, sys_pending := (sys_pending s)(cid \<mapsto> length (futs (sys_futures s))),
         sys_timers := sys_timers s @ (if 0 < so_timeout (async_options opts) then [cid] else []),
         sys_metrics := map_option inc_out (sys_metrics s)\<rparr>))\<lparr>sys_store := st\<rparr>, length (futs (sys_futures s)))"
    "mb_inv mb"
    "lanes mb = lanes_push (request_envelope cid (ba_id (sys_actors s ! a)) m (async_options opts)) (lanes (mailbox_of b s))"
proof -
  let ?o = "async_options opts" and ?f = "length (futs (sys_futures s))"
  let ?s2 = "s\<lparr>sys_futures := (sys_futures s)\<lparr>futs := futs (sys_futures s) @ [fresh_future ?o]\<rparr>,
         sys_counter := c, sys_pending := (sys_pending s)(cid \<mapsto> ?f),
         sys_timers := sys_timers s @ (if 0 < so_timeout ?o then [cid] else [])\<rparr>"
  let ?s3 = "?s2\<lparr>sys_metrics := map_option inc_out (sys_metrics s)\<rparr>"
  let ?me = "\<lparr>ekind = kind_request, from_id = ba_id (sys_actors s ! a), corr_id = cid, reply_to = ba_id (sys_actors s ! a)\<rparr>"
  have d: "destination t ?s3 = Local b"
    using assms(3) by (cases "(t, s)" rule: destination.cases) (auto simp: dest_of_id_def split: if_splits option.splits target.splits)
  have "send_async now nows a t m opts s =
      and_then (send_request nows (Some a) t cid m (ba_id (sys_actors s ! a)) (so_priority ?o) (so_persist ?o) ?s2)
        (\<lambda>(s', _). Returns (s', ?f))"
    by (rule send_async_request [OF assms(5)])
  also have "send_request nows (Some a) t cid m (ba_id (sys_actors s ! a)) (so_priority ?o) (so_persist ?o) ?s2 =
      ba_tell b (Request cid m (ba_id (sys_actors s ! a))) ?me (so_priority ?o) (so_persist ?o) ?s3"
    using assms(2) d by (simp add: send_request_def prologue_unlimited route_dest sender_id_def)
  finally have e: "send_async now nows a t m opts s = and_then
      (ba_tell b (Request cid m (ba_id (sys_actors s ! a))) ?me (so_priority ?o) (so_persist ?o) ?s3)
        (\<lambda>(s', _). Returns (s', ?f))" .
  have "sys_ok ?s3" using assms(1) by simp
  moreover have "b < length (sys_actors ?s3)" using assms(4) by simp
  moreover have "accepts \<lparr>prio = so_priority ?o, payload = Request cid m (ba_id (sys_actors s ! a)), meta = ?me,
      persist_flag = so_persist ?o\<rparr> (mailbox_of b ?s3)"
    using assms(6) by (simp add: request_envelope_def)
  ultimately obtain mb st where "ba_tell b (Request cid m (ba_id (sys_actors s ! a))) ?me (so_priority ?o)
        (so_persist ?o) ?s3 = Returns ((put_mailbox b mb ?s3)\<lparr>sys_store := st\<rparr>, None)"
    "mb_inv mb"
    "lanes mb = lanes_push (request_envelope cid (ba_id (sys_actors s ! a)) m ?o) (lanes (mailbox_of b s))"
    by (rule ba_tell_accepts) (simp add: request_envelope_def)
  then show thesis
    by (intro that [of st mb]) (simp_all add: e)
qed

text \<open>A handler that answers with a function of the payload.\<close>

definition replying :: "('u msg \<Rightarrow> 'u msg option \<times> aerror option) \<Rightarrow> 'u handler" where
  "replying g cx m s =
     (case respond [] cx (fst (g m)) (snd (g m)) s of
        Returns s' \<Rightarrow> Some (s', False) | Waits \<Rightarrow> None | Panics \<Rightarrow> Some (s, True))"

lemma dest_of_id_put_mailbox [simp]:
  "dest_of_id aid (put_mailbox a mb s) = dest_of_id aid s" "dest_of_id aid (s\<lparr>sys_store := st\<rparr>) = dest_of_id aid s"
  by (simp_all add: dest_of_id_def split: option.split target.split)

lemma run_iter_replies:
  assumes "sys_ok s" and "sys_limiter s = None" and "a < length (sys_actors s)" and "b < length (sys_actors s)"
    and "a \<noteq> b" and "ba_receive (sys_actors s ! b)"
    and "lanes_pop (lanes (mailbox_of b s)) = (l, Some (request_envelope cid aid m opt))"
    and "cid \<noteq> []" and "dest_of_id aid s = Local a" and "g m = (v, err)"
    and "accepts (response_envelope cid (ba_id (sys_actors s ! b)) v err) (mailbox_of a s)"
  obtains mb mb' ms st where
    "run_iter (replying g) b s = Returns [(put_mailbox a mb' ((put_mailbox b mb s)\<lparr>sys_metrics := ms\<rparr>))\<lparr>sys_store := st\<rparr>]"
    "mb_inv mb" "lanes mb = l" "mb_inv mb'"
    "lanes mb' = lanes_push (response_envelope cid (ba_id (sys_actors s ! b)) v err) (lanes (mailbox_of a s))"
proof -
  let ?bid = "ba_id (sys_actors s ! b)"
  obtain mb where i: "run_iter (replying g) b s =
      and_then (handle (replying g) b (request_envelope cid aid m opt) (put_mailbox b mb s)) (\<lambda>s'. Returns [s'])"
    and mb: "mb_inv mb" "lanes mb = l"
    using run_iter_pop [OF assms(1,4,7)] by metis
  let ?s1 = "(put_mailbox b mb s)\<lparr>sys_metrics := map_option inc_in (sys_metrics s)\<rparr>"
  let ?s2 = "(put_mailbox b mb s)\<lparr>sys_metrics := map_option inc_out (map_option inc_in (sys_metrics s))\<rparr>"
  let ?me = "\<lparr>ekind = kind_response, from_id = ?bid, corr_id = cid, reply_to = []\<rparr>"
  have aid: "aid \<noteq> []" using assms(9) by (auto simp: dest_of_id_def split: if_splits)
  have ok: "sys_ok ?s2" "a < length (sys_actors ?s2)"
    using assms(1,3) mb(1) by (simp_all add: sys_ok_put_mailbox)
  moreover have "accepts \<lparr>prio = priority_urgent, payload = Response cid v err, meta = ?me, persist_flag = False\<rparr>
      (mailbox_of a ?s2)"
    using assms(5,11) by (simp add: response_envelope_def)
  ultimately obtain mb' st where t: "ba_tell a (Response cid v err) ?me priority_urgent False ?s2 =
      Returns ((put_mailbox a mb' ?s2)\<lparr>sys_store := st\<rparr>, None)" "mb_inv mb'"
    "lanes mb' = lanes_push (response_envelope cid ?bid v err) (lanes (mailbox_of a s))"
    by (rule ba_tell_accepts) (simp add: response_envelope_def assms(5))
  have "send_response [] ?bid aid cid v err ?s1 = Returns ((put_mailbox a mb' ?s2)\<lparr>sys_store := st\<rparr>, None)"
    using t(1) assms(2,9) by (simp add: send_response_def prologue_unlimited deliver_to_id_dest option.map_comp)
  then have "respond [] \<lparr>cx_self = b, cx_sender = aid, cx_corr = cid, cx_reply = aid\<rparr> v err ?s1 =
      Returns ((put_mailbox a mb' ?s2)\<lparr>sys_store := st\<rparr>)"
    using assms(4,8) aid by (simp add: respond_def)
  then have "handle (replying g) b (request_envelope cid aid m opt) (put_mailbox b mb s) =
      Returns ((put_mailbox a mb' ?s2)\<lparr>sys_store := st\<rparr>)"
    using assms(4,6,10) by (simp add: handle_def request_envelope_def kinds recovered_def replying_def Let_def)
  then show thesis
    using mb t by (intro that) (simp_all add: i)
qed

lemma run_iter_completes:
  assumes "sys_ok s" and "a < length (sys_actors s)"
    and "lanes_pop (lanes (mailbox_of a s)) = (l, Some (response_envelope cid bid v err))"
    and "sys_pending s cid = Some f"
  obtains s' where "run_iter h a s = Returns [s']" "sys_pending s' = (sys_pending s)(cid := None)"
    "sys_futures s' = complete f (Val (Response cid v err)) (sys_futures s)"
    "sys_breakers s' = sys_breakers s" "sys_tokens s' = sys_tokens s"
proof -
  obtain mb where "run_iter h a s =
      and_then (handle h a (response_envelope cid bid v err) (put_mailbox a mb s)) (\<lambda>s'. Returns [s'])"
    using run_iter_pop [OF assms(1,2,3)] by metis
  then have "run_iter h a s = Returns [complete_future cid v err ((put_mailbox a mb s)\<lparr>sys_metrics := map_option inc_in (sys_metrics s)\<rparr>)]"
    by (simp add: handle_def response_envelope_def)
  then show thesis
    using assms(4) by (elim that) (simp_all add: complete_future_def)
qed

lemma complete_fresh:
  fixes v :: "'u msg gval" and opt :: send_options
  assumes "h = g\<lparr>futs := futs g @ [fresh_future opt]\<rparr>"
  shows "futs (complete (length (futs g)) v h) ! length (futs g) = settled v"
    and "calls (complete (length (futs g)) v h) = calls g @ (case so_callback opt of None \<Rightarrow> [] | Some k \<Rightarrow> [(k, v)])"
  using assms by (cases "so_callback opt";
      simp add: complete_def settle_def fresh_future_def empty_future_def settled_def Let_def)+

text \<open>The server answers and the client takes the answer.\<close>

lemma answer_completes:
  assumes "sys_ok s" and "sys_limiter s = None" and "a < length (sys_actors s)" and "b < length (sys_actors s)"
    and "a \<noteq> b" and "ba_receive (sys_actors s ! b)"
    and "lanes_pop (lanes (mailbox_of b s)) = (l, Some (request_envelope cid aid m opt))"
    and "cid \<noteq> []" and "dest_of_id aid s = Local a" and "g m = (v, err)"
    and "accepts (response_envelope cid (ba_id (sys_actors s ! b)) v err) (mailbox_of a s)"
    and "fst (lanes (mailbox_of a s)) = []" and "sys_pending s cid = Some f"
  obtains s2 s3 where "run_iter (replying g) b s = Returns [s2]" "run_iter h a s2 = Returns [s3]"
    "sys_pending s3 = (sys_pending s)(cid := None)"
    "sys_futures s3 = complete f (Val (Response cid v err)) (sys_futures s)"
    "sys_breakers s3 = sys_breakers s" "sys_tokens s3 = sys_tokens s"
proof -
  let ?r = "response_envelope cid (ba_id (sys_actors s ! b)) v err"
  obtain mb mb' ms st where
    reply: "run_iter (replying g) b s = Returns [(put_mailbox a mb' ((put_mailbox b mb s)\<lparr>sys_metrics := ms\<rparr>))\<lparr>sys_store := st\<rparr>]"
    and mb: "mb_inv mb" "mb_inv mb'" "lanes mb' = lanes_push ?r (lanes (mailbox_of a s))"
    using run_iter_replies [where g = g and m = m, OF assms(1-11)] by metis
  let ?s2 = "(put_mailbox a mb' ((put_mailbox b mb s)\<lparr>sys_metrics := ms\<rparr>))\<lparr>sys_store := st\<rparr>"
  have ok: "sys_ok ?s2" "a < length (sys_actors ?s2)" "sys_pending ?s2 cid = Some f"
    using assms(1,3,13) mb by (simp_all add: sys_ok_put_mailbox)
  have "mailbox_of a ?s2 = mb'" using assms(3) by simp
  then have p: "lanes_pop (lanes (mailbox_of a ?s2)) = (lanes (mailbox_of a s), Some ?r)"
    using mb(3) assms(12) by (cases "lanes (mailbox_of a s)") (simp add: response_envelope_def kinds)
  obtain s3 where s3: "run_iter h a ?s2 = Returns [s3]" "sys_pending s3 = (sys_pending ?s2)(cid := None)"
      "sys_futures s3 = complete f (Val (Response cid v err)) (sys_futures ?s2)"
      "sys_breakers s3 = sys_breakers ?s2" "sys_tokens s3 = sys_tokens ?s2"
    by (rule run_iter_completes [OF ok(1,2) p ok(3)])
  then show thesis
    by (intro that [OF reply s3(1)]) simp_all
qed

lemma new_actor_id_nonempty: "new_actor_id node now c = (c', cid) \<Longrightarrow> cid \<noteq> []"
  by (auto simp: new_actor_id_def hex_encode_def hex_byte_def be_bytes_def upt_rec Let_def)

subsection \<open>What a delivery leaves alone\<close>

text \<open>What no delivery touches.\<close>

definition face :: "'u base_actor \<Rightarrow> _" where
  "face x = (ba_id x, ba_name x, ba_receive x, ba_wal x, ba_state x, ba_started x, ba_stopped x, ba_done x)"

definition core :: "'u system \<Rightarrow> _" where
  "core s = (sys_registry s, sys_pending s, sys_futures s, sys_breakers s, sys_tokens s, sys_timers s, sys_counter s, sys_node s,
     sys_stops s, sys_failed s, map face (sys_actors s))"

lemma core_put_mailbox: "core ((put_mailbox a mb s)\<lparr>sys_store := st\<rparr>) = core s"
  by (cases "a < length (sys_actors s)")
    (simp_all add: core_def face_def put_mailbox_def set_actor_def map_update list_update_same_conv list_update_beyond)

lemma hand_over_core:
  assumes "hand_over d me pri m persist s = Returns (s', err)"
  shows "core s' = core s"
proof (cases d)
  case (Local a)
  obtain mb st r where "mb_push \<lparr>prio = pri, payload = m, meta = me, persist_flag = persist\<rparr> [] (mailbox_of a s) (sys_store s) =
      Some (mb, st, r)" and "s' = (put_mailbox a mb s)\<lparr>sys_store := st\<rparr>"
    using assms Local by (auto simp: ba_tell_def put_mailbox_def Let_def elim: and_then.elims split: option.splits)
  then show ?thesis by (simp add: core_put_mailbox)
next
  case (Remote addr aid)
  then show ?thesis
    using assms
    by (auto simp: send_over_def remote_deliver_def conn_def core_def split: option.splits prod.splits if_splits)
qed (use assms in \<open>auto simp: receive_direct_def core_def split: target.splits\<close>)

lemma send_prologue_core: "send_prologue nows s = Returns s1 \<Longrightarrow> core s1 = core s"
  by (erule send_prologue_Returns) (simp add: core_def)

lemma and_then_Returns: "and_then x f = Returns y \<longleftrightarrow> (\<exists>z. x = Returns z \<and> f z = Returns y)"
  by (cases x) auto

lemma send_request_core:
  assumes "send_request nows from t cid m reply pri persist s = Returns (s', err)"
  shows "core s' = core s"
proof -
  obtain s1 where "send_prologue nows s = Returns s1"
    and "hand_over (destination t s1) \<lparr>ekind = kind_request, from_id = sender_id from s1, corr_id = cid, reply_to = reply\<rparr>
      pri (Request cid m reply) persist s1 = Returns (s', err)"
    using assms by (auto simp: send_request_def and_then_Returns route_dest)
  then show ?thesis using send_prologue_core hand_over_core by metis
qed

text \<open>\<open>SendAsync\<close>: one new future, pending under a new id, with a timer if there is a timeout.\<close>

lemma send_async_core:
  assumes "send_async now nows a t m opts s = Returns (s', f)"
    and "new_actor_id (sys_node s) now (sys_counter s) = (c, cid)"
  shows "f = length (futs (sys_futures s))"
    and "core s' = core (s\<lparr>sys_futures := (sys_futures s)\<lparr>futs := futs (sys_futures s) @ [fresh_future (async_options opts)]\<rparr>,
      sys_counter := c, sys_pending := (sys_pending s)(cid \<mapsto> f),
      sys_timers := sys_timers s @ (if 0 < so_timeout (async_options opts) then [cid] else [])\<rparr>)"
proof -
  let ?o = "async_options opts" and ?f = "length (futs (sys_futures s))"
  let ?s2 = "s\<lparr>sys_futures := (sys_futures s)\<lparr>futs := futs (sys_futures s) @ [fresh_future ?o]\<rparr>,
         sys_counter := c, sys_pending := (sys_pending s)(cid \<mapsto> ?f),
         sys_timers := sys_timers s @ (if 0 < so_timeout ?o then [cid] else [])\<rparr>"
  obtain e where "send_request nows (Some a) t cid m (ba_id (sys_actors s ! a)) (so_priority ?o) (so_persist ?o) ?s2 =
      Returns (s', e)" and f: "f = ?f"
    using assms(1) unfolding send_async_request [OF assms(2)] and_then_Returns by fastforce
  then have "core s' = core ?s2" using send_request_core by blast
  then show "f = ?f" "core s' = core (s\<lparr>sys_futures := (sys_futures s)\<lparr>futs := futs (sys_futures s) @ [fresh_future ?o]\<rparr>,
      sys_counter := c, sys_pending := (sys_pending s)(cid \<mapsto> f),
      sys_timers := sys_timers s @ (if 0 < so_timeout ?o then [cid] else [])\<rparr>)"
    unfolding f by (simp_all only:)
qed

text \<open>An \<open>Ask\<close> that was admitted and finds no token.\<close>

lemma ask_degraded:
  assumes "target_id t s = k" and "k \<noteq> []" and "sys_breakers s k = Some br"
    and "breaker_allow (ck_allow ck) br = (b2, True)" and "sys_tokens s = 4096" and "so_degrade opt"
  shows "ask ck others a t m opt s = and_then
    (send_async (ck_id ck) (ck_limit ck) a t m
       (Some (opt\<lparr>so_timeout := if so_timeout opt = 0 then 5000000000 else so_timeout opt, so_degrade := False\<rparr>))
       (s\<lparr>sys_breakers := (sys_breakers s)(k \<mapsto> b2)\<rparr>))
    (\<lambda>(s4, f). Returns (s4, None, Some f, Some ErrDegradedToAsync))"
  using assms by (simp add: ask_def breaker_for_def breaker_admits_def with_breaker_def try_acquire_token_def)

text \<open>The request lies in the mailbox of an idle server.\<close>

lemma request_arrives:
  assumes "sys_ok s" and "sys_limiter s = None"
    and "a < length (sys_actors s)" and "b < length (sys_actors s)" and "a \<noteq> b"
    and "destination t s = Local b" and "dest_of_id aid s = Local a" and "aid = ba_id (sys_actors s ! a)"
    and "lanes (mailbox_of b s) = ([], [])" and "new_actor_id (sys_node s) now (sys_counter s) = (c, cid)"
    and "accepts (request_envelope cid aid m (async_options opts)) (mailbox_of b s)"
    and "f = length (futs (sys_futures s))"
  obtains s1 where "send_async now nows a t m opts s = Returns (s1, f)"
    "sys_ok s1" "sys_limiter s1 = None" "length (sys_actors s1) = length (sys_actors s)"
    "ba_receive (sys_actors s1 ! b) = ba_receive (sys_actors s ! b)" "ba_id (sys_actors s1 ! b) = ba_id (sys_actors s ! b)"
    "sys_actors s1 ! a = sys_actors s ! a" "dest_of_id aid s1 = Local a"
    "lanes_pop (lanes (mailbox_of b s1)) = (([], []), Some (request_envelope cid aid m (async_options opts)))"
    "sys_pending s1 = (sys_pending s)(cid \<mapsto> f)"
    "sys_futures s1 = (sys_futures s)\<lparr>futs := futs (sys_futures s) @ [fresh_future (async_options opts)]\<rparr>"
    "sys_breakers s1 = sys_breakers s" "sys_tokens s1 = sys_tokens s"
proof -
  let ?o = "async_options opts"
  let ?prep = "s\<lparr>sys_futures := (sys_futures s)\<lparr>futs := futs (sys_futures s) @ [fresh_future ?o]\<rparr>,
    sys_counter := c, sys_pending := (sys_pending s)(cid \<mapsto> f),
    sys_timers := sys_timers s @ (if 0 < so_timeout ?o then [cid] else []),
    sys_metrics := map_option inc_out (sys_metrics s)\<rparr>"
  have acc: "accepts (request_envelope cid (ba_id (sys_actors s ! a)) m ?o) (mailbox_of b s)"
    using assms(8,11) by simp
  obtain mb st where send: "send_async now nows a t m opts s = Returns ((put_mailbox b mb ?prep)\<lparr>sys_store := st\<rparr>, f)"
    and mb: "mb_inv mb" "lanes mb = lanes_push (request_envelope cid aid m ?o) ([], [])"
    using send_async_arrives [OF assms(1,2,6,4,10) acc] unfolding assms(8,9,12) by metis
  have "dest_of_id aid ((put_mailbox b mb ?prep)\<lparr>sys_store := st\<rparr>) = Local a"
    using assms(7) by (auto simp: dest_of_id_def split: if_splits option.splits target.splits)
  then show thesis
    by (intro that [OF send]) (use assms mb in \<open>simp_all add: sys_ok_put_mailbox\<close>)
qed

subsection \<open>Properties\<close>

text \<open>C3. A request is answered, end to end. A client and a server run in one system without a
  limiter, the server is idle and answers every request with a function of its payload, the
  client has no urgent message waiting, and both mailboxes accept a message. Then \<open>SendAsync\<close>
  returns an incomplete future, one round of the server's loop handles the request and sends
  the response, one round of the client's loop completes the future with exactly that answer
  under the correlation id of the request, the callback is called once, and the request is
  no longer pending.\<close>

theorem request_roundtrip:
  fixes s :: "'u system"
  assumes "sys_ok s" and "sys_limiter s = None"
    and "a < length (sys_actors s)" and "b < length (sys_actors s)" and "a \<noteq> b"
    and "ba_receive (sys_actors s ! b)"
    and "destination t s = Local b" and "dest_of_id (ba_id (sys_actors s ! a)) s = Local a"
    and "lanes (mailbox_of b s) = ([], [])" and "fst (lanes (mailbox_of a s)) = []"
    and "new_actor_id (sys_node s) now (sys_counter s) = (c, cid)" and "g m = (v, err)"
    and "accepts (request_envelope cid (ba_id (sys_actors s ! a)) m (async_options opts)) (mailbox_of b s)"
    and "accepts (response_envelope cid (ba_id (sys_actors s ! b)) v err) (mailbox_of a s)"
    and "f = length (futs (sys_futures s))"
  shows "\<exists>s1 s2 s3. send_async now nows a t m opts s = Returns (s1, f) \<and>
    sys_pending s1 cid = Some f \<and> \<not> fdone (futs (sys_futures s1) ! f) \<and>
    run_iter (replying g) b s1 = Returns [s2] \<and> run_iter h a s2 = Returns [s3] \<and>
    futs (sys_futures s3) ! f = settled (Val (Response cid v err)) \<and>
    calls (sys_futures s3) = calls (sys_futures s) @
      (case so_callback (async_options opts) of None \<Rightarrow> [] | Some k \<Rightarrow> [(k, Val (Response cid v err))]) \<and>
    sys_pending s3 = (sys_pending s)(cid := None)"
proof -
  let ?o = "async_options opts" and ?aid = "ba_id (sys_actors s ! a)"
  obtain s1 where s1: "send_async now nows a t m opts s = Returns (s1, f)"
    "sys_ok s1" "sys_limiter s1 = None" "length (sys_actors s1) = length (sys_actors s)"
    "ba_receive (sys_actors s1 ! b) = ba_receive (sys_actors s ! b)" "ba_id (sys_actors s1 ! b) = ba_id (sys_actors s ! b)"
    "sys_actors s1 ! a = sys_actors s ! a" "dest_of_id ?aid s1 = Local a"
    "lanes_pop (lanes (mailbox_of b s1)) = (([], []), Some (request_envelope cid ?aid m ?o))"
    "sys_pending s1 = (sys_pending s)(cid \<mapsto> f)"
    and fut: "sys_futures s1 = (sys_futures s)\<lparr>futs := futs (sys_futures s) @ [fresh_future ?o]\<rparr>"
    using request_arrives [OF assms(1-5,7,8) refl assms(9,11,13,15)] by metis
  have ok: "a < length (sys_actors s1)" "b < length (sys_actors s1)" "ba_receive (sys_actors s1 ! b)"
    "accepts (response_envelope cid (ba_id (sys_actors s1 ! b)) v err) (mailbox_of a s1)"
    "fst (lanes (mailbox_of a s1)) = []" "sys_pending s1 cid = Some f"
    using assms(3,4,6,10,14) s1 by simp_all
  obtain s2 s3 where fin: "run_iter (replying g) b s1 = Returns [s2]" "run_iter h a s2 = Returns [s3]"
    "sys_pending s3 = (sys_pending s1)(cid := None)"
    "sys_futures s3 = complete f (Val (Response cid v err)) (sys_futures s1)"
    by (rule answer_completes [where g = g and m = m, OF s1(2,3) ok(1,2) assms(5) ok(3) s1(9)
          new_actor_id_nonempty [OF assms(11)] s1(8) assms(12) ok(4-6)])
  have "\<not> fdone (futs (sys_futures s1) ! f)"
    using assms(15) by (simp add: fut fresh_future_def empty_future_def)
  moreover have "sys_pending s3 = (sys_pending s)(cid := None)"
    using fin(3) s1(10) by (simp add: fun_eq_iff)
  ultimately show ?thesis
    using s1(1) fin(1,2) ok(6) complete_fresh [OF fut, of "Val (Response cid v err)"]
    unfolding assms(15) [symmetric] fin(4) [symmetric] by blast
qed

lemma small_system_simps:
  "sys_actors small_system = [small_actor ''a'', small_actor ''b'']" "sys_limiter small_system = None"
  "sys_futures small_system = \<lparr>futs = [], cells = [], calls = []\<rparr>" "sys_pending small_system = Map.empty"
  "sys_node small_system = ''n''" "sys_counter small_system = 0" "sys_tokens small_system = 0"
  "sys_breakers small_system = Map.empty" "sys_metrics small_system = None" "sys_timers small_system = []"
  by (simp_all add: small_system_def new_system_def)

lemma small_system_dest:
  "dest_of_id ''a'' small_system = Local 0" "dest_of_id ''b'' small_system = Local 1"
  by (simp_all add: dest_of_id_def small_system_def new_system_def register_def new_registry_def)

lemma small_mailbox_accepts: "accepts e small_mailbox"
  using small_mailbox_room [of e] by (simp add: accepts_def small_mailbox_def)

lemma small_actor_simps [simp]:
  "ba_id (small_actor aid) = aid" "ba_mb (small_actor aid) = small_mailbox" "ba_receive (small_actor aid)"
  by (simp_all add: small_actor_def)

theorem request_roundtrip_witness:
  "\<exists>c cid s1 s2 s3. new_actor_id ''n'' 0 0 = (c, cid) \<and>
     send_async 0 [] 0 (TRef ''b'') (User 7) None small_system = Returns (s1, 0) \<and>
     run_iter (replying (\<lambda>m. (Some m, None))) 1 s1 = Returns [s2] \<and>
     run_iter (replying (\<lambda>m. (None, None))) 0 s2 = Returns [s3] \<and>
     futs (sys_futures s3) ! 0 = settled (Val (Response cid (Some (User 7)) None)) \<and> sys_pending s3 = Map.empty"
proof -
  obtain c cid where i: "new_actor_id ''n'' 0 0 = (c, cid)" by (meson surj_pair)
  show ?thesis
    using request_roundtrip [where s = small_system and a = 0 and b = 1 and t = "TRef ''b''" and m = "User 7" and
        g = "\<lambda>m. (Some m, None)" and v = "Some (User 7)" and err = None and opts = None and f = 0 and now = 0 and
        nows = "[]" and h = "replying (\<lambda>m. (None, None))" and c = c and cid = cid] i
    by (auto simp: small_system_ok small_system_simps small_system_dest small_mailbox_lanes small_mailbox_accepts)
qed

text \<open>C37. Degrading can disable a target for good. When the wait tokens are used up, an \<open>Ask\<close>
  that allows degrading is admitted by the breaker and then sent as an asynchronous request,
  whose outcome is never reported to the breaker. If that \<open>Ask\<close> was the probe of an open
  breaker, the breaker stays half-open with its probe taken: in every later state with this
  breaker, every \<open>Ask\<close> to the target, at any time, is answered with "circuit open" and leaves
  the breaker as it is.\<close>

theorem ask_degrade_loses_probe:
  fixes s :: "'u system"
  assumes "target_id t s = k" and "k \<noteq> []" and "sys_breakers s k = Some br" and "bstate br = breaker_open"
    and "time_sub (ck_allow ck) (opened_at br) \<ge> open_for br"
    and "sys_tokens s = 4096" and "so_degrade opt"
    and "ask ck others a t m opt s = Returns (s', resp, fut, err)"
  shows "resp = None \<and> err = Some ErrDegradedToAsync \<and>
    (\<forall>(s2 :: 'u system) ck2 others2 a2 t2 m2 opt2. sys_breakers s2 k = sys_breakers s' k \<longrightarrow> target_id t2 s2 = k \<longrightarrow>
       (\<exists>s3. ask ck2 others2 a2 t2 m2 opt2 s2 = Returns (s3, None, None, Some ErrCircuitOpen) \<and>
         sys_breakers s3 k = sys_breakers s' k))"
proof -
  obtain b2 where allow: "breaker_allow (ck_allow ck) br = (b2, True)" and b2: "bstate b2 = breaker_half_open" "probe b2"
    using assms(4,5) by (auto simp: breaker_allow_def take_probe_def breaker_states)
  let ?s2 = "s\<lparr>sys_breakers := (sys_breakers s)(k \<mapsto> b2)\<rparr>"
  let ?opt = "opt\<lparr>so_timeout := if so_timeout opt = 0 then 5000000000 else so_timeout opt, so_degrade := False\<rparr>"
  have "ask ck others a t m opt s = and_then (send_async (ck_id ck) (ck_limit ck) a t m (Some ?opt) ?s2)
      (\<lambda>(s4, f). Returns (s4, None, Some f, Some ErrDegradedToAsync))"
    by (rule ask_degraded [OF assms(1,2,3) allow assms(6,7)])
  then have "and_then (send_async (ck_id ck) (ck_limit ck) a t m (Some ?opt) ?s2)
      (\<lambda>(s4, f). Returns (s4, None, Some f, Some ErrDegradedToAsync)) = Returns (s', resp, fut, err)"
    using assms(8) by metis
  then obtain f where sent: "send_async (ck_id ck) (ck_limit ck) a t m (Some ?opt) ?s2 = Returns (s', f)"
    and res: "resp = None" "err = Some ErrDegradedToAsync"
    by (auto simp: and_then_Returns)
  obtain c cid where "new_actor_id (sys_node ?s2) (ck_id ck) (sys_counter ?s2) = (c, cid)" by (meson surj_pair)
  from send_async_core(2) [OF sent this] have b: "sys_breakers s' k = Some b2"
    by (simp add: core_def)
  have rej: "breaker_allow now b2 = (b2, False)" for now
    using b2 by (simp add: breaker_allow_def take_probe_def breaker_states)
  have ex: "\<exists>s3. ask ck2 others2 a2 t2 m2 opt2 s2 = Returns (s3, None, None, Some ErrCircuitOpen) \<and>
      sys_breakers s3 k = Some b2"
    if "sys_breakers s2 k = Some b2" "target_id t2 s2 = k" for ck2 others2 a2 t2 m2 opt2 and s2 :: "'u system"
    using that rej assms(2) by (simp add: ask_def breaker_for_def breaker_admits_def with_breaker_def)
  show ?thesis
    unfolding b res by (intro conjI refl allI impI) (rule ex; assumption)
qed

definition saturated_system :: "nat system" where
  "saturated_system = small_system\<lparr>sys_tokens := 4096, sys_breakers := [''b'' \<mapsto>
     (new_breaker 50 30000000000)\<lparr>failures := 50, bstate := breaker_open\<rparr>]\<rparr>"

definition late :: ask_clock where
  "late = \<lparr>ck_allow = 40000000000, ck_id = 0, ck_limit = [], ck_expired = False, ck_latency = 0, ck_report = 0\<rparr>"

lemma saturated_simps:
  "target_id (TRef ''b'') saturated_system = ''b''" "sys_tokens saturated_system = 4096"
  "sys_breakers saturated_system ''b'' = Some ((new_breaker 50 30000000000)\<lparr>failures := 50, bstate := breaker_open\<rparr>)"
  by (simp_all add: saturated_system_def target_id_def)

lemma saturated_allow:
  "breaker_allow (ck_allow late) ((new_breaker 50 30000000000)\<lparr>failures := 50, bstate := breaker_open\<rparr>) =
     ((new_breaker 50 30000000000)\<lparr>failures := 50, bstate := breaker_half_open, probe := True\<rparr>, True)"
  by (simp add: breaker_allow_def breaker_states new_breaker_def late_def time_sub_def take_probe_def min_i64_def max_i64_def)

lemma saturated_sends:
  "\<exists>s' fut. ask late id 0 (TRef ''b'') (User 7) (default_send\<lparr>so_degrade := True\<rparr>) saturated_system =
     Returns (s', None, fut, Some ErrDegradedToAsync)"
proof -
  obtain opt s where e: "ask late id 0 (TRef ''b'') (User 7) (default_send\<lparr>so_degrade := True\<rparr>) saturated_system =
      and_then (send_async 0 [] 0 (TRef ''b'') (User 7) (Some opt) s)
        (\<lambda>(s4, f). Returns (s4, None, Some f, Some ErrDegradedToAsync))"
    and s: "\<exists>brs. s = saturated_system\<lparr>sys_breakers := brs\<rparr>"
    using ask_degraded [OF saturated_simps(1) _ saturated_simps(3) saturated_allow saturated_simps(2)]
    by (fastforce simp: late_def)
  obtain c cid where i: "new_actor_id (sys_node s) 0 (sys_counter s) = (c, cid)" by (meson surj_pair)
  have sf: "sys_ok s" "destination (TRef ''b'') s = Local 1" "sys_limiter s = None"
      "sys_actors s = [small_actor ''a'', small_actor ''b'']"
    using s small_system_ok small_system_dest(2) small_system_simps
    by (auto simp: saturated_system_def sys_ok_def dest_of_id_def split: option.splits target.splits)
  have "1 < length (sys_actors s)"
    and "accepts (request_envelope cid (ba_id (sys_actors s ! 0)) (User 7) (async_options (Some opt))) (mailbox_of 1 s)"
    by (simp_all add: sf(4) small_mailbox_accepts)
  then have "\<exists>x. send_async 0 [] 0 (TRef ''b'') (User 7) (Some opt) s = Returns x"
    by (rule send_async_arrives [OF sf(1,3,2) _ i]) (rule exI)
  then show ?thesis unfolding e by auto
qed

theorem ask_degrade_loses_probe_witness:
  "\<exists>s' fut s3. ask late id 0 (TRef ''b'') (User 7) (default_send\<lparr>so_degrade := True\<rparr>) saturated_system =
       Returns (s', None, fut, Some ErrDegradedToAsync) \<and>
     ask late id 0 (TRef ''b'') (User 8) default_send s' = Returns (s3, None, None, Some ErrCircuitOpen)"
proof -
  obtain s' fut where s': "ask late id 0 (TRef ''b'') (User 7) (default_send\<lparr>so_degrade := True\<rparr>) saturated_system =
     Returns (s', None, fut, Some ErrDegradedToAsync)"
    using saturated_sends by blast
  have "time_sub (ck_allow late) (opened_at ((new_breaker 50 30000000000)\<lparr>failures := 50, bstate := breaker_open\<rparr>)) \<ge>
      open_for ((new_breaker 50 30000000000)\<lparr>failures := 50, bstate := breaker_open\<rparr>)"
    by (simp add: new_breaker_def late_def time_sub_def min_i64_def max_i64_def)
  note lost = ask_degrade_loses_probe [OF saturated_simps(1) _ saturated_simps(3) _ this saturated_simps(2) _ s']
  have "target_id (TRef ''b'') s' = ''b''" by (simp add: target_id_def)
  then show ?thesis using lost s' by simp blast
qed

end
