(* ===== verification/Asking.thy ===== *)
theory Asking
  imports Actor
begin

text \<open>
  \<open>Ask\<close> (\<open>actor/ask.go\<close>) together with the loops it needs: the round of the target, which sends
  the response, and the round of the caller's own loop, which takes it.
\<close>

subsection \<open>An Ask that is admitted and gets a token\<close>

text \<open>One round of a loop whose outcome is determined.\<close>

definition round_of :: "'u handler \<Rightarrow> nat \<Rightarrow> 'u system \<Rightarrow> 'u system" where
  "round_of h a s = (case run_iter h a s of Returns [s'] \<Rightarrow> s' | _ \<Rightarrow> s)"

lemma round_of_Returns: "run_iter h a s = Returns [s'] \<Longrightarrow> round_of h a s = s'"
  by (simp add: round_of_def)

definition ask_breaker :: "string \<Rightarrow> 'u system \<Rightarrow> breaker" where
  "ask_breaker k s = (case sys_breakers s k of None \<Rightarrow> new_breaker 50 30000000000 | Some br \<Rightarrow> br)"

definition ask_timeout :: "send_options \<Rightarrow> int" where
  "ask_timeout opt = (if so_timeout opt = 0 then 5000000000 else so_timeout opt)"

definition ask_options :: "send_options \<Rightarrow> send_options" where
  "ask_options opt = opt\<lparr>so_timeout := ask_timeout opt, so_degrade := False\<rparr>"

text \<open>The state in which \<open>Ask\<close> sends.\<close>

definition ask_sends :: "string \<Rightarrow> breaker \<Rightarrow> 'u system \<Rightarrow> 'u system" where
  "ask_sends k br s = s\<lparr>sys_breakers := (sys_breakers s)(k \<mapsto> br), sys_tokens := sys_tokens s + 1\<rparr>"

lemma ask_sends_simps [simp]:
  "sys_actors (ask_sends k br s) = sys_actors s" "sys_limiter (ask_sends k br s) = sys_limiter s"
  "sys_futures (ask_sends k br s) = sys_futures s" "sys_pending (ask_sends k br s) = sys_pending s"
  "sys_node (ask_sends k br s) = sys_node s" "sys_counter (ask_sends k br s) = sys_counter s"
  "sys_breakers (ask_sends k br s) = (sys_breakers s)(k \<mapsto> br)" "sys_tokens (ask_sends k br s) = sys_tokens s + 1"
  "dest_of_id aid (ask_sends k br s) = dest_of_id aid s" "sys_ok (ask_sends k br s) = sys_ok s"
  by (simp_all add: ask_sends_def dest_of_id_def sys_ok_def split: option.split target.split)

lemma ask_sends_destination [simp]: "destination t (ask_sends k br s) = destination t s"
  by (cases "(t, s)" rule: destination.cases) simp_all

text \<open>What \<open>Ask\<close> does with the result of its \<open>Await\<close>.\<close>

definition ask_ends :: "ask_clock \<Rightarrow> string \<Rightarrow> nat \<Rightarrow> 'u system \<Rightarrow> 'u msg fheap \<Rightarrow> 'u msg gval option \<Rightarrow>
    'u system \<times> 'u msg option \<times> nat option \<times> aerror option" where
  "ask_ends ck k f s h r =
     (let s1 = s\<lparr>sys_futures := h, sys_metrics := map_option (observe_latency (ck_latency ck)) (sys_metrics s)\<rparr>;
          s2 = with_breaker (if snd (ask_outcome r) = None then breaker_on_success
                 else breaker_on_failure (ck_report ck)) (Some k) s1
      in (release_token s2, fst (ask_outcome r), Some f, snd (ask_outcome r)))"

lemma ask_waits:
  assumes "target_id t s = k" and "k \<noteq> []" and "breaker_allow (ck_allow ck) (ask_breaker k s) = (br, True)"
    and "sys_tokens s < 4096"
    and "send_async (ck_id ck) (ck_limit ck) a t m (Some (ask_options opt)) (ask_sends k br s) = Returns (s5, f)"
  shows "ask ck others a t m opt s =
    (case await (ask_timeout opt) (ck_expired ck) f (sys_futures (others s5)) of
       (_, None) \<Rightarrow> Waits
     | (h, Some r) \<Rightarrow> Returns (ask_ends ck k f (others s5) h r))"
proof -
  obtain s1 where b: "breaker_for t s = (s1, Some k)" "sys_breakers s1 k = Some (ask_breaker k s)"
      "s1\<lparr>sys_breakers := (sys_breakers s1)(k \<mapsto> br)\<rparr> = s\<lparr>sys_breakers := (sys_breakers s)(k \<mapsto> br)\<rparr>"
    using assms(1,2) by (cases "sys_breakers s k") (auto simp: breaker_for_def ask_breaker_def)
  let ?s2 = "s\<lparr>sys_breakers := (sys_breakers s)(k \<mapsto> br)\<rparr>"
  have adm: "breaker_admits (ck_allow ck) (Some k) s1 = (?s2, True)"
    using b assms(3) by (simp add: breaker_admits_def with_breaker_def)
  have got: "try_acquire_token ?s2 = (ask_sends k br s, True)" "acquire_token ?s2 = Returns (ask_sends k br s)"
    using assms(4) by (simp_all add: try_acquire_token_def acquire_token_def ask_sends_def)
  show ?thesis
    unfolding ask_def b(1) prod.case adm Let_def
    unfolding ask_timeout_def [symmetric]
    unfolding ask_options_def [symmetric]
    using assms(5) by (simp add: got ask_ends_def Let_def split: prod.split option.split)
qed

lemma ask_ends_sys:
  assumes "sys_breakers s k = Some br" and "ask_ends ck k f s h r = (s', resp, fut, err)"
  shows "sys_breakers s' = (sys_breakers s)(k \<mapsto>
      if err = None then breaker_on_success br else breaker_on_failure (ck_report ck) br)"
    and "sys_tokens s' = sys_tokens s - 1" and "sys_pending s' = sys_pending s" and "sys_actors s' = sys_actors s"
    and "sys_futures s' = h" and "fut = Some f" and "(resp, err) = ask_outcome r"
  using assms by (auto simp: ask_ends_def with_breaker_def release_token_def Let_def)

lemma await_settled: "futs h ! f = settled v \<Longrightarrow> await timeout expired f h = (h, Some (Some v))"
  by (simp add: await_def settled_def)

lemma await_fresh:
  "futs h ! f = fresh_future opt \<Longrightarrow> 0 < timeout \<Longrightarrow>
    await timeout expired f h = (h, if expired then Some None else None)"
  by (simp add: await_def fresh_future_def empty_future_def)

lemma ask_answered:
  assumes "target_id t s = k" and "k \<noteq> []" and "breaker_allow (ck_allow ck) (ask_breaker k s) = (br, True)"
    and "sys_tokens s < 4096"
    and "send_async (ck_id ck) (ck_limit ck) a t m (Some (ask_options opt)) (ask_sends k br s) = Returns (s5, f)"
    and "others s5 = s6" and "sys_breakers s6 = (sys_breakers s)(k \<mapsto> br)" and "sys_tokens s6 = sys_tokens s + 1"
    and "futs (sys_futures s6) ! f = settled (Val (Response cid v err))"
  shows "\<exists>s'. ask ck others a t m opt s = Returns (s', Some (Response cid v err), Some f, err) \<and>
    sys_breakers s' = (sys_breakers s)(k \<mapsto>
      if err = None then breaker_on_success br else breaker_on_failure (ck_report ck) br) \<and>
    sys_tokens s' = sys_tokens s \<and> sys_pending s' = sys_pending s6"
proof -
  obtain s' resp fut err' where e: "ask_ends ck k f s6 (sys_futures s6) (Some (Val (Response cid v err))) = (s', resp, fut, err')"
    by (metis prod_cases4)
  have "sys_breakers s6 k = Some br" using assms(7) by simp
  note ends = ask_ends_sys [OF this e]
  show ?thesis
    using e ends assms(7,8) by (intro exI [of _ s'])
      (simp add: ask_waits [OF assms(1-5)] assms(6) await_settled [OF assms(9)] ask_outcome_def)
qed

lemma ask_expires:
  assumes "target_id t s = k" and "k \<noteq> []" and "breaker_allow (ck_allow ck) (ask_breaker k s) = (br, True)"
    and "sys_tokens s < 4096"
    and "send_async (ck_id ck) (ck_limit ck) a t m (Some (ask_options opt)) (ask_sends k br s) = Returns (s5, f)"
    and "others s5 = s6" and "sys_breakers s6 = (sys_breakers s)(k \<mapsto> br)" and "sys_tokens s6 = sys_tokens s + 1"
    and "futs (sys_futures s6) ! f = fresh_future o3" and "0 \<le> so_timeout opt"
  shows "\<not> ck_expired ck \<Longrightarrow> ask ck others a t m opt s = Waits"
    and "ck_expired ck \<Longrightarrow> \<exists>s'. ask ck others a t m opt s = Returns (s', None, Some f, Some ErrAskTimeout) \<and>
      sys_breakers s' = (sys_breakers s)(k \<mapsto> breaker_on_failure (ck_report ck) br) \<and>
      sys_tokens s' = sys_tokens s \<and> sys_pending s' = sys_pending s6 \<and> sys_actors s' = sys_actors s6"
proof -
  have wait: "await (ask_timeout opt) (ck_expired ck) f (sys_futures s6) =
      (sys_futures s6, if ck_expired ck then Some None else None)"
    using assms(10) by (intro await_fresh [OF assms(9)]) (simp add: ask_timeout_def)
  note run = ask_waits [OF assms(1-5), where others = others, unfolded assms(6) wait]
  show "ask ck others a t m opt s = Waits" if "\<not> ck_expired ck"
    using run that by simp
  obtain s' resp fut err' where e: "ask_ends ck k f s6 (sys_futures s6) None = (s', resp, fut, err')"
    by (metis prod_cases4)
  have "sys_breakers s6 k = Some br" using assms(7) by simp
  note ends = ask_ends_sys [OF this e]
  show "\<exists>s'. ask ck others a t m opt s = Returns (s', None, Some f, Some ErrAskTimeout) \<and>
      sys_breakers s' = (sys_breakers s)(k \<mapsto> breaker_on_failure (ck_report ck) br) \<and>
      sys_tokens s' = sys_tokens s \<and> sys_pending s' = sys_pending s6 \<and> sys_actors s' = sys_actors s6"
    if "ck_expired ck"
    using e ends assms(7,8) that by (intro exI [of _ s']) (simp add: run ask_outcome_def)
qed

lemma async_ask_options: "async_options (Some (ask_options opt)) = ask_options opt"
  by (simp add: async_options_def ask_options_def ask_timeout_def)

lemma request_envelope_ask [simp]: "request_envelope cid aid m (ask_options opt) = request_envelope cid aid m opt"
  by (simp add: request_envelope_def ask_options_def)

text \<open>The request of an \<open>Ask\<close> in the mailbox of an idle target, with all that the two rounds need.\<close>

lemma ask_arrives:
  assumes "sys_ok s" and "sys_limiter s = None"
    and "a < length (sys_actors s)" and "b < length (sys_actors s)" and "a \<noteq> b" and "ba_receive (sys_actors s ! b)"
    and "destination t s = Local b" and "dest_of_id aid s = Local a" and "aid = ba_id (sys_actors s ! a)"
    and "lanes (mailbox_of b s) = ([], [])" and "fst (lanes (mailbox_of a s)) = []"
    and "new_actor_id (sys_node s) now (sys_counter s) = (c, cid)"
    and "accepts (request_envelope cid aid m opt) (mailbox_of b s)"
    and "accepts (response_envelope cid (ba_id (sys_actors s ! b)) v err) (mailbox_of a s)"
    and "f = length (futs (sys_futures s))"
  obtains s1 where "send_async now nows a t m (Some (ask_options opt)) (ask_sends k br s) = Returns (s1, f)"
    "sys_ok s1" "sys_limiter s1 = None" "a < length (sys_actors s1)" "b < length (sys_actors s1)" "a \<noteq> b"
    "ba_receive (sys_actors s1 ! b)"
    "lanes_pop (lanes (mailbox_of b s1)) = (([], []), Some (request_envelope cid aid m opt))"
    "cid \<noteq> []" "dest_of_id aid s1 = Local a"
    "accepts (response_envelope cid (ba_id (sys_actors s1 ! b)) v err) (mailbox_of a s1)"
    "fst (lanes (mailbox_of a s1)) = []" "sys_pending s1 = (sys_pending s)(cid \<mapsto> f)"
    "sys_actors s1 ! a = sys_actors s ! a" "ba_id (sys_actors s1 ! b) = ba_id (sys_actors s ! b)"
    "sys_futures s1 = (sys_futures s)\<lparr>futs := futs (sys_futures s) @ [fresh_future (ask_options opt)]\<rparr>"
    "sys_breakers s1 = (sys_breakers s)(k \<mapsto> br)" "sys_tokens s1 = sys_tokens s + 1"
  by (rule request_arrives [of "ask_sends k br s" a b t aid now c cid m "Some (ask_options opt)" f nows])
    (use assms new_actor_id_nonempty [OF assms(12)] in \<open>simp_all add: async_ask_options\<close>)

subsection \<open>Properties\<close>

text \<open>C4. An \<open>Ask\<close> gets its answer only through the loop of the actor that asks. In a system as in
  \<open>request_roundtrip\<close>, with a token free and the breaker of the target admitting the call:
  if during the wait the target's loop and then the caller's loop make a round, \<open>Ask\<close> returns
  the answer of the handler, reports its success or its error to the breaker, gives its token
  back and leaves nothing pending. If only the target's loop makes its round, as when \<open>Ask\<close>
  is called in a handler and the caller's loop is busy with it, the response lies in the
  mailbox of the caller, \<open>Ask\<close> waits for its whole timeout, returns \<open>ErrAskTimeout\<close> and
  reports a failure of the target, which had answered.\<close>

theorem ask_needs_own_loop:
  fixes s :: "'u system"
  assumes "sys_ok s" and "sys_limiter s = None"
    and "a < length (sys_actors s)" and "b < length (sys_actors s)" and "a \<noteq> b"
    and "ba_receive (sys_actors s ! b)"
    and "destination t s = Local b" and "dest_of_id (ba_id (sys_actors s ! a)) s = Local a"
    and "lanes (mailbox_of b s) = ([], [])" and "fst (lanes (mailbox_of a s)) = []"
    and "new_actor_id (sys_node s) (ck_id ck) (sys_counter s) = (c, cid)" and "g m = (v, err)"
    and "accepts (request_envelope cid (ba_id (sys_actors s ! a)) m opt) (mailbox_of b s)"
    and "accepts (response_envelope cid (ba_id (sys_actors s ! b)) v err) (mailbox_of a s)"
    and "f = length (futs (sys_futures s))"
    and "target_id t s = k" and "k \<noteq> []" and "breaker_allow (ck_allow ck) (ask_breaker k s) = (br, True)"
    and "sys_tokens s < 4096" and "0 \<le> so_timeout opt"
  shows "(\<exists>s'. ask ck (\<lambda>x. round_of h a (round_of (replying g) b x)) a t m opt s =
        Returns (s', Some (Response cid v err), Some f, err) \<and>
      sys_breakers s' = (sys_breakers s)(k \<mapsto>
        if err = None then breaker_on_success br else breaker_on_failure (ck_report ck) br) \<and>
      sys_tokens s' = sys_tokens s \<and> sys_pending s' = (sys_pending s)(cid := None)) \<and>
    (\<not> ck_expired ck \<longrightarrow> ask ck (round_of (replying g) b) a t m opt s = Waits) \<and>
    (ck_expired ck \<longrightarrow> (\<exists>s'. ask ck (round_of (replying g) b) a t m opt s =
        Returns (s', None, Some f, Some ErrAskTimeout) \<and>
      sys_breakers s' = (sys_breakers s)(k \<mapsto> breaker_on_failure (ck_report ck) br) \<and>
      sys_tokens s' = sys_tokens s \<and> sys_pending s' = (sys_pending s)(cid \<mapsto> f) \<and>
      lanes (mailbox_of a s') =
        lanes_push (response_envelope cid (ba_id (sys_actors s ! b)) v err) (lanes (mailbox_of a s))))"
proof -
  let ?o = "ask_options opt" and ?aid = "ba_id (sys_actors s ! a)"
  obtain s1 where sent: "send_async (ck_id ck) (ck_limit ck) a t m (Some ?o) (ask_sends k br s) = Returns (s1, f)"
    and s1: "sys_ok s1" "sys_limiter s1 = None" "a < length (sys_actors s1)" "b < length (sys_actors s1)" "a \<noteq> b"
    "ba_receive (sys_actors s1 ! b)" "lanes_pop (lanes (mailbox_of b s1)) = (([], []), Some (request_envelope cid ?aid m opt))"
    "cid \<noteq> []" "dest_of_id ?aid s1 = Local a" "g m = (v, err)"
    "accepts (response_envelope cid (ba_id (sys_actors s1 ! b)) v err) (mailbox_of a s1)" "fst (lanes (mailbox_of a s1)) = []"
    and old: "sys_pending s1 = (sys_pending s)(cid \<mapsto> f)" "sys_actors s1 ! a = sys_actors s ! a"
    "ba_id (sys_actors s1 ! b) = ba_id (sys_actors s ! b)" "sys_breakers s1 = (sys_breakers s)(k \<mapsto> br)"
    "sys_tokens s1 = sys_tokens s + 1"
    and fut: "sys_futures s1 = (sys_futures s)\<lparr>futs := futs (sys_futures s) @ [fresh_future ?o]\<rparr>"
    using ask_arrives [OF assms(1-8) refl assms(9-11,13-15)] assms(12) by metis
  have pend: "sys_pending s1 cid = Some f" using old(1) by simp
  note asked = assms(16-19) sent
  obtain s2 s3 where both: "run_iter (replying g) b s1 = Returns [s2]" "run_iter h a s2 = Returns [s3]"
    "sys_pending s3 = (sys_pending s1)(cid := None)"
    "sys_futures s3 = complete f (Val (Response cid v err)) (sys_futures s1)"
    "sys_breakers s3 = sys_breakers s1" "sys_tokens s3 = sys_tokens s1"
    by (rule answer_completes [where g = g and m = m, OF s1 pend])
  have "futs (sys_futures s3) ! f = settled (Val (Response cid v err))"
    using complete_fresh(1) [OF fut] unfolding assms(15) [symmetric] both(4) .
  from ask_answered [OF asked _ _ _ this, where others = "\<lambda>x. round_of h a (round_of (replying g) b x)"]
  have answered: "\<exists>s'. ask ck (\<lambda>x. round_of h a (round_of (replying g) b x)) a t m opt s =
        Returns (s', Some (Response cid v err), Some f, err) \<and>
      sys_breakers s' = (sys_breakers s)(k \<mapsto>
        if err = None then breaker_on_success br else breaker_on_failure (ck_report ck) br) \<and>
      sys_tokens s' = sys_tokens s \<and> sys_pending s' = (sys_pending s)(cid := None)"
    using both old by (simp add: round_of_Returns)
  obtain mb mb' ms st where
    one: "run_iter (replying g) b s1 = Returns [(put_mailbox a mb' ((put_mailbox b mb s1)\<lparr>sys_metrics := ms\<rparr>))\<lparr>sys_store := st\<rparr>]"
    and mb': "lanes mb' = lanes_push (response_envelope cid (ba_id (sys_actors s1 ! b)) v err) (lanes (mailbox_of a s1))"
    using run_iter_replies [where g = g and m = m, OF s1(1-11)] by metis
  let ?s2 = "(put_mailbox a mb' ((put_mailbox b mb s1)\<lparr>sys_metrics := ms\<rparr>))\<lparr>sys_store := st\<rparr>"
  have at: "sys_breakers ?s2 = (sys_breakers s)(k \<mapsto> br)" "sys_tokens ?s2 = sys_tokens s + 1"
    "futs (sys_futures ?s2) ! f = fresh_future ?o" "sys_pending ?s2 = (sys_pending s)(cid \<mapsto> f)"
    "lanes (mailbox_of a ?s2) =
      lanes_push (response_envelope cid (ba_id (sys_actors s ! b)) v err) (lanes (mailbox_of a s))"
    using old s1(3) mb' assms(15) by (simp_all add: fut)
  note silent = ask_expires [where others = "round_of (replying g) b", OF asked round_of_Returns [OF one] at(1-3) assms(20)]
  show ?thesis
    using answered silent [unfolded at(4)] at(5) by (intro conjI impI) metis+
qed

text \<open>Both halves, for a client that asks a server which echoes.\<close>

definition patient :: "bool \<Rightarrow> ask_clock" where
  "patient x = \<lparr>ck_allow = 0, ck_id = 0, ck_limit = [], ck_expired = x, ck_latency = 1, ck_report = 0\<rparr>"

lemma patient_simps [simp]: "ck_allow (patient x) = 0" "ck_id (patient x) = 0" "ck_expired (patient x) = x" "ck_report (patient x) = 0"
  by (simp_all add: patient_def)

lemma small_system_allows:
  "breaker_allow 0 (ask_breaker ''b'' small_system) = (new_breaker 50 30000000000, True)"
  by (simp add: ask_breaker_def small_system_simps breaker_allow_def new_breaker_def breaker_states)

theorem ask_needs_own_loop_witness:
  "\<exists>cid s' s2. ask (patient True) (\<lambda>x. round_of (replying (\<lambda>m. (None, None))) 0 (round_of (replying (\<lambda>m. (Some m, None))) 1 x))
       0 (TRef ''b'') (User 7) default_send small_system = Returns (s', Some (Response cid (Some (User 7)) None), Some 0, None) \<and>
     ask (patient True) (round_of (replying (\<lambda>m. (Some m, None))) 1) 0 (TRef ''b'') (User 7) default_send small_system =
       Returns (s2, None, Some 0, Some ErrAskTimeout) \<and>
     sys_breakers s2 ''b'' = Some (breaker_on_failure 0 (new_breaker 50 30000000000))"
proof -
  obtain c cid where i: "new_actor_id ''n'' 0 0 = (c, cid)" by (meson surj_pair)
  show ?thesis
    using ask_needs_own_loop [where s = small_system and a = 0 and b = 1 and t = "TRef ''b''" and m = "User 7" and
        g = "\<lambda>m. (Some m, None)" and v = "Some (User 7)" and err = None and opt = default_send and f = 0 and
        ck = "patient True" and h = "replying (\<lambda>m. (None, None))" and c = c and cid = cid and k = "''b''" and
        br = "new_breaker 50 30000000000"] i small_system_allows
    by (auto simp: small_system_ok small_system_simps small_system_dest small_mailbox_lanes small_mailbox_accepts
        target_id_def default_send_def)
qed

end
