(* ===== verification/Codec.thy ===== *)
theory Codec
  imports Actor
begin

text \<open>
  \<open>actor/codec.go\<close>, the codec and the service of \<open>actor/remote.go\<close>: how messages, envelopes and
  acknowledgements become bytes and are read again. The encoder and decoder of the standard
  library's gob package are arguments. Around them: the default serializer, the codec that gRPC
  calls, the handler that gRPC calls for a \<open>Deliver\<close> request, and what a call over the wire is.
\<close>

subsection \<open>Definitions\<close>

text \<open>\<open>gob.NewEncoder(&buf).Encode(v)\<close> leaves bytes in the buffer and may return an error.
  \<open>gob.NewDecoder(r).Decode(&v)\<close> reads one value and leaves the rest unread; a decoder for a
  struct fills in a value that is there already.\<close>

type_synonym 'v encoder = "'v \<Rightarrow> bytes \<times> string option"
type_synonym 'v decoder = "bytes \<Rightarrow> string + 'v \<times> bytes"
type_synonym 'v filler = "bytes \<Rightarrow> 'v \<Rightarrow> 'v \<times> string option"

definition gob_marshal :: "'v encoder \<Rightarrow> 'v \<Rightarrow> string + bytes" where
  "gob_marshal enc v = (case enc v of (buf, Some err) \<Rightarrow> Inl err | (buf, None) \<Rightarrow> Inr buf)"

definition gob_unmarshal :: "'v decoder \<Rightarrow> bytes \<Rightarrow> string + 'v" where
  "gob_unmarshal dec b = (case dec b of Inl err \<Rightarrow> Inl err | Inr (v, _) \<Rightarrow> Inr v)"

text \<open>The serializer of \<open>NewSystem\<close>. What it does with a system is in the two fields.\<close>

definition gob_serializer :: "'u msg encoder \<Rightarrow> 'u msg decoder \<Rightarrow> ('u msg \<Rightarrow> bytes option) \<times> (bytes \<Rightarrow> string + 'u msg)" where
  "gob_serializer enc dec =
     (\<lambda>m. case gob_marshal enc m of Inl _ \<Rightarrow> None | Inr b \<Rightarrow> Some b, gob_unmarshal dec)"

definition codec_name :: string where
  "codec_name = ''gob''"

definition codec_marshal :: "'v encoder \<Rightarrow> 'v \<Rightarrow> string + bytes" where
  "codec_marshal enc v = (case enc v of (buf, Some err) \<Rightarrow> Inl err | (buf, None) \<Rightarrow> Inr buf)"

definition codec_unmarshal :: "'v filler \<Rightarrow> bytes \<Rightarrow> 'v \<Rightarrow> 'v \<times> string option" where
  "codec_unmarshal fill data v = fill data v"

definition zero_envelope :: remote_envelope where
  "zero_envelope = \<lparr>re_to = [], re_from = [], re_kind = 0, re_priority = 0, re_corr = [], re_reply = [], re_payload = []\<rparr>"

definition zero_ack :: remote_ack where
  "zero_ack = \<lparr>ack_ok = False, ack_err = []\<rparr>"

text \<open>The method handler that \<open>register\<close> hands to gRPC; the request bytes come with \<open>dec\<close>.\<close>

definition deliver_handler :: "(remote_envelope \<Rightarrow> remote_envelope \<times> string option) \<Rightarrow> 'u system \<Rightarrow>
    ('u system \<times> (string + remote_ack)) outcome" where
  "deliver_handler dec s =
     (case dec zero_envelope of
        (env, Some err) \<Rightarrow> Returns (s, Inl err)
      | (env, None) \<Rightarrow> and_then (remote_receive env s) (\<lambda>(s', ack). Returns (s', Inr ack)))"

text \<open>What \<open>conn.Invoke\<close> with this codec is documented to do: the codec of the caller encodes the
  envelope, the handler of the other node gets these bytes through the same codec, and the
  acknowledgement comes back the same way. \<open>None\<close> is an error of \<open>Invoke\<close>.\<close>

record wire =
  enc_envelope :: "remote_envelope encoder"
  dec_envelope :: "remote_envelope filler"
  enc_ack :: "remote_ack encoder"
  dec_ack :: "remote_ack filler"

definition wire_call :: "wire \<Rightarrow> remote_envelope \<Rightarrow> 'u system \<Rightarrow> ('u system \<times> remote_ack option) outcome" where
  "wire_call w env t =
     (case codec_marshal (enc_envelope w) env of
        Inl _ \<Rightarrow> Returns (t, None)
      | Inr b \<Rightarrow>
          and_then (deliver_handler (codec_unmarshal (dec_envelope w) b) t) (\<lambda>(t', r).
            Returns (t', case r of
                Inl _ \<Rightarrow> None
              | Inr ack \<Rightarrow>
                  (case codec_marshal (enc_ack w) ack of
                     Inl _ \<Rightarrow> None
                   | Inr rb \<Rightarrow> (case codec_unmarshal (dec_ack w) rb zero_ack of
                        (ack', None) \<Rightarrow> Some ack'
                      | (_, Some _) \<Rightarrow> None)))))"

subsection \<open>Round trips\<close>

text \<open>What gob documents for a value whose type it knows: the encoding succeeds, and decoding it
  gives the value.\<close>

definition lossless :: "'v encoder \<Rightarrow> 'v decoder \<Rightarrow> 'v \<Rightarrow> bool" where
  "lossless enc dec v \<longleftrightarrow> snd (enc v) = None \<and> (\<exists>rest. dec (fst (enc v)) = Inr (v, rest))"

definition lossless_into :: "'v encoder \<Rightarrow> 'v filler \<Rightarrow> 'v \<Rightarrow> 'v \<Rightarrow> bool" where
  "lossless_into enc fill z v \<longleftrightarrow> snd (enc v) = None \<and> fill (fst (enc v)) z = (v, None)"

lemma gob_serializer_lossless:
  assumes "lossless enc dec m"
  shows "fst (gob_serializer enc dec) m = Some (fst (enc m))" "snd (gob_serializer enc dec) (fst (enc m)) = Inr m"
proof -
  show "fst (gob_serializer enc dec) m = Some (fst (enc m))"
    using assms by (cases "enc m") (simp add: lossless_def gob_serializer_def gob_marshal_def)
  show "snd (gob_serializer enc dec) (fst (enc m)) = Inr m"
    using assms by (auto simp: lossless_def gob_serializer_def gob_unmarshal_def)
qed

lemma wire_call_lossless:
  assumes "lossless_into (enc_envelope w) (dec_envelope w) zero_envelope env"
    and "remote_receive env t = Returns (t', ack)" and "lossless_into (enc_ack w) (dec_ack w) zero_ack ack"
  shows "wire_call w env t = Returns (t', Some ack)"
  using assms by (cases "enc_envelope w env"; cases "enc_ack w ack")
    (simp add: wire_call_def lossless_into_def codec_marshal_def codec_unmarshal_def deliver_handler_def)

subsection \<open>Properties\<close>

text \<open>C9. A message told to an actor on another node arrives there, through both codecs. The
  sender knows the location of the target, its transport is on and can reach the address, both
  nodes have the default serializer, and gob carries the message, the envelope and the
  acknowledgement. Then \<open>Tell\<close> encodes the message and the envelope, the handler of the other node
  decodes them, and \<open>Deliver\<close> puts the message into the mailbox of the target with its priority,
  kind and sender, exactly as a local \<open>Tell\<close> would, except that the persist option is dropped;
  \<open>Tell\<close> returns no error whatever that mailbox answered.\<close>

theorem gob_remote_tell:
  fixes s t :: "'u system"
  assumes "send_prologue nows s = Returns s1" and "tgt \<noteq> TNil" and "destination tgt s = Remote addr aid"
    and "unwrap (so_priority opts) m = (pri, pl)" and "sys_remote s = Some rt" and "addr \<in> rt_conns rt \<or> sys_dial s addr"
    and "sys_marshal s = fst (gob_serializer enc dec)" and "sys_unmarshal t = snd (gob_serializer enc dec)"
    and "lossless enc dec pl"
    and "env = \<lparr>re_to = aid, re_from = sender_id from s, re_kind = kind_user, re_priority = pri, re_corr = [],
      re_reply = [], re_payload = fst (enc pl)\<rparr>"
    and "lossless_into (enc_envelope w) (dec_envelope w) zero_envelope env"
    and "lossless_into (enc_ack w) (dec_ack w) zero_ack \<lparr>ack_ok = True, ack_err = []\<rparr>"
    and "sys_rpc s addr env = (case wire_call w env t of Returns (_, r) \<Rightarrow> r | _ \<Rightarrow> None)"
    and "by_id (sys_registry t) aid = Some (Some (TBase a))" and "sys_ok t"
    and "mb_policy (mailbox_of a t) \<noteq> backpressure_block"
  shows "\<exists>s' t' err. tell nows from tgt m opts s = Returns (s', None) \<and>
    wire_call w env t = Returns (t', Some \<lparr>ack_ok = True, ack_err = []\<rparr>) \<and> sys_ok t' \<and>
    pushed \<lparr>prio = pri, payload = pl,
      meta = \<lparr>ekind = kind_user, from_id = sender_id from s, corr_id = [], reply_to = []\<rparr>, persist_flag = False\<rparr>
      (mailbox_of a t) (mailbox_of a t') err"
proof -
  have b: "sys_marshal s pl = Some (fst (enc pl))" "sys_unmarshal t (fst (enc pl)) = Inr pl"
    using gob_serializer_lossless [OF assms(9)] by (simp_all add: assms(7,8))
  have "\<exists>t' err. remote_receive env t = Returns (t', \<lparr>ack_ok = True, ack_err = []\<rparr>) \<and> sys_ok t' \<and>
    pushed \<lparr>prio = pri, payload = pl,
      meta = \<lparr>ekind = kind_user, from_id = sender_id from s, corr_id = [], reply_to = []\<rparr>, persist_flag = False\<rparr>
      (mailbox_of a t) (mailbox_of a t') err"
    using remote_receive_tells [of t env pl a] assms(14,15,16) b(2) by (simp add: assms(10))
  then obtain t' err where t': "remote_receive env t = Returns (t', \<lparr>ack_ok = True, ack_err = []\<rparr>)" "sys_ok t'"
      "pushed \<lparr>prio = pri, payload = pl,
        meta = \<lparr>ekind = kind_user, from_id = sender_id from s, corr_id = [], reply_to = []\<rparr>, persist_flag = False\<rparr>
        (mailbox_of a t) (mailbox_of a t') err"
    by blast
  note call = wire_call_lossless [OF assms(11) t'(1) assms(12)]
  have "\<exists>s'. tell nows from tgt m opts s = Returns (s', None)"
    using remote_send_acked [OF assms(1-6) b(1) assms(10)] assms(13) call by simp
  then show ?thesis using t' call by blast
qed

text \<open>A toy gob for the small systems: it knows small numbers, envelopes of \<open>Tell\<close> to \<open>''b''\<close>,
  and acknowledgements without an error.\<close>

definition small_encode :: "nat msg encoder" where
  "small_encode m = (case small_marshal m of Some b \<Rightarrow> (b, None) | None \<Rightarrow> ([], Some ''type not registered''))"

fun small_decode :: "nat msg decoder" where
  "small_decode (b # rest) = Inr (User (unat b), rest)"
| "small_decode [] = Inl ''EOF''"

definition small_wire :: wire where
  "small_wire = \<lparr>enc_envelope = (\<lambda>env. (re_priority env # re_payload env, None)),
     dec_envelope = (\<lambda>d env. case d of [] \<Rightarrow> (env, Some ''EOF'')
       | p # b \<Rightarrow> (env\<lparr>re_to := ''b'', re_priority := p, re_payload := b\<rparr>, None)),
     enc_ack = (\<lambda>ack. ([if ack_ok ack then 1 else 0], None)),
     dec_ack = (\<lambda>d ack. case d of [] \<Rightarrow> (ack, Some ''EOF'') | b # _ \<Rightarrow> (ack\<lparr>ack_ok := b = 1\<rparr>, None))\<rparr>"

definition gob_near :: "nat system" where
  "gob_near = set_serializer (Some (gob_serializer small_encode small_decode)) small_system"

definition gob_far :: "nat system" where
  "gob_far = set_serializer (Some (gob_serializer small_encode small_decode)) (far_system
     \<lparr>sys_rpc := \<lambda>_ env. case wire_call small_wire env gob_near of Returns (_, r) \<Rightarrow> r | _ \<Rightarrow> None\<rparr>)"

lemma gob_near_simps:
  "sys_ok gob_near" "sys_unmarshal gob_near = snd (gob_serializer small_encode small_decode)"
  "mailbox_of 1 gob_near = small_mailbox" "by_id (sys_registry gob_near) ''b'' = Some (Some (TBase 1))"
proof -
  have n: "gob_near = small_system\<lparr>sys_marshal := fst (gob_serializer small_encode small_decode),
      sys_unmarshal := snd (gob_serializer small_encode small_decode)\<rparr>"
    by (simp add: gob_near_def set_serializer_def split: prod.split)
  show "sys_ok gob_near" using small_system_ok by (simp add: n sys_ok_def)
  show "sys_unmarshal gob_near = snd (gob_serializer small_encode small_decode)" by (simp add: n)
  show "mailbox_of 1 gob_near = small_mailbox" "by_id (sys_registry gob_near) ''b'' = Some (Some (TBase 1))"
    by (simp_all add: n small_system_def new_system_def register_def new_registry_def small_actor_def)
qed

lemma gob_far_simps:
  "send_prologue [] gob_far = Returns gob_far" "destination (TRef ''b'') gob_far = Remote '':2'' ''b''"
  "sys_remote gob_far = Some \<lparr>rt_addr = '':1'', rt_conns = {}\<rparr>" "sys_dial gob_far '':2''"
  "sys_marshal gob_far = fst (gob_serializer small_encode small_decode)" "sys_limiter gob_far = None"
  "sys_rpc gob_far '':2'' env = (case wire_call small_wire env gob_near of Returns (_, r) \<Rightarrow> r | _ \<Rightarrow> None)"
proof -
  have f: "gob_far = far_system\<lparr>sys_rpc := \<lambda>_ env. case wire_call small_wire env gob_near of Returns (_, r) \<Rightarrow> r | _ \<Rightarrow> None,
      sys_marshal := fst (gob_serializer small_encode small_decode), sys_unmarshal := snd (gob_serializer small_encode small_decode)\<rparr>"
    by (simp add: gob_far_def set_serializer_def split: prod.split)
  show "send_prologue [] gob_far = Returns gob_far" "destination (TRef ''b'') gob_far = Remote '':2'' ''b''"
    "sys_remote gob_far = Some \<lparr>rt_addr = '':1'', rt_conns = {}\<rparr>" "sys_dial gob_far '':2''"
    "sys_marshal gob_far = fst (gob_serializer small_encode small_decode)" "sys_limiter gob_far = None"
    "sys_rpc gob_far '':2'' env = (case wire_call small_wire env gob_near of Returns (_, r) \<Rightarrow> r | _ \<Rightarrow> None)"
    by (simp_all add: f far_system_def new_system_def send_prologue_def dest_of_id_def new_registry_def)
qed

theorem gob_remote_tell_witness:
  "\<exists>s' t' err. tell [] None (TRef ''b'') (User 7) default_send gob_far = Returns (s', None) \<and>
     wire_call small_wire \<lparr>re_to = ''b'', re_from = [], re_kind = kind_user, re_priority = priority_normal, re_corr = [],
       re_reply = [], re_payload = [7]\<rparr> gob_near = Returns (t', Some \<lparr>ack_ok = True, ack_err = []\<rparr>) \<and>
     pushed \<lparr>prio = priority_normal, payload = User 7, meta = \<lparr>ekind = kind_user, from_id = [], corr_id = [], reply_to = []\<rparr>,
       persist_flag = False\<rparr> small_mailbox (mailbox_of 1 t') err"
proof -
  let ?env = "\<lparr>re_to = ''b'', re_from = sender_id None gob_far, re_kind = kind_user, re_priority = priority_normal,
    re_corr = [], re_reply = [], re_payload = fst (small_encode (User 7))\<rparr>"
  have u: "unwrap (so_priority default_send) (User (7 :: nat)) = (priority_normal, User 7)"
    by (simp add: unwrap_def default_send_def)
  have l: "lossless small_encode small_decode (User 7)" by (simp add: lossless_def small_encode_def)
  have e: "lossless_into (enc_envelope small_wire) (dec_envelope small_wire) zero_envelope ?env"
    "lossless_into (enc_ack small_wire) (dec_ack small_wire) zero_ack \<lparr>ack_ok = True, ack_err = []\<rparr>"
    by (simp_all add: lossless_into_def small_wire_def zero_envelope_def zero_ack_def sender_id_def kinds)
  have pol: "mb_policy (mailbox_of 1 gob_near) \<noteq> backpressure_block"
    unfolding gob_near_simps(3) by (simp add: small_mailbox_def policies)
  have nn: "TRef ''b'' \<noteq> TNil" by simp
  have "sender_id None gob_far = []" "fst (small_encode (User 7)) = [7]"
    by (simp_all add: sender_id_def small_encode_def)
  then show ?thesis
    using gob_remote_tell [OF gob_far_simps(1) nn gob_far_simps(2) u gob_far_simps(3) disjI2 [OF gob_far_simps(4)]
        gob_far_simps(5) gob_near_simps(2) l refl e gob_far_simps(7) gob_near_simps(4,1) pol]
    unfolding gob_near_simps(3) by simp blast
qed

text \<open>C38. With the default serializer and nothing registered, no request leaves the node. gob
  refuses to encode an interface value whose concrete type is not registered, and nothing in
  the program registers \<open>Request\<close> or \<open>Response\<close>. So \<open>SendAsync\<close> to an actor on another node
  returns a future as if the request were on its way, but no connection is used, the error is
  dropped, and the request stays pending until its own timer completes the future with the
  timeout error; without a timer nothing completes it. (\<open>Tell\<close> of the same payload would work.)\<close>

theorem gob_request_unsent:
  fixes s :: "'u system"
  assumes "sys_limiter s = None" and "destination t s = Remote addr aid"
    and "sys_marshal s = fst (gob_serializer enc dec)"
    and "\<And>cid p reply. snd (enc (Request cid p reply)) \<noteq> None"
    and "new_actor_id (sys_node s) now (sys_counter s) = (c, cid)"
    and "f = length (futs (sys_futures s))"
  shows "\<exists>s'. send_async now nows a t m opts s = Returns (s', f) \<and> sys_remote s' = sys_remote s \<and>
    sys_actors s' = sys_actors s \<and> sys_pending s' = (sys_pending s)(cid \<mapsto> f) \<and> \<not> fdone (futs (sys_futures s') ! f) \<and>
    sys_timers s' = sys_timers s @ (if 0 < so_timeout (async_options opts) then [cid] else []) \<and>
    (0 < so_timeout (async_options opts) \<longrightarrow>
      futs (sys_futures (timer_fire cid s')) ! f = settled (Val (Response cid None (Some ErrAskTimeout))))"
proof -
  have none: "sys_marshal s (Request i p reply) = None" for i p reply
    using assms(4) [of i p reply] by (auto simp: assms(3) gob_serializer_def gob_marshal_def split: prod.split option.split)
  let ?o = "async_options opts"
  let ?s2 = "s\<lparr>sys_futures := (sys_futures s)\<lparr>futs := futs (sys_futures s) @ [fresh_future ?o]\<rparr>,
    sys_counter := c, sys_pending := (sys_pending s)(cid \<mapsto> f),
    sys_timers := sys_timers s @ (if 0 < so_timeout ?o then [cid] else [])\<rparr>"
  let ?s3 = "?s2\<lparr>sys_metrics := map_option inc_out (sys_metrics s)\<rparr>"
  have d: "destination t ?s3 = Remote addr aid"
    using assms(2) by (cases "(t, s)" rule: destination.cases) (auto simp: dest_of_id_def split: if_splits option.splits target.splits)
  have "send_async now nows a t m opts s =
      and_then (send_request nows (Some a) t cid m (ba_id (sys_actors s ! a)) (so_priority ?o) (so_persist ?o) ?s2)
        (\<lambda>(s', _). Returns (s', f))"
    unfolding assms(6) by (rule send_async_request [OF assms(5)])
  also have "\<dots> = Returns (?s3, f)"
    using assms(1) d none by (simp add: send_request_def prologue_unlimited route_dest sender_id_def send_over_def)
  finally have "send_async now nows a t m opts s = Returns (?s3, f)" .
  moreover have "futs (sys_futures (timer_fire cid ?s3)) ! f = settled (Val (Response cid None (Some ErrAskTimeout)))"
    if "0 < so_timeout ?o"
    using that complete_fresh(1) [of "sys_futures ?s3" "sys_futures s" ?o]
    by (simp add: timer_fire_def complete_future_def assms(6))
  ultimately show ?thesis
    by (intro exI [of _ ?s3] conjI impI) (simp_all add: assms(6) fresh_future_def empty_future_def)
qed

theorem gob_request_unsent_witness:
  "\<exists>s'. send_async 0 [] 0 (TRef ''b'') (User 7) None
       (gob_far\<lparr>sys_actors := [small_actor ''a'']\<rparr>) = Returns (s', 0) \<and> \<not> fdone (futs (sys_futures s') ! 0) \<and>
     (\<exists>cid. sys_pending s' cid = Some 0)"
proof -
  let ?s = "gob_far\<lparr>sys_actors := [small_actor ''a'']\<rparr>"
  obtain c cid where i: "new_actor_id (sys_node ?s) 0 (sys_counter ?s) = (c, cid)" by (meson surj_pair)
  have s: "sys_limiter ?s = None" "destination (TRef ''b'') ?s = Remote '':2'' ''b''"
      "sys_marshal ?s = fst (gob_serializer small_encode small_decode)"
    using gob_far_simps(2,5,6) by (simp_all add: dest_of_id_def cong: option.case_cong)
  have e: "snd (small_encode (Request j p r)) \<noteq> None" for j p r by (simp add: small_encode_def)
  have f: "0 = length (futs (sys_futures ?s))"
    by (simp add: gob_far_def set_serializer_def far_system_def new_system_def split: prod.split)
  show ?thesis
    using gob_request_unsent [OF s e i f, of "[]" 0 "User 7" None] by (metis fun_upd_same)
qed

end
