(* ===== verification/Recovery.thy ===== *)
theory Recovery
  imports Actor
begin

text \<open>
  Persistence across a restart: messages told with the persist option go through the mailbox's
  hook into the actor's log, and \<open>Start\<close> of an actor with the same id pushes them into the new
  mailbox before the loop runs (\<open>NewBaseActor\<close>, \<open>Start\<close> and \<open>tell\<close> of \<open>actor/base_actor.go\<close> over
  \<open>persistence/wal.go\<close> and \<open>mailbox/mailbox.go\<close>).
\<close>

subsection \<open>The log of an actor\<close>

definition log_of :: "nat \<Rightarrow> store \<Rightarrow> wal \<times> files" where
  "log_of a st = (st_wals st a, st_files st)"

text \<open>Writes that succeed.\<close>

abbreviation reliable :: "bytes \<Rightarrow> files \<Rightarrow> nat option" where
  "reliable \<equiv> \<lambda>_ _. None"

lemma log_of_hook: "log_of a (fst (wal_hook reliable a b st)) = log_append b (log_of a st)"
  by (simp add: log_of_def wal_hook_def log_append_def split: prod.split)

text \<open>An actor whose persisted messages are in its log: the mailbox is open, does not block, and
  writes to the log; the log holds the records \<open>bs\<close>.\<close>

definition recording :: "('u msg \<Rightarrow> bytes option) \<Rightarrow> string \<Rightarrow> nat \<Rightarrow> bytes list \<Rightarrow> 'u system \<Rightarrow> bool" where
  "recording ser path a bs s \<longleftrightarrow> sys_ok s \<and> a < length (sys_actors s) \<and> sys_limiter s = None \<and>
     \<not> mb_closed (mailbox_of a s) \<and> mb_policy (mailbox_of a s) \<noteq> backpressure_block \<and>
     mb_persist (mailbox_of a s) = Some (wal_hook reliable a) \<and> mb_encode (mailbox_of a s) = Some ser \<and>
     wal_path (st_wals (sys_store s) a) = path \<and>
     log_sound (log_of a (sys_store s)) \<and> log_replay (log_of a (sys_store s)) = Some bs"

lemma log_step:
  assumes "log_sound l" and "log_replay l = Some bs" and "fits b"
  shows "log_sound (log_append b l)" and "log_replay (log_append b l) = Some (bs @ [b])"
  using wlog.append_sound [OF assms(1,3)] wlog.replay_append [OF assms(1,3)] assms(2) by simp_all

lemma recording_tell:
  assumes "recording ser path a bs s" and "ser m = Some b" and "fits b"
  shows "\<exists>s' err. ba_tell a m me pri True s = Returns (s', err) \<and> recording ser path a (bs @ [b]) s'"
proof -
  let ?e = "\<lparr>prio = pri, payload = m, meta = me, persist_flag = True\<rparr>"
  note rec = assms(1) [unfolded recording_def]
  obtain mb err where t: "ba_tell a m me pri True s = Returns ((put_mailbox a mb s)\<lparr>sys_store :=
       if mb_closed (mailbox_of a s) then sys_store s else run_persist (mailbox_of a s) ?e (sys_store s)\<rparr>, err)"
    and mb: "mb_inv mb" "mb_policy mb = mb_policy (mailbox_of a s)" "mb_closed mb = mb_closed (mailbox_of a s)"
      "mb_persist mb = mb_persist (mailbox_of a s)" "mb_encode mb = mb_encode (mailbox_of a s)"
    using ba_tell_cases [of s a m me pri True] rec by metis
  have st: "run_persist (mailbox_of a s) ?e (sys_store s) = fst (wal_hook reliable a b (sys_store s))"
    using rec assms(2) by (simp add: run_persist_def)
  let ?st = "fst (wal_hook reliable a b (sys_store s))"
  have l: "log_of a ?st = log_append b (log_of a (sys_store s))" by (rule log_of_hook)
  have "wal_path (st_wals ?st a) = path"
    using arg_cong [OF l, of "\<lambda>l. wal_path (fst l)"] log_append_path [of b "log_of a (sys_store s)"] rec
    by (simp add: log_of_def)
  then have "recording ser path a (bs @ [b]) ((put_mailbox a mb s)\<lparr>sys_store := ?st\<rparr>)"
    using rec mb log_step [OF _ _ assms(3), of "log_of a (sys_store s)" bs]
    by (simp add: recording_def sys_ok_put_mailbox l)
  then show ?thesis using t st rec by simp
qed

text \<open>A round of the loop does not touch the log.\<close>

definition quiet :: "'u handler" where
  "quiet cx m s = Some (s, False)"

definition loop_round :: "nat \<Rightarrow> 'u system \<Rightarrow> 'u system" where
  "loop_round a s = (case run_iter quiet a s of Returns (s' # _) \<Rightarrow> s' | _ \<Rightarrow> s)"

lemma handle_quiet:
  "\<exists>s'. handle quiet a env s = Returns s' \<and> sys_actors s' = sys_actors s \<and> sys_store s' = sys_store s \<and>
     sys_limiter s' = sys_limiter s \<and> sys_registry s' = sys_registry s"
  by (cases "payload env")
    (auto simp: handle_def Let_def quiet_def recovered_def complete_future_def split: option.split)

lemma recording_round:
  assumes "recording ser path a bs s"
  shows "recording ser path a bs (loop_round a s)"
proof -
  note rec = assms [unfolded recording_def]
  obtain mb r where pop: "mb_pop (mailbox_of a s) = Some (mb, r)" and mb: "mb_inv mb"
      "mb_policy mb = mb_policy (mailbox_of a s)" "mb_closed mb = mb_closed (mailbox_of a s)"
      "mb_persist mb = mb_persist (mailbox_of a s)" "mb_encode mb = mb_encode (mailbox_of a s)"
    using mb_pop_spec [of "mailbox_of a s"] rec sys_ok_mailbox by metis
  show ?thesis
  proof (cases r)
    case None
    have "mb_inv (mb\<lparr>mb_notify := False\<rparr>)"
      using mb(1) by (simp add: mb_inv_def urgents_def normals_def)
    then show ?thesis
      using rec pop None mb
      by (auto simp: loop_round_def run_iter_def mb_wait_def recording_def set_actor_def sys_ok_def
          all_set_conv_all_nth nth_list_update Let_def)
  next
    case (Some env)
    obtain s' where "handle quiet a env (put_mailbox a mb s) = Returns s'"
      and s': "sys_actors s' = sys_actors (put_mailbox a mb s)" "sys_store s' = sys_store s"
        "sys_limiter s' = sys_limiter s" "sys_registry s' = sys_registry s"
      using handle_quiet [of a env "put_mailbox a mb s"] by auto
    then have "loop_round a s = s'"
      using pop Some by (simp add: loop_round_def run_iter_def put_mailbox_def Let_def)
    moreover have "sys_ok s'"
      using sys_ok_put_mailbox [of s mb a] rec mb(1) s' by (simp add: sys_ok_def)
    ultimately show ?thesis
      using rec mb s' by (simp add: recording_def)
  qed
qed

subsection \<open>A life of the actor, until a crash\<close>

datatype 'u event = Told 'u u8 | Round

fun live :: "nat \<Rightarrow> 'u event \<Rightarrow> 'u system \<Rightarrow> 'u system" where
  "live a (Told u pri) s =
     (case tell [] None (TBase a) (User u) (default_send\<lparr>so_priority := pri, so_persist := True\<rparr>) s of
        Returns (s', _) \<Rightarrow> s' | _ \<Rightarrow> s)"
| "live a Round s = loop_round a s"

fun told :: "'u event list \<Rightarrow> 'u msg list" where
  "told [] = []"
| "told (Told u _ # es) = User u # told es"
| "told (Round # es) = told es"

lemma recording_metrics: "recording ser path a bs (s\<lparr>sys_metrics := ms\<rparr>) = recording ser path a bs s"
  by (simp add: recording_def)

lemma recording_live:
  assumes "recording ser path a bs s" and "list_all2 (\<lambda>m b. ser m = Some b \<and> fits b) (told es) cs"
  shows "recording ser path a (bs @ cs) (fold (live a) es s)"
  using assms
proof (induction es arbitrary: s bs cs rule: told.induct)
  case 1
  then show ?case by simp
next
  case (2 u pri es)
  obtain b cs' where cs: "cs = b # cs'" "ser (User u) = Some b" "fits b"
      "list_all2 (\<lambda>m b. ser m = Some b \<and> fits b) (told es) cs'"
    using 2(3) by (auto simp: list_all2_Cons1)
  let ?s = "s\<lparr>sys_metrics := map_option inc_out (sys_metrics s)\<rparr>"
  obtain s' err where "ba_tell a (User u) \<lparr>ekind = kind_user, from_id = [], corr_id = [], reply_to = []\<rparr> pri True ?s =
      Returns (s', err)" and r: "recording ser path a (bs @ [b]) s'"
    using recording_tell [where ser = ser and m = "User u" and s = ?s, OF _ cs(2,3)] 2(2) recording_metrics by blast
  then have "live a (Told u pri) s = s'"
    using 2(2) by (simp add: tell_def recording_def prologue_unlimited unwrap_def route_def sender_id_def)
  then show ?case
    using 2(1) [OF r cs(4)] cs(1) by simp
next
  case (3 es)
  then show ?case using 3(1) [OF recording_round [OF 3(2)]] by simp
qed

subsection \<open>A new actor, and its start\<close>

lemma new_mailbox_hooks:
  "new_mailbox opts = Some m \<Longrightarrow> mb_persist m = opt_persist opts \<and> mb_encode m = opt_encode opts"
  by (auto simp: new_mailbox_def Let_def split: option.splits)

text \<open>\<open>NewBaseActor\<close> with persistence, for an actor that is given an id.\<close>

lemma new_base_actor_wal:
  fixes s :: "'u system"
  assumes "new_base_actor reliable True now opts s = Returns (s1, a)" and "sys_ok s"
    and "sys_persist_dir s \<noteq> []" and "bo_id opts \<noteq> []" and "opt_persist (bo_mailbox opts) = None"
    and "wal_open True (actor_wal_path s (bo_id opts)) (st_files (sys_store s)) = (fs, Inr w)"
  shows "a = length (sys_actors s)" and "a < length (sys_actors s1)" and "sys_ok s1"
    and "sys_store s1 = \<lparr>st_files = fs, st_wals = (st_wals (sys_store s))(a := w)\<rparr>"
    and "lanes (mailbox_of a s1) = ([], [])" and "\<not> mb_closed (mailbox_of a s1)"
    and "mb_policy (mailbox_of a s1) = opt_policy (bo_mailbox opts)"
    and "mb_persist (mailbox_of a s1) = Some (wal_hook reliable a)"
    and "mb_encode (mailbox_of a s1) = Some (sys_marshal s)"
    and "ba_id (sys_actors s1 ! a) = bo_id opts" and "ba_wal (sys_actors s1 ! a)"
    and "\<not> ba_started (sys_actors s1 ! a)" and "sys_limiter s1 = sys_limiter s"
    and "sys_unmarshal s1 = sys_unmarshal s" and "sys_registry s1 = sys_registry s"
proof -
  let ?a = "length (sys_actors s)"
  let ?mo = "(bo_mailbox opts)\<lparr>opt_persist := Some (wal_hook reliable ?a), opt_encode := Some (sys_marshal s)\<rparr>"
  let ?new = "\<lambda>mb. s\<lparr>sys_store := \<lparr>st_files = fs, st_wals = (st_wals (sys_store s))(?a := w)\<rparr>,
      sys_actors := sys_actors s @ [\<lparr>ba_id = bo_id opts, ba_name = bo_name opts, ba_mb = mb,
        ba_receive = bo_receive opts, ba_wal = True, ba_state = state_new, ba_started = False,
        ba_stopped = False, ba_done = False\<rparr>]\<rparr>"
  have "new_base_actor reliable True now opts s =
      (case new_mailbox ?mo of None \<Rightarrow> Waits | Some mb \<Rightarrow> Returns (?new mb, ?a))"
    using assms(3,4,5,6) by (simp add: new_base_actor_def Let_def cong: option.case_cong)
  then obtain mb where mb: "new_mailbox ?mo = Some mb" and s1: "s1 = ?new mb" and a: "a = ?a"
    using assms(1) by (cases "new_mailbox ?mo :: ('u msg, env_meta, store) mailbox option") simp_all
  note ok = new_mailbox_ok [OF mb] new_mailbox_hooks [OF mb]
  show "a = ?a" "a < length (sys_actors s1)"
    "sys_store s1 = \<lparr>st_files = fs, st_wals = (st_wals (sys_store s))(a := w)\<rparr>"
    "ba_id (sys_actors s1 ! a) = bo_id opts" "ba_wal (sys_actors s1 ! a)" "\<not> ba_started (sys_actors s1 ! a)"
    "sys_limiter s1 = sys_limiter s" "sys_unmarshal s1 = sys_unmarshal s" "sys_registry s1 = sys_registry s"
    by (simp_all add: s1 a)
  show "lanes (mailbox_of a s1) = ([], [])" "\<not> mb_closed (mailbox_of a s1)"
    "mb_policy (mailbox_of a s1) = opt_policy (bo_mailbox opts)"
    "mb_persist (mailbox_of a s1) = Some (wal_hook reliable a)"
    "mb_encode (mailbox_of a s1) = Some (sys_marshal s)"
    using ok by (simp_all add: s1 a)
  show "sys_ok s1" using assms(2) ok(1) by (auto simp: sys_ok_def s1 intro: less_SucI)
qed

lemma recording_new:
  assumes "new_base_actor reliable True now opts s = Returns (s1, a)" and "sys_ok s"
    and "sys_persist_dir s \<noteq> []" and "bo_id opts \<noteq> []" and "opt_persist (bo_mailbox opts) = None"
    and "opt_policy (bo_mailbox opts) \<noteq> backpressure_block" and "sys_limiter s = None"
    and "st_files (sys_store s) (actor_wal_path s (bo_id opts)) = None"
  shows "recording (sys_marshal s) (actor_wal_path s (bo_id opts)) a [] s1"
proof -
  let ?p = "actor_wal_path s (bo_id opts)" and ?fs = "st_files (sys_store s)"
  let ?w = "\<lparr>wal_f = Some 0, wal_path = ?p\<rparr>"
  have o: "wal_open True ?p ?fs = (?fs(?p \<mapsto> []), Inr ?w)"
    using assms(8) by (simp add: wal_open_def)
  note new = new_base_actor_wal [OF assms(1-5) o]
  have d: "file_data ?w (?fs(?p \<mapsto> [])) = concat (map frame [])" by (simp add: file_data_def)
  have "log_replay (?w, ?fs(?p \<mapsto> [])) = Some []"
    using log_replay_frames [OF _ _ d] by simp
  moreover have "log_sound (?w, ?fs(?p \<mapsto> []))"
    unfolding log_sound_def using d by (intro conjI exI [of _ "[]"]) simp_all
  ultimately show ?thesis
    using new assms(6,7) by (simp add: recording_def log_of_def)
qed

text \<open>The envelope under which \<open>Start\<close> queues a record.\<close>

definition replayed :: "'u msg \<Rightarrow> ('u msg, env_meta) envelope" where
  "replayed m = \<lparr>prio = priority_normal, payload = m,
     meta = \<lparr>ekind = kind_user, from_id = [], corr_id = [], reply_to = []\<rparr>, persist_flag = False\<rparr>"

lemma replayed_lane [simp]:
  "mb_full (replayed m) mb = segq_full (mb_normal mb)" "lanes_push (replayed m) (us, ns) = (us, ns @ [replayed m])"
  by (simp_all add: mb_full_def lane_def replayed_def priority_normal_def)

definition open_mailbox :: "nat \<Rightarrow> 'u system \<Rightarrow> bool" where
  "open_mailbox a s \<longleftrightarrow> sys_ok s \<and> a < length (sys_actors s) \<and> \<not> mb_closed (mailbox_of a s) \<and>
     mb_policy (mailbox_of a s) \<in> {backpressure_expand, backpressure_drop_newest}"

lemma replay_one:
  assumes "open_mailbox a s"
  obtains mb err where
    "ba_tell a m \<lparr>ekind = kind_user, from_id = [], corr_id = [], reply_to = []\<rparr> priority_normal False s =
       Returns (put_mailbox a mb s, err)"
    "open_mailbox a (put_mailbox a mb s)"
    "if segq_full (mb_normal (mailbox_of a s)) then mb = mailbox_of a s
     else lanes mb = (fst (lanes (mailbox_of a s)), snd (lanes (mailbox_of a s)) @ [replayed m])"
proof -
  have o: "sys_ok s" "a < length (sys_actors s)" "\<not> mb_closed (mailbox_of a s)"
      "mb_policy (mailbox_of a s) \<noteq> backpressure_block" "\<not> backpressure_drop_newest < mb_policy (mailbox_of a s)"
    using assms by (auto simp: open_mailbox_def policies)
  obtain mb err where t: "ba_tell a m \<lparr>ekind = kind_user, from_id = [], corr_id = [], reply_to = []\<rparr> priority_normal False s =
       Returns ((put_mailbox a mb s)\<lparr>sys_store := if mb_closed (mailbox_of a s) then sys_store s
         else run_persist (mailbox_of a s) (replayed m) (sys_store s)\<rparr>, err)"
    and mb: "mb_inv mb" "pushed (replayed m) (mailbox_of a s) mb err" "mb_policy mb = mb_policy (mailbox_of a s)"
      "mb_closed mb = mb_closed (mailbox_of a s)"
    using ba_tell_cases [OF o(1,2,4), of m _ priority_normal False] unfolding replayed_def by metis
  have "(put_mailbox a mb s)\<lparr>sys_store := sys_store s\<rparr> = put_mailbox a mb s"
    by (simp add: put_mailbox_def set_actor_def)
  then have "ba_tell a m \<lparr>ekind = kind_user, from_id = [], corr_id = [], reply_to = []\<rparr> priority_normal False s =
       Returns (put_mailbox a mb s, err)"
    using t o(3) by (simp add: run_persist_def replayed_def)
  moreover have "open_mailbox a (put_mailbox a mb s)"
    using assms mb by (simp add: open_mailbox_def sys_ok_put_mailbox)
  moreover have "if segq_full (mb_normal (mailbox_of a s)) then mb = mailbox_of a s
     else lanes mb = (fst (lanes (mailbox_of a s)), snd (lanes (mailbox_of a s)) @ [replayed m])"
    using mb(2) o(3,5) by (cases "lanes (mailbox_of a s)") (auto simp: pushed_def simp del: lanes_push.simps split: if_splits)
  ultimately show thesis by (rule that)
qed

lemma put_mailbox_id: "a < length (sys_actors s) \<Longrightarrow> put_mailbox a (mailbox_of a s) s = s"
  by (simp add: put_mailbox_def set_actor_def)

lemma replay_records_spec:
  assumes "open_mailbox a s" and "list_all2 (\<lambda>b m. sys_unmarshal s b = Inr m) bs ms"
  shows "\<exists>s' k. replay_records a bs s = Returns s' \<and> open_mailbox a s' \<and> core s' = core s \<and> k \<le> length ms \<and>
    lanes (mailbox_of a s') = (fst (lanes (mailbox_of a s)), snd (lanes (mailbox_of a s)) @ map replayed (take k ms)) \<and>
    (segq_full (mb_normal (mailbox_of a s)) \<longrightarrow> s' = s \<and> k = 0) \<and>
    (k < length ms \<longrightarrow> segq_full (mb_normal (mailbox_of a s')))"
  using assms
proof (induction bs arbitrary: s ms)
  case Nil
  then show ?case by simp
next
  case (Cons b bs)
  obtain m ms' where ms: "ms = m # ms'" "sys_unmarshal s b = Inr m" "list_all2 (\<lambda>b m. sys_unmarshal s b = Inr m) bs ms'"
    using Cons.prems(2) by (auto simp: list_all2_Cons1)
  obtain mb err where t: "ba_tell a m \<lparr>ekind = kind_user, from_id = [], corr_id = [], reply_to = []\<rparr> priority_normal False s =
       Returns (put_mailbox a mb s, err)" and o: "open_mailbox a (put_mailbox a mb s)"
    and l: "if segq_full (mb_normal (mailbox_of a s)) then mb = mailbox_of a s
     else lanes mb = (fst (lanes (mailbox_of a s)), snd (lanes (mailbox_of a s)) @ [replayed m])"
    using replay_one [OF Cons.prems(1)] by metis
  have a: "a < length (sys_actors s)" using Cons.prems(1) by (simp add: open_mailbox_def)
  have step: "replay_records a (b # bs) s = replay_records a bs (put_mailbox a mb s)"
    by (simp add: ms(2) t)
  have c: "core (put_mailbox a mb s) = core s"
    using core_put_mailbox [where a = a and mb = mb and s = s and st = "sys_store s"] by (simp add: put_mailbox_def set_actor_def)
  obtain s' k where ih: "replay_records a bs (put_mailbox a mb s) = Returns s'" "open_mailbox a s'"
    "core s' = core (put_mailbox a mb s)" "k \<le> length ms'"
    "lanes (mailbox_of a s') = (fst (lanes mb), snd (lanes mb) @ map replayed (take k ms'))"
    "segq_full (mb_normal mb) \<longrightarrow> s' = put_mailbox a mb s \<and> k = 0"
    "k < length ms' \<longrightarrow> segq_full (mb_normal (mailbox_of a s'))"
    using Cons.IH [OF o, of ms'] ms(3) a by auto
  show ?case
  proof (cases "segq_full (mb_normal (mailbox_of a s))")
    case True
    then have "s' = s" using ih(6) l put_mailbox_id [OF a] by simp
    then show ?thesis
      using True step ih(1) Cons.prems(1) by (intro exI [of _ s] exI [of _ 0]) simp
  next
    case False
    then show ?thesis
      using l step ih c ms(1) by (intro exI [of _ s'] exI [of _ "Suc k"]) simp
  qed
qed

lemma core_face: "core s' = core s \<Longrightarrow> length (sys_actors s') = length (sys_actors s) \<and>
    (a < length (sys_actors s) \<longrightarrow> face (sys_actors s' ! a) = face (sys_actors s ! a))"
  unfolding core_def prod.inject by (metis length_map nth_map)

lemma log_replay_Some: "log_replay (w, fs) = Some bs \<Longrightarrow>
    \<exists>w'. wal_replay True (w, fs) = ((w', fs), Inr bs) \<and> wal_path w' = wal_path w"
  by (auto simp: log_replay_def wal_replay_def Let_def split: option.splits sum.splits)

text \<open>\<open>Start\<close> of an actor that has not been started and whose log holds \<open>bs\<close>.\<close>

lemma ba_start_replays:
  assumes "open_mailbox a s" and "lanes (mailbox_of a s) = ([], [])" and "ba_wal (sys_actors s ! a)"
    and "\<not> ba_started (sys_actors s ! a)" and "ba_id (sys_actors s ! a) \<noteq> []"
    and "log_replay (log_of a (sys_store s)) = Some bs" and "list_all2 (\<lambda>b m. sys_unmarshal s b = Inr m) bs ms"
  shows "\<exists>s' k. ba_start True a s = Returns s' \<and> k \<le> length ms \<and>
    lanes (mailbox_of a s') = ([], map replayed (take k ms)) \<and>
    (k < length ms \<longrightarrow> segq_full (mb_normal (mailbox_of a s'))) \<and>
    dest_of_id (ba_id (sys_actors s ! a)) s' = Local a"
proof -
  let ?x = "(sys_actors s ! a)\<lparr>ba_started := True\<rparr>"
  have a: "a < length (sys_actors s)" using assms(1) by (simp add: open_mailbox_def)
  obtain w' where w: "wal_replay True (st_wals (sys_store s) a, st_files (sys_store s)) = ((w', st_files (sys_store s)), Inr bs)"
    using log_replay_Some assms(6) unfolding log_of_def by blast
  let ?s1 = "(set_actor a ?x s)\<lparr>sys_store := \<lparr>st_files = st_files (sys_store s), st_wals = (st_wals (sys_store s))(a := w')\<rparr>\<rparr>"
  have r: "start_replay True a (set_actor a ?x s) = replay_records a bs ?s1"
    using assms(3) a w by (simp add: start_replay_def read_log_def set_actor_def)
  have o: "open_mailbox a ?s1"
    using assms(1) a by (auto simp: open_mailbox_def sys_ok_def set_actor_def all_set_conv_all_nth nth_list_update)
  have u: "list_all2 (\<lambda>b m. sys_unmarshal ?s1 b = Inr m) bs ms"
    using assms(7) by (simp add: set_actor_def)
  obtain s2 k where s2: "replay_records a bs ?s1 = Returns s2" "core s2 = core ?s1" "k \<le> length ms"
      "lanes (mailbox_of a s2) = ([], map replayed (take k ms))"
      "k < length ms \<longrightarrow> segq_full (mb_normal (mailbox_of a s2))"
    using replay_records_spec [OF o u] assms(2) a by (auto simp: set_actor_def)
  have f: "ba_id (sys_actors s2 ! a) = ba_id (sys_actors s ! a)" "a < length (sys_actors s2)"
    using core_face [OF s2(2), of a] a by (simp_all add: face_def set_actor_def)
  let ?s3 = "set_actor a ((sys_actors s2 ! a)\<lparr>ba_state := state_running\<rparr>)
    (s2\<lparr>sys_registry := register (ba_id (sys_actors s2 ! a)) (ba_name (sys_actors s2 ! a)) (Some (TBase a)) (sys_registry s2)\<rparr>)"
  have "ba_start True a s = Returns ?s3"
    using assms(4) r s2(1) by (simp add: ba_start_def Let_def)
  moreover have "mailbox_of a ?s3 = mailbox_of a s2" using f(2) by (simp add: set_actor_def)
  moreover have "dest_of_id (ba_id (sys_actors s ! a)) ?s3 = Local a"
    using assms(5) f(1) by (simp add: dest_of_id_def set_actor_def register_def Let_def)
  ultimately show ?thesis using s2(3,4,5) by auto
qed

subsection \<open>Properties\<close>

text \<open>C6. Persisted messages survive a crash. Create an actor with persistence (no log yet, a
  policy that does not block, no limiter, writes that succeed), tell it any messages with the
  persist option at any priority while its loop handles some of them, and crash. Create an
  actor with the same id on the same files and start it: \<open>Start\<close> returns, and the new mailbox
  holds exactly the told messages in the order in which they were told, up to its capacity,
  as normal-priority user messages. So also messages that were handled before the crash or
  refused because the mailbox was full are delivered (again), the priority is forgotten, and
  what exceeds the capacity of the new mailbox is dropped without an error. The serializer is
  assumed to decode what it encoded.\<close>

theorem restart_replays:
  fixes s t :: "'u system"
  assumes "sys_ok s" and "sys_persist_dir s \<noteq> []" and "sys_limiter s = None"
    and "bo_id opts \<noteq> []" and "opt_persist (bo_mailbox opts) = None"
    and "opt_policy (bo_mailbox opts) \<noteq> backpressure_block"
    and "st_files (sys_store s) (actor_wal_path s (bo_id opts)) = None"
    and "new_base_actor reliable True now opts s = Returns (s1, a)"
    and "list_all2 (\<lambda>m b. sys_marshal s m = Some b \<and> fits b \<and> sys_unmarshal t b = Inr m) (told es) bs"
    and "sys_ok t" and "sys_persist_dir t = sys_persist_dir s"
    and "st_files (sys_store t) = st_files (sys_store (fold (live a) es s1))"
    and "bo_id opts' = bo_id opts" and "opt_persist (bo_mailbox opts') = None"
    and "opt_policy (bo_mailbox opts') \<in> {backpressure_expand, backpressure_drop_newest}"
    and "new_base_actor reliable True now' opts' t = Returns (t1, a')"
  shows "\<exists>t2 k. ba_start True a' t1 = Returns t2 \<and> k \<le> length (told es) \<and>
    lanes (mailbox_of a' t2) = ([], map replayed (take k (told es))) \<and>
    (k < length (told es) \<longrightarrow> segq_full (mb_normal (mailbox_of a' t2))) \<and>
    dest_of_id (bo_id opts) t2 = Local a'"
proof -
  let ?p = "actor_wal_path s (bo_id opts)" and ?s2 = "fold (live a) es s1"
  have path: "actor_wal_path t (bo_id opts') = ?p"
    using assms(11,13) by (simp add: actor_wal_path_def)
  have "recording (sys_marshal s) ?p a [] s1"
    by (rule recording_new [OF assms(8,1,2,4,5,6,3,7)])
  moreover have "list_all2 (\<lambda>m b. sys_marshal s m = Some b \<and> fits b) (told es) bs"
    using assms(9) by (rule list_all2_mono) simp
  ultimately have "recording (sys_marshal s) ?p a bs ?s2"
    using recording_live [of _ _ a "[]"] by fastforce
  then have log: "log_sound (st_wals (sys_store ?s2) a, st_files (sys_store t))"
      "log_replay (st_wals (sys_store ?s2) a, st_files (sys_store t)) = Some bs"
      "wal_path (st_wals (sys_store ?s2) a) = ?p"
    by (simp_all add: recording_def log_of_def assms(12))
  obtain fs w where op: "wal_open True ?p (st_files (sys_store t)) = (fs, Inr w)"
    by (simp add: wal_open_def)
  have reopened: "log_replay (w, fs) = Some bs"
    using log_sound_reopen [OF log(1)] op log(2,3) by simp
  note new = new_base_actor_wal [OF assms(16,10) _ _ assms(14), unfolded path, OF _ _ op]
  have "open_mailbox a' t1" and "lanes (mailbox_of a' t1) = ([], [])" and "ba_wal (sys_actors t1 ! a')"
    and "\<not> ba_started (sys_actors t1 ! a')" and i: "ba_id (sys_actors t1 ! a') = bo_id opts"
    using new assms(2,4,11,13,15) by (simp_all add: open_mailbox_def)
  moreover have "log_replay (log_of a' (sys_store t1)) = Some bs"
    using new(4) assms(2,4,11,13) reopened by (simp add: log_of_def)
  moreover have "list_all2 (\<lambda>b m. sys_unmarshal t1 b = Inr m) bs (told es)"
    using assms(9) new(14) assms(2,4,11,13) by (auto simp: list_all2_conv_all_nth)
  ultimately show ?thesis
    using ba_start_replays [of a' t1 bs "told es"] assms(4) by simp
qed

definition durable_system :: "nat system" where
  "durable_system = small_system\<lparr>sys_persist_dir := ''d''\<rparr>"

definition durable_options :: "nat ba_options" where
  "durable_options = \<lparr>bo_id = ''x'', bo_name = [], bo_mailbox = \<lparr>opt_capacity = 2, opt_urgent_capacity = 2,
     opt_max_segments = 1, opt_policy = 0, opt_persist = None, opt_encode = None\<rparr>, bo_receive = True\<rparr>"

lemma durable_new:
  assumes "sys_persist_dir s \<noteq> []"
  shows "\<exists>s1 a. new_base_actor reliable True 0 durable_options s = Returns (s1, a)"
proof -
  have "\<exists>mb :: (nat msg, env_meta, store) mailbox. new_mailbox ((bo_mailbox durable_options)\<lparr>opt_persist := hook, opt_encode := enc\<rparr>) = Some mb"
    for hook enc
    by (simp add: durable_options_def new_mailbox_def new_segq_def new_ring_def round_up.simps push_bit_eq_mult upt_rec policies)
  then show ?thesis
    using assms by (auto simp: new_base_actor_def durable_options_def wal_open_def Let_def split: option.splits)
qed

theorem restart_replays_witness:
  "\<exists>s1 a t t1 a' t2 k. new_base_actor reliable True 0 durable_options durable_system = Returns (s1, a) \<and>
     st_files (sys_store t) = st_files (sys_store (fold (live a) [Told 5 1, Round, Told 6 0] s1)) \<and>
     new_base_actor reliable True 0 durable_options t = Returns (t1, a') \<and>
     ba_start True a' t1 = Returns t2 \<and>
     lanes (mailbox_of a' t2) = ([], map replayed (take k [User 5, User 6]))"
proof -
  have dir: "sys_persist_dir durable_system = ''d''" by (simp add: durable_system_def)
  obtain s1 a where s1: "new_base_actor reliable True 0 durable_options durable_system = Returns (s1, a)"
    using durable_new [of durable_system] dir by auto
  let ?fs = "st_files (sys_store (fold (live a) [Told 5 1, Round, Told 6 0] s1))"
  let ?t = "durable_system\<lparr>sys_store := no_files\<lparr>st_files := ?fs\<rparr>\<rparr>"
  obtain t1 a' where t1: "new_base_actor reliable True 0 durable_options ?t = Returns (t1, a')"
    using durable_new [of ?t] dir by auto
  have sim: "sys_ok durable_system" "sys_ok ?t" "sys_limiter durable_system = None"
      "sys_marshal durable_system = small_marshal" "sys_unmarshal ?t = small_unmarshal"
      "st_files (sys_store durable_system) = Map.empty"
    using small_system_ok by (simp_all add: durable_system_def sys_ok_def small_system_def new_system_def no_files_def)
  have ser: "list_all2 (\<lambda>m b. sys_marshal durable_system m = Some b \<and> fits b \<and> sys_unmarshal ?t b = Inr m)
      (told [Told 5 1, Round, Told 6 0]) [[5], [6]]"
    unfolding sim(4,5) by (simp add: fits_def)
  have "\<exists>t2 k. ba_start True a' t1 = Returns t2 \<and> k \<le> length (told [Told (5 :: nat) 1, Round, Told 6 0]) \<and>
    lanes (mailbox_of a' t2) = ([], map replayed (take k (told [Told 5 1, Round, Told 6 0]))) \<and>
    (k < length (told [Told (5 :: nat) 1, Round, Told 6 0]) \<longrightarrow> segq_full (mb_normal (mailbox_of a' t2))) \<and>
    dest_of_id (bo_id durable_options) t2 = Local a'"
    by (rule restart_replays [OF sim(1) _ sim(3) _ _ _ _ s1 ser sim(2) _ _ _ _ _ t1])
      (simp_all add: dir sim(6) durable_options_def policies)
  then obtain t2 k where t2: "ba_start True a' t1 = Returns t2"
      "lanes (mailbox_of a' t2) = ([], map replayed (take k [User 5, User 6]))" by auto
  have fs: "st_files (sys_store ?t) = ?fs" by simp
  show ?thesis by (intro exI conjI) (rule s1 fs t1 t2)+
qed

end
