(* ===== verification/Lifecycle.thy ===== *)
theory Lifecycle
  imports Recovery Transition
begin

text \<open>
  The runtime as a state machine, and the life of a request in it. One step is one call of the
  runtime by whatever goroutine makes it: a send, a round of an actor's loop, a timer, the
  creation, start and stop of an actor, a message from another node, an \<open>Await\<close>, and the parts
  of \<open>Ask\<close> other than its \<open>SendAsync\<close> and \<open>Await\<close>. The calls that a handler makes are steps
  of their own; the step of the loop shows how the handler ends, by returning or by a panic.
  Requests have a time limit (which they have unless the caller passes a negative one), and
  the executions are those in which the 64-bit counter of \<open>NewActorID\<close> does not wrap.
\<close>

subsection \<open>Steps\<close>

definition panicking :: "'u handler" where
  "panicking cx m s = Some (s, True)"

inductive sys_step :: "'u system \<Rightarrow> 'u system \<Rightarrow> bool" where
  step_tell: "tell nows from t m opts s = Returns (s', err) \<Longrightarrow> sys_step s s'"
| step_respond: "respond nows cx v err s = Returns s' \<Longrightarrow> sys_step s s'"
| step_async: "send_async now nows a t m opts s = Returns (s', f) \<Longrightarrow> 0 < so_timeout (async_options opts) \<Longrightarrow>
    sys_counter s + 1 \<noteq> 0 \<Longrightarrow> sys_step s s'"
| step_loop: "h = quiet \<or> h = panicking \<Longrightarrow> run_iter h a s = Returns ss \<Longrightarrow> s' \<in> set ss \<Longrightarrow> sys_step s s'"
| step_timer: "sys_step s (timer_fire cid s)"
| step_await: "await timeout expired f (sys_futures s) = (h, r) \<Longrightarrow> sys_step s (s\<lparr>sys_futures := h\<rparr>)"
| step_new: "new_base_actor fails allowed now opts s = Returns (s', a) \<Longrightarrow> sys_counter s + 1 \<noteq> 0 \<Longrightarrow> sys_step s s'"
| step_start: "a < length (sys_actors s) \<Longrightarrow> ba_start seek_ok a s = Returns s' \<Longrightarrow> sys_step s s'"
| step_stop_begin: "sys_step s (stop_begin a s)"
| step_stop_end: "stop_end clean a s = Returns s' \<Longrightarrow> sys_step s s'"
| step_remote: "remote_receive env s = Returns (s', ack) \<Longrightarrow> sys_step s s'"
| step_breaker: "sys_step s (fst (breaker_for t s))"
| step_admit: "sys_step s (fst (breaker_admits now key s))"
| step_report: "sys_step s (with_breaker g key s)"
| step_take_token: "sys_step s (fst (try_acquire_token s))"
| step_give_token: "sys_step s (release_token s)"

text \<open>What a step means for requests: nothing, a new one, one that is answered, or a value
  taken from a future.\<close>

definition req :: "'u system \<Rightarrow> _" where
  "req s = (sys_pending s, sys_futures s, sys_timers s, sys_counter s, sys_node s)"

lemma core_req: "core s' = core s \<Longrightarrow> req s' = req s"
  by (simp add: core_def req_def)

lemma tell_req:
  assumes "tell nows from t m opts s = Returns (s', err)"
  shows "req s' = req s"
proof (cases "t = TNil")
  case True
  then show ?thesis using assms by (simp add: tell_def)
next
  case False
  obtain pri pl where "unwrap (so_priority opts) m = (pri, pl)" by (meson surj_pair)
  with False obtain s1 me where "send_prologue nows s = Returns s1"
      "hand_over (destination t s1) me pri pl (so_persist opts) s1 = Returns (s', err)"
    using assms by (auto simp: tell_def and_then_Returns route_dest)
  then show ?thesis using send_prologue_core hand_over_core core_req by metis
qed

lemma respond_req:
  assumes "respond nows cx v err s = Returns s'"
  shows "req s' = req s"
proof (cases "cx_corr cx = [] \<or> cx_reply cx = []")
  case True
  then show ?thesis using assms by (simp add: respond_def)
next
  case False
  then obtain s1 me e where "send_prologue nows s = Returns s1"
      "hand_over (dest_of_id (cx_reply cx) s1) me priority_urgent (Response (cx_corr cx) v err) False s1 = Returns (s', e)"
    using assms by (auto simp: respond_def send_response_def and_then_Returns deliver_to_id_dest)
  then show ?thesis using send_prologue_core hand_over_core core_req by metis
qed

lemma ba_tell_req: "ba_tell a m me pri persist s = Returns (s', err) \<Longrightarrow> req s' = req s"
  using hand_over_core [of "Local a"] core_req by fastforce

lemma remote_receive_req: "remote_receive env s = Returns (s', ack) \<Longrightarrow> req s' = req s"
  by (auto simp: remote_receive_def and_then_Returns receive_direct_def req_def
      dest: ba_tell_req split: sum.splits option.splits prod.splits bool.splits target.splits)

lemma replay_records_req: "replay_records a bs s = Returns s' \<Longrightarrow> req s' = req s"
  by (induction bs arbitrary: s) (auto simp: and_then_Returns dest: ba_tell_req split: sum.splits)

lemma ba_start_req:
  assumes "ba_start seek_ok a s = Returns s'"
  shows "req s' = req s"
proof (cases "ba_started (sys_actors s ! a)")
  case True
  then show ?thesis using assms by (simp add: ba_start_def)
next
  case False
  let ?s = "set_actor a ((sys_actors s ! a)\<lparr>ba_started := True\<rparr>) s"
  obtain s1 where s1: "start_replay seek_ok a ?s = Returns s1" "req s' = req s1"
    using assms False by (auto simp: ba_start_def and_then_Returns Let_def req_def set_actor_def)
  have "req s1 = req ?s"
  proof (cases "ba_wal (sys_actors ?s ! a)")
    case True
    obtain s2 res where "read_log seek_ok a ?s = (s2, res)" by (meson surj_pair)
    then have "req s2 = req ?s" and "start_replay seek_ok a ?s = (case res of Inl _ \<Rightarrow> Returns s2 | Inr recs \<Rightarrow> replay_records a recs s2)"
      using True by (auto simp: start_replay_def read_log_def req_def split: prod.splits sum.splits)
    moreover have "req s1 = req s2" if "(case res of Inl _ \<Rightarrow> Returns s2 | Inr recs \<Rightarrow> replay_records a recs s2) = Returns s1"
      using that replay_records_req by (cases res) auto
    ultimately show ?thesis using s1(1) by simp
  next
    case False
    then show ?thesis using s1(1) by (simp add: start_replay_def)
  qed
  then show ?thesis using s1(2) by (simp add: req_def set_actor_def)
qed

lemma stop_req: "req (stop_begin a s) = req s" "stop_end clean a s = Returns s' \<Longrightarrow> req s' = req s"
  by (auto simp: stop_begin_def stop_end_def close_mailbox_def set_actor_def req_def Let_def split: if_splits)

lemma breaker_req: "req (fst (breaker_for t s)) = req s" "req (fst (breaker_admits now key s)) = req s"
  "req (with_breaker g key s) = req s"
  by (auto simp: breaker_for_def breaker_admits_def with_breaker_def req_def Let_def split: option.split)

lemma token_req: "req (fst (try_acquire_token s)) = req s" "req (release_token s) = req s"
  by (simp_all add: try_acquire_token_def release_token_def req_def)

lemma complete_future_req: "req s' = req s \<Longrightarrow> req (complete_future cid v err s') = req (complete_future cid v err s)"
  by (simp add: req_def complete_future_def split: option.split)

lemma handle_req:
  assumes "h = quiet \<or> h = panicking" and "handle h a env s = Returns s'"
  shows "req s' = req s \<or> (\<exists>cid v err. req s' = req (complete_future cid v err s))"
proof -
  let ?s1 = "s\<lparr>sys_metrics := map_option inc_in (sys_metrics s)\<rparr>"
  have rec: "req s' = req ?s1" if "recovered a (h cx m ?s1) = Returns s'" for cx m
    using that assms(1)
    by (auto simp: recovered_def quiet_def panicking_def close_mailbox_def notify_failure_def set_actor_def req_def Let_def)
  have s1: "req ?s1 = req s" by (simp add: req_def)
  have "req s' = req ?s1 \<or> (\<exists>cid v err. s' = complete_future cid v err ?s1)"
  proof (cases "ekind (meta env) = kind_response")
    case True
    then show ?thesis using assms(2) by (cases "payload env") (auto simp: handle_def)
  next
    case False
    then have "req s' = req ?s1"
      using assms(2) rec by (cases "payload env") (auto simp: handle_def Let_def split: if_splits)
    then show ?thesis ..
  qed
  then show ?thesis using s1 complete_future_req by metis
qed

lemma run_iter_req:
  assumes "h = quiet \<or> h = panicking" and "run_iter h a s = Returns ss" and "s' \<in> set ss"
  shows "req s' = req s \<or> (\<exists>cid v err. req s' = req (complete_future cid v err s))"
proof -
  obtain mb r where p: "mb_pop (mailbox_of a s) = Some (mb, r)"
    using assms(2) by (auto simp: run_iter_def Let_def split: option.splits)
  show ?thesis
  proof (cases r)
    case None
    then show ?thesis
      using assms(2,3) p by (auto simp: run_iter_def set_actor_def req_def Let_def)
  next
    case (Some env)
    have "handle h a env (put_mailbox a mb s) = Returns s'"
      using assms(2,3) p Some by (auto simp: run_iter_def and_then_Returns put_mailbox_def Let_def)
    moreover have "req (put_mailbox a mb s) = req s"
      by (simp add: req_def put_mailbox_def set_actor_def)
    ultimately show ?thesis
      using handle_req [OF assms(1)] complete_future_req by metis
  qed
qed

lemma new_base_actor_req:
  assumes "new_base_actor fails allowed now opts s = Returns (s', a)"
  shows "\<exists>c. req s' = req (s\<lparr>sys_counter := c\<rparr>) \<and> (c = sys_counter s \<or> c = sys_counter s + 1)"
proof -
  obtain c aid where "new_actor_id (sys_node s) now (sys_counter s) = (c, aid)" and "c = sys_counter s + 1"
    by (simp add: new_actor_id_def Let_def)
  then show ?thesis
    using assms by (auto simp: new_base_actor_def req_def Let_def split: if_splits option.splits prod.splits sum.splits)
qed

subsection \<open>The invariant of requests\<close>

text \<open>Every future that is not complete belongs to exactly one pending request, whose timer is
  running; a pending request belongs to a future that is not complete; the ids of pending
  requests were drawn earlier; and callbacks are those of users.\<close>

definition drawn :: "string \<Rightarrow> u64 \<Rightarrow> string \<Rightarrow> bool" where
  "drawn node c cid \<longleftrightarrow> (\<exists>now c' n. c' < c \<and> new_actor_id node now c' = (n, cid))"

definition ledger :: "'v fut list \<Rightarrow> (string \<rightharpoonup> nat) \<Rightarrow> string set \<Rightarrow> (string \<Rightarrow> bool) \<Rightarrow> bool" where
  "ledger fs pend timers known \<longleftrightarrow>
     (\<forall>f < length fs. fdone (fs ! f) \<or> (\<exists>cid. pend cid = Some f)) \<and>
     (\<forall>cid f. pend cid = Some f \<longrightarrow> f < length fs \<and> \<not> fdone (fs ! f) \<and> cid \<in> timers \<and> known cid) \<and>
     (\<forall>cid cid' f. pend cid = Some f \<longrightarrow> pend cid' = Some f \<longrightarrow> cid = cid') \<and>
     (\<forall>f < length fs. \<forall>cb \<in> set (fcbs (fs ! f)). \<exists>k. cb = CBUser k)"

lemma ledgerD:
  assumes "ledger fs pend timers known"
  shows "f < length fs \<Longrightarrow> \<not> fdone (fs ! f) \<Longrightarrow> \<exists>cid. pend cid = Some f"
    and "pend cid = Some f \<Longrightarrow> f < length fs \<and> \<not> fdone (fs ! f) \<and> cid \<in> timers \<and> known cid"
    and "pend cid = Some f \<Longrightarrow> pend cid' = Some f \<Longrightarrow> cid = cid'"
    and "f < length fs \<Longrightarrow> \<forall>cb \<in> set (fcbs (fs ! f)). \<exists>k. cb = CBUser k"
  using assms unfolding ledger_def by blast+

lemma ledgerI:
  assumes "\<And>f. f < length fs \<Longrightarrow> fdone (fs ! f) \<or> (\<exists>cid. pend cid = Some f)"
    and "\<And>cid f. pend cid = Some f \<Longrightarrow> f < length fs \<and> \<not> fdone (fs ! f) \<and> cid \<in> timers \<and> known cid"
    and "\<And>cid cid' f. pend cid = Some f \<Longrightarrow> pend cid' = Some f \<Longrightarrow> cid = cid'"
    and "\<And>f. f < length fs \<Longrightarrow> \<forall>cb \<in> set (fcbs (fs ! f)). \<exists>k. cb = CBUser k"
  shows "ledger fs pend timers known"
  unfolding ledger_def using assms by blast

lemma ledger_settle:
  assumes "ledger fs pend timers known" and "pend cid = Some f" and "fdone x" and "fcbs x = []"
  shows "ledger (fs[f := x]) (pend(cid := None)) timers known"
proof (rule ledgerI)
  note D = ledgerD [OF assms(1)]
  have f: "f < length fs" using D(2) [OF assms(2)] by simp
  show "fdone (fs[f := x] ! g) \<or> (\<exists>c. (pend(cid := None)) c = Some g)" if g: "g < length (fs[f := x])" for g
  proof (cases "g = f \<or> fdone (fs ! g)")
    case True
    then show ?thesis using f assms(3) by (auto simp: nth_list_update)
  next
    case False
    then obtain c where "pend c = Some g" using D(1) [of g] g by auto
    then show ?thesis using False assms(2) by (intro disjI2 exI [of _ c]) auto
  qed
  have old: "pend c = Some g \<and> g \<noteq> f" if "(pend(cid := None)) c = Some g" for c g
    using that D(3) [OF assms(2), of c] by (cases "c = cid") auto
  show "g < length (fs[f := x]) \<and> \<not> fdone (fs[f := x] ! g) \<and> c \<in> timers \<and> known c"
    if "(pend(cid := None)) c = Some g" for c g
    using old [OF that] D(2) [of c g] by simp
  show "c = c'" if "(pend(cid := None)) c = Some g" "(pend(cid := None)) c' = Some g" for c c' g
    using old [OF that(1)] old [OF that(2)] D(3) by blast
  show "\<forall>cb \<in> set (fcbs (fs[f := x] ! g)). \<exists>k. cb = CBUser k" if "g < length (fs[f := x])" for g
    using that D(4) [of g] f assms(4) by (simp add: nth_list_update)
qed

lemma ledger_add:
  assumes "ledger fs pend timers known" and "\<not> known cid" and "\<not> fdone x" and "\<forall>cb \<in> set (fcbs x). \<exists>k. cb = CBUser k"
    and "known' cid" and "\<And>c. known c \<Longrightarrow> known' c"
  shows "ledger (fs @ [x]) (pend(cid \<mapsto> length fs)) (insert cid timers) known'"
proof (rule ledgerI)
  note D = ledgerD [OF assms(1)]
  have new: "pend cid = None" using D(2) assms(2) by (cases "pend cid") auto
  have old: "g < length fs \<and> \<not> fdone (fs ! g) \<and> c \<in> timers \<and> known' c" if "pend c = Some g" for c g
    using D(2) [OF that] assms(6) by blast
  show "fdone ((fs @ [x]) ! g) \<or> (\<exists>c. (pend(cid \<mapsto> length fs)) c = Some g)" if g: "g < length (fs @ [x])" for g
  proof (cases "g = length fs \<or> fdone (fs ! g)")
    case True
    then show ?thesis using g by (auto simp: nth_append)
  next
    case False
    then obtain c where "pend c = Some g" using g D(1) [of g] by auto
    then show ?thesis using new by (intro disjI2 exI [of _ c]) auto
  qed
  show "g < length (fs @ [x]) \<and> \<not> fdone ((fs @ [x]) ! g) \<and> c \<in> insert cid timers \<and> known' c"
    if "(pend(cid \<mapsto> length fs)) c = Some g" for c g
    using that old [of c g] assms(3,5) by (cases "c = cid") (auto simp: nth_append)
  show "c = c'" if p: "(pend(cid \<mapsto> length fs)) c = Some g" "(pend(cid \<mapsto> length fs)) c' = Some g" for c c' g
    using p D(3) [of c g c'] old [of c g] old [of c' g] by (cases "c = cid"; cases "c' = cid") auto
  show "\<forall>cb \<in> set (fcbs ((fs @ [x]) ! g)). \<exists>k. cb = CBUser k" if "g < length (fs @ [x])" for g
    using that D(4) [of g] assms(4) by (cases "g = length fs") (auto simp: nth_append)
qed

lemma ledger_forget:
  assumes "ledger fs pend timers known" and "pend cid = None"
  shows "ledger fs pend (timers - {cid}) known"
  using assms unfolding ledger_def by auto

lemma ledger_known: "ledger fs pend timers known \<Longrightarrow> (\<And>c. known c \<Longrightarrow> known' c) \<Longrightarrow> ledger fs pend timers known'"
  unfolding ledger_def by blast

definition requests_ok :: "'u system \<Rightarrow> bool" where
  "requests_ok s \<longleftrightarrow> ledger (futs (sys_futures s)) (sys_pending s) (set (sys_timers s)) (drawn (sys_node s) (sys_counter s)) \<and>
     distinct (sys_timers s) \<and> (\<forall>cid \<in> set (sys_timers s). drawn (sys_node s) (sys_counter s) cid)"

lemma requests_ok_req: "req s' = req s \<Longrightarrow> requests_ok s' = requests_ok s"
  by (simp add: req_def requests_ok_def)

lemma requests_ok_same: "req s' = req s \<Longrightarrow> requests_ok s \<Longrightarrow> requests_ok s'"
  using requests_ok_req by blast

lemma run_work_users:
  "\<forall>cb \<in> set cbs. \<exists>k. cb = CBUser k \<Longrightarrow> \<exists>cs. run_work (map (\<lambda>cb. (cb, v)) cbs) h = h\<lparr>calls := cs\<rparr>"
proof (induction cbs arbitrary: h)
  case Nil
  have "run_work (map (\<lambda>cb. (cb, v)) []) h = h\<lparr>calls := calls h\<rparr>" by simp
  then show ?case ..
next
  case (Cons cb cbs)
  then obtain k where "cb = CBUser k" by auto
  then show ?case using Cons.IH [of "h\<lparr>calls := calls h @ [(k, v)]\<rparr>"] Cons.prems by auto
qed

lemma complete_users:
  assumes "f < length (futs h)" and "\<not> fdone (futs h ! f)" and "\<forall>cb \<in> set (fcbs (futs h ! f)). \<exists>k. cb = CBUser k"
  shows "futs (complete f v h) = (futs h)[f := settled v]"
proof -
  obtain cs where "run_work (map (\<lambda>cb. (cb, v)) (fcbs (futs h ! f))) (h\<lparr>futs := (futs h)[f := settled v]\<rparr>) =
      h\<lparr>futs := (futs h)[f := settled v], calls := cs\<rparr>"
    using run_work_users [OF assms(3)] by blast
  then show ?thesis using assms(1,2) by (simp add: complete_def settle_def settled_def Let_def)
qed

lemma complete_future_futs:
  assumes "requests_ok s" and "sys_pending s cid = Some f"
  shows "futs (sys_futures (complete_future cid v err s)) = (futs (sys_futures s))[f := settled (Val (Response cid v err))]"
proof -
  have l: "ledger (futs (sys_futures s)) (sys_pending s) (set (sys_timers s)) (drawn (sys_node s) (sys_counter s))"
    using assms(1) by (simp add: requests_ok_def)
  then have "f < length (futs (sys_futures s))" "\<not> fdone (futs (sys_futures s) ! f)"
    using ledgerD(2) assms(2) by blast+
  then show ?thesis
    using complete_users [of f "sys_futures s"] ledgerD(4) [OF l, of f] assms(2) by (simp add: complete_future_def)
qed

lemma requests_ok_complete:
  assumes "requests_ok s"
  shows "requests_ok (complete_future cid v err s)"
proof (cases "sys_pending s cid")
  case None
  then show ?thesis using assms by (simp add: complete_future_def)
next
  case (Some f)
  have "sys_pending (complete_future cid v err s) = (sys_pending s)(cid := None)"
    "sys_timers (complete_future cid v err s) = sys_timers s" "sys_node (complete_future cid v err s) = sys_node s"
    "sys_counter (complete_future cid v err s) = sys_counter s"
    using Some by (simp_all add: complete_future_def)
  moreover have "ledger ((futs (sys_futures s))[f := settled (Val (Response cid v err))]) ((sys_pending s)(cid := None))
      (set (sys_timers s)) (drawn (sys_node s) (sys_counter s))"
    using assms by (intro ledger_settle) (simp_all add: requests_ok_def Some settled_def)
  ultimately show ?thesis
    using assms complete_future_futs [OF assms Some] by (simp add: requests_ok_def)
qed

lemma requests_ok_timer:
  assumes "requests_ok s"
  shows "requests_ok (timer_fire cid s)"
proof (cases "cid \<in> set (sys_timers s)")
  case False
  then show ?thesis using assms by (simp add: timer_fire_def)
next
  case True
  let ?s = "s\<lparr>sys_timers := remove1 cid (sys_timers s)\<rparr>"
  have comm: "req (complete_future cid v err ?s) = req ((complete_future cid v err s)\<lparr>sys_timers := remove1 cid (sys_timers s)\<rparr>)" for v err
    by (simp add: complete_future_def req_def split: option.split)
  have c: "requests_ok (complete_future cid v err s)" for v err using assms by (rule requests_ok_complete)
  have "sys_pending (complete_future cid v err s) cid = None" "sys_timers (complete_future cid v err s) = sys_timers s" for v err
    by (auto simp: complete_future_def split: option.split)
  then have "requests_ok ((complete_future cid v err s)\<lparr>sys_timers := remove1 cid (sys_timers s)\<rparr>)" for v err
    using c [of v err] ledger_forget [of _ "sys_pending (complete_future cid v err s)" _ _ cid]
    unfolding requests_ok_def by (auto simp: set_remove1_eq)
  then show ?thesis
    using True requests_ok_req [OF comm] by (simp add: timer_fire_def)
qed

lemma drawn_mono: "drawn node c cid \<Longrightarrow> c \<le> c' \<Longrightarrow> drawn node c' cid"
  unfolding drawn_def using less_le_trans by blast

lemma counter_less: "sys_counter s + 1 \<noteq> 0 \<Longrightarrow> sys_counter s < sys_counter s + 1"
  using unatSuc [of "sys_counter s"] by (simp add: word_less_nat_alt add.commute)

lemma fresh_id:
  assumes "new_actor_id node now c = (n, cid)"
  shows "\<not> drawn node c cid"
  using new_actor_id_counter [OF assms] unfolding drawn_def by blast

lemma requests_ok_async:
  assumes "requests_ok s" and "send_async now nows a t m opts s = Returns (s', f)"
    and "0 < so_timeout (async_options opts)" and "sys_counter s + 1 \<noteq> 0"
  shows "requests_ok s'"
proof -
  obtain c cid where i: "new_actor_id (sys_node s) now (sys_counter s) = (c, cid)" by (meson surj_pair)
  then have c: "c = sys_counter s + 1" by (simp add: new_actor_id_def Let_def)
  have new: "\<not> drawn (sys_node s) (sys_counter s) cid" by (rule fresh_id [OF i])
  have up: "sys_counter s < c" using counter_less [OF assms(4)] c by simp
  have d: "drawn (sys_node s) c cid" unfolding drawn_def using i up by blast
  have old: "drawn (sys_node s) c x" if "drawn (sys_node s) (sys_counter s) x" for x
    using drawn_mono [OF that] up by simp
  note sc = send_async_core [OF assms(2) i]
  have s': "sys_pending s' = (sys_pending s)(cid \<mapsto> length (futs (sys_futures s)))" "sys_timers s' = sys_timers s @ [cid]"
      "futs (sys_futures s') = futs (sys_futures s) @ [fresh_future (async_options opts)]"
      "sys_counter s' = c" "sys_node s' = sys_node s"
    using sc(2) assms(3) by (simp_all add: core_def sc(1))
  have "ledger (futs (sys_futures s) @ [fresh_future (async_options opts)]) ((sys_pending s)(cid \<mapsto> length (futs (sys_futures s))))
      (insert cid (set (sys_timers s))) (drawn (sys_node s) c)"
    using assms(1) new d old
    by (intro ledger_add [where known = "drawn (sys_node s) (sys_counter s)"])
      (auto simp: requests_ok_def fresh_future_def empty_future_def split: option.splits)
  then show ?thesis
    using assms(1) new d old by (auto simp: requests_ok_def s')
qed

lemma ledger_same:
  assumes "ledger fs pend timers known" and "length fs' = length fs"
    and "\<And>f. f < length fs \<Longrightarrow> fdone (fs' ! f) = fdone (fs ! f) \<and> fcbs (fs' ! f) = fcbs (fs ! f)"
  shows "ledger fs' pend timers known"
  using ledgerD [OF assms(1)] assms(2,3) by (intro ledgerI) (metis, metis, metis, metis)

lemma await_futs:
  assumes "await timeout expired f k = (h, r)"
  shows "length (futs h) = length (futs k)" and "fdone (futs h ! g) = fdone (futs k ! g)"
    and "fcbs (futs h ! g) = fcbs (futs k ! g)" and "fresult (futs h ! g) = fresult (futs k ! g)"
proof -
  consider "futs h = futs k" | vs where "futs h = (futs k)[f := (futs k ! f)\<lparr>fch := vs\<rparr>]"
    using assms by (auto simp: await_def Let_def split: if_splits list.splits)
  then have "length (futs h) = length (futs k) \<and> fdone (futs h ! g) = fdone (futs k ! g) \<and>
      fcbs (futs h ! g) = fcbs (futs k ! g) \<and> fresult (futs h ! g) = fresult (futs k ! g)"
    by cases (simp, cases "f < length (futs k)", simp_all add: nth_list_update not_less list_update_beyond)
  then show "length (futs h) = length (futs k)" "fdone (futs h ! g) = fdone (futs k ! g)"
    "fcbs (futs h ! g) = fcbs (futs k ! g)" "fresult (futs h ! g) = fresult (futs k ! g)" by simp_all
qed

lemma requests_ok_await:
  assumes "requests_ok s" and "await timeout expired f (sys_futures s) = (h, r)"
  shows "requests_ok (s\<lparr>sys_futures := h\<rparr>)"
proof -
  have "ledger (futs h) (sys_pending s) (set (sys_timers s)) (drawn (sys_node s) (sys_counter s))"
    by (rule ledger_same [of "futs (sys_futures s)"])
      (use assms(1) await_futs [OF assms(2)] in \<open>simp_all add: requests_ok_def\<close>)
  then show ?thesis
    using assms(1) by (simp add: requests_ok_def)
qed

lemma requests_ok_new:
  assumes "requests_ok s" and "new_base_actor fails allowed now opts s = Returns (s', a)" and "sys_counter s + 1 \<noteq> 0"
  shows "requests_ok s'"
proof -
  obtain c where c: "req s' = req (s\<lparr>sys_counter := c\<rparr>)" "sys_counter s \<le> c"
    using new_base_actor_req [OF assms(2)] counter_less [OF assms(3)] by fastforce
  have old: "drawn (sys_node s) c x" if "drawn (sys_node s) (sys_counter s) x" for x
    using drawn_mono [OF that c(2)] .
  have "requests_ok (s\<lparr>sys_counter := c\<rparr>)"
    using assms(1) old ledger_known [where known = "drawn (sys_node s) (sys_counter s)" and known' = "drawn (sys_node s) c"]
    by (auto simp: requests_ok_def)
  then show ?thesis using requests_ok_req [OF c(1)] by simp
qed

text \<open>The steps, by what they mean for requests.\<close>

lemma sys_step_cases:
  assumes "sys_step s s'"
  obtains (same) "req s' = req s"
  | (async) now nows a t m opts f where "send_async now nows a t m opts s = Returns (s', f)"
      "0 < so_timeout (async_options opts)" "sys_counter s + 1 \<noteq> 0"
  | (answer) cid v err where "req s' = req (complete_future cid v err s)"
  | (timer) cid where "s' = timer_fire cid s"
  | (await) timeout expired f h r where "s' = s\<lparr>sys_futures := h\<rparr>" "await timeout expired f (sys_futures s) = (h, r)"
  | (new) fails allowed now opts a where "new_base_actor fails allowed now opts s = Returns (s', a)" "sys_counter s + 1 \<noteq> 0"
  using assms
proof cases
  case step_tell
  then show thesis by (intro same tell_req)
next
  case step_respond
  then show thesis by (intro same respond_req)
next
  case step_async
  then show thesis by (intro async)
next
  case (step_loop h a ss)
  then show thesis using run_iter_req [OF step_loop] same answer by blast
next
  case step_timer
  then show thesis by (rule timer)
next
  case step_await
  then show thesis by (rule await)
next
  case step_new
  then show thesis by (rule new)
next
  case step_start
  then show thesis by (intro same ba_start_req)
next
  case step_stop_end
  then show thesis by (intro same stop_req(2))
next
  case step_remote
  then show thesis by (intro same remote_receive_req)
qed (rule same, simp only: stop_req(1) breaker_req token_req)+

lemma sys_step_requests:
  assumes "sys_step s s'" and "requests_ok s"
  shows "requests_ok s'"
  using assms(1)
proof (cases rule: sys_step_cases)
  case same
  then show ?thesis using assms(2) by (rule requests_ok_same)
next
  case async
  show ?thesis by (rule requests_ok_async [OF assms(2) async])
next
  case (answer cid v err)
  then show ?thesis using requests_ok_complete [OF assms(2)] by (rule requests_ok_same)
next
  case timer
  then show ?thesis using requests_ok_timer [OF assms(2)] by simp
next
  case await
  then show ?thesis using requests_ok_await [OF assms(2)] by simp
next
  case new
  show ?thesis by (rule requests_ok_new [OF assms(2) new])
qed

definition sys_start :: "'u system \<Rightarrow> bool" where
  "sys_start s \<longleftrightarrow> (\<exists>ser des dial rpc st node. s = new_system ser des dial rpc st node)"

interpretation reqs: inductive_invariant sys_start sys_step requests_ok
proof unfold_locales
  show "requests_ok s" if "sys_start s" for s :: "'u system"
    using that by (auto simp: sys_start_def requests_ok_def new_system_def intro: ledgerI)
qed (rule sys_step_requests)

subsection \<open>A completed future keeps its result\<close>

definition holds_result :: "nat \<Rightarrow> 'u msg gval option \<Rightarrow> 'u system \<Rightarrow> bool" where
  "holds_result f r s \<longleftrightarrow> requests_ok s \<and> f < length (futs (sys_futures s)) \<and> fdone (futs (sys_futures s) ! f) \<and>
     fresult (futs (sys_futures s) ! f) = r"

lemma holds_result_req: "req s' = req s \<Longrightarrow> holds_result f r s \<Longrightarrow> requests_ok s' \<Longrightarrow> holds_result f r s'"
  by (simp add: holds_result_def req_def)

lemma holds_result_complete:
  assumes "holds_result f r s"
  shows "holds_result f r (complete_future cid v err s)"
proof (cases "sys_pending s cid")
  case None
  then show ?thesis using assms by (simp add: complete_future_def)
next
  case (Some g)
  have ok: "requests_ok s" using assms by (simp add: holds_result_def)
  then have "g \<noteq> f"
    using ledgerD(2) Some assms unfolding requests_ok_def holds_result_def by blast
  then show ?thesis
    using assms requests_ok_complete [OF ok] complete_future_futs [OF ok Some] by (simp add: holds_result_def)
qed

lemma sys_step_result:
  assumes "sys_step s s'" and "holds_result f r s"
  shows "holds_result f r s'"
proof -
  have ok': "requests_ok s'"
    using sys_step_requests assms by (auto simp: holds_result_def)
  from assms(1) show ?thesis
  proof (cases rule: sys_step_cases)
    case same
    then show ?thesis using assms(2) ok' by (rule holds_result_req)
  next
    case (async now nows a t m opts g)
    obtain c cid where i: "new_actor_id (sys_node s) now (sys_counter s) = (c, cid)" by (meson surj_pair)
    have "futs (sys_futures s') = futs (sys_futures s) @ [fresh_future (async_options opts)]"
      using send_async_core(2) [OF async(1) i] by (simp add: core_def)
    then show ?thesis using assms(2) ok' by (simp add: holds_result_def nth_append)
  next
    case answer
    then show ?thesis using holds_result_complete [OF assms(2)] ok' by (rule holds_result_req)
  next
    case (timer cid)
    have "req s' = req ((complete_future cid None (Some ErrAskTimeout) s)\<lparr>sys_timers := remove1 cid (sys_timers s)\<rparr>) \<or> s' = s"
      by (simp add: timer timer_fire_def complete_future_def req_def split: option.split)
    then show ?thesis
      using holds_result_complete [OF assms(2), of cid None "Some ErrAskTimeout"] assms(2) ok'
      by (auto simp: holds_result_def req_def)
  next
    case (await timeout expired g h x)
    show ?thesis
      using await_futs(1) [OF await(2)] await_futs(2,4) [OF await(2), of f] assms(2) ok' await(1)
      by (simp add: holds_result_def)
  next
    case (new fails allowed now opts a)
    then obtain c where "req s' = req (s\<lparr>sys_counter := c\<rparr>)" using new_base_actor_req by blast
    then show ?thesis using assms(2) ok' by (simp add: holds_result_def req_def)
  qed
qed

interpretation kept: inductive_invariant "\<lambda>s. holds_result f r s" sys_step "\<lambda>s. holds_result f r s"
  by unfold_locales (auto intro: sys_step_result)

subsection \<open>Properties\<close>

text \<open>C5. No request is lost, and none is answered twice. In every state that a new system can
  reach, a future that \<open>SendAsync\<close> returned is complete, or it is the future of exactly one
  pending request, whose timer is running and whose expiry completes it with \<open>ErrAskTimeout\<close>.
  A complete future is not pending, and it keeps its result in every later state, whatever
  late or repeated responses and timers do.\<close>

theorem requests_settle:
  fixes s :: "'u system"
  assumes "reach sys_start sys_step s" and "f < length (futs (sys_futures s))"
  shows "if fdone (futs (sys_futures s) ! f)
    then Some f \<notin> range (sys_pending s) \<and>
      {s'. reach ((=) s) sys_step s'} \<subseteq> {s'. fdone (futs (sys_futures s') ! f) \<and>
        fresult (futs (sys_futures s') ! f) = fresult (futs (sys_futures s) ! f)}
    else \<exists>cid. {c. sys_pending s c = Some f} = {cid} \<and> cid \<in> set (sys_timers s) \<and>
      futs (sys_futures (timer_fire cid s)) ! f = settled (Val (Response cid None (Some ErrAskTimeout)))"
proof -
  have ok: "requests_ok s" using assms(1) by (rule reqs.reach_inv)
  then have l: "ledger (futs (sys_futures s)) (sys_pending s) (set (sys_timers s)) (drawn (sys_node s) (sys_counter s))"
    by (simp add: requests_ok_def)
  show ?thesis
  proof (cases "fdone (futs (sys_futures s) ! f)")
    case True
    have h: "holds_result f (fresult (futs (sys_futures s) ! f)) s"
      using ok True assms(2) by (simp add: holds_result_def)
    have "holds_result f (fresult (futs (sys_futures s) ! f)) s'" if "reach ((=) s) sys_step s'" for s'
      by (rule kept.reach_inv, rule reach_weaken [OF that]) (use h in simp)
    then have "{s'. reach ((=) s) sys_step s'} \<subseteq> {s'. fdone (futs (sys_futures s') ! f) \<and>
        fresult (futs (sys_futures s') ! f) = fresult (futs (sys_futures s) ! f)}"
      by (intro Collect_mono impI) (simp only: holds_result_def)
    moreover have "sys_pending s c \<noteq> Some f" for c
      using ledgerD(2) [OF l, of c f] True by blast
    then have "Some f \<notin> range (sys_pending s)" by (metis imageE)
    ultimately show ?thesis unfolding if_P [OF True] by (rule conjI [rotated])
  next
    case False
    then obtain cid where c: "sys_pending s cid = Some f" using ledgerD(1) [OF l assms(2)] by blast
    then have t: "cid \<in> set (sys_timers s)" using ledgerD(2) [OF l] by blast
    have "{c. sys_pending s c = Some f} = {cid}" using ledgerD(3) [OF l c] c by blast
    moreover have "futs (sys_futures (timer_fire cid s)) ! f = settled (Val (Response cid None (Some ErrAskTimeout)))"
      using complete_future_futs [OF ok c] assms(2) t c by (simp add: timer_fire_def complete_future_def)
    ultimately show ?thesis unfolding if_not_P [OF False] using t by blast
  qed
qed

text \<open>A request to an id that nobody has: the error of the send is ignored, the request stays
  pending until its timer fires.\<close>

definition lonely_options :: "nat ba_options" where
  "lonely_options = durable_options\<lparr>bo_id := ''a''\<rparr>"

lemma lonely_request:
  "\<exists>s :: nat system. reach sys_start sys_step s \<and> length (futs (sys_futures s)) = 1 \<and> \<not> fdone (futs (sys_futures s) ! 0) \<and>
     length (sys_actors s) = 1"
proof -
  let ?new = "new_system small_marshal small_unmarshal (\<lambda>_. False) (\<lambda>_ _. None) no_files ''n'' :: nat system"
  have r0: "reach sys_start sys_step ?new"
    by (intro reach_start) (unfold sys_start_def, blast)
  obtain mb :: "(nat msg, env_meta, store) mailbox" where "new_mailbox (bo_mailbox lonely_options) = Some mb"
    by (simp add: lonely_options_def durable_options_def new_mailbox_def new_segq_def new_ring_def round_up.simps
        push_bit_eq_mult upt_rec policies)
  then obtain s1 :: "nat system" where s1: "new_base_actor reliable True 0 lonely_options ?new = Returns (s1, 0)"
      "sys_counter s1 = 0" "sys_limiter s1 = None" "sys_registry s1 = new_registry" "sys_locations s1 = Map.empty"
      "futs (sys_futures s1) = []" "length (sys_actors s1) = 1"
    by (simp add: new_base_actor_def lonely_options_def durable_options_def new_system_def)
  have r1: "reach sys_start sys_step s1"
    by (rule reach_step [OF r0 step_new [OF s1(1)]]) (simp add: new_system_def)
  obtain c cid where i: "new_actor_id (sys_node s1) 0 (sys_counter s1) = (c, cid)" by (meson surj_pair)
  obtain s2 where s2: "send_async 0 [] 0 (TRef ''b'') (User 7) None s1 = Returns (s2, 0)"
    using s1 unfolding send_async_request [OF i]
    by (simp add: send_request_def prologue_unlimited route_def deliver_to_id_def reg_get_def new_registry_def location_of_def)
  have f: "futs (sys_futures s2) = [fresh_future (async_options None)]" "map face (sys_actors s2) = map face (sys_actors s1)"
    using send_async_core(2) [OF s2 i] s1(6) by (simp_all add: core_def)
  then have "length (sys_actors s2) = 1" using map_eq_imp_length_eq [OF f(2)] s1(7) by simp
  moreover have "reach sys_start sys_step s2"
    by (rule reach_step [OF r1 step_async [OF s2]]) (simp_all add: async_options_def s1(2))
  ultimately show ?thesis
    using f(1) by (intro exI [of _ s2]) (simp add: fresh_future_def empty_future_def)
qed

theorem requests_settle_witness:
  "\<exists>(s :: nat system) cid. reach sys_start sys_step s \<and> cid \<in> set (sys_timers s) \<and>
     futs (sys_futures (timer_fire cid s)) ! 0 = settled (Val (Response cid None (Some ErrAskTimeout)))"
proof -
  obtain s :: "nat system" where "reach sys_start sys_step s" "0 < length (futs (sys_futures s))"
      "\<not> fdone (futs (sys_futures s) ! 0)"
    using lonely_request by (metis zero_less_one)
  then show ?thesis using requests_settle [of s 0] by auto
qed

end
