(* ===== verification/Soundness.thy ===== *)
theory Soundness
  imports Lifecycle
begin

text \<open>
  Type soundness of the runtime: what holds of every reachable state of a \<open>System\<close>, and that no
  call of the runtime panics in such a state. The actors, mailboxes, registry entries and tokens
  of a system fit together, whatever its goroutines do.
\<close>

subsection \<open>Well-typed systems\<close>

text \<open>What an actor shows besides its mailbox.\<close>

definition tag :: "'u base_actor \<Rightarrow> string \<times> bool \<times> bool \<times> bool" where
  "tag x = (ba_id x, ba_stopped x, ba_done x, mb_closed (ba_mb x))"

definition shell :: "'u system \<Rightarrow> target registry \<times> nat \<times> (string \<times> bool \<times> bool \<times> bool) list" where
  "shell s = (sys_registry s, sys_tokens s, map tag (sys_actors s))"

text \<open>The mailboxes are well-formed; every entry of the registry is an actor of the system under
  its own id; there are at most 4096 tokens out; the mailbox of an actor that was stopped, or
  whose loop has ended, is closed.\<close>

definition entries_ok :: "target registry \<Rightarrow> string list \<Rightarrow> bool" where
  "entries_ok r aids \<longleftrightarrow> (\<forall>aid t. by_id r aid = Some t \<longrightarrow> (\<exists>a < length aids. t = Some (TBase a) \<and> aids ! a = aid))"

definition typed :: "'u system \<Rightarrow> bool" where
  "typed s \<longleftrightarrow> (\<forall>x \<in> set (sys_actors s). mb_inv (ba_mb x)) \<and> entries_ok (sys_registry s) (map ba_id (sys_actors s)) \<and>
     sys_tokens s \<le> 4096 \<and> (\<forall>x \<in> set (sys_actors s). ba_stopped x \<or> ba_done x \<longrightarrow> mb_closed (ba_mb x))"

lemma typed_sys_ok: "typed s \<Longrightarrow> sys_ok s"
  by (force simp: typed_def sys_ok_def entries_ok_def)

text \<open>Most calls change mailboxes and keep the rest.\<close>

lemma typed_keep:
  assumes "typed s" and "\<forall>x \<in> set (sys_actors s'). mb_inv (ba_mb x)" and "shell s' = shell s"
  shows "typed s'"
proof -
  have r: "sys_registry s' = sys_registry s" "sys_tokens s' = sys_tokens s" and t: "map tag (sys_actors s') = map tag (sys_actors s)"
    using assms(3) by (simp_all add: shell_def)
  have "map ba_id (sys_actors s') = map ba_id (sys_actors s)"
    using arg_cong [OF t, of "map fst"] by (simp add: tag_def comp_def)
  moreover have "\<forall>x \<in> set (sys_actors s'). ba_stopped x \<or> ba_done x \<longrightarrow> mb_closed (ba_mb x)"
  proof
    fix x
    assume "x \<in> set (sys_actors s')"
    then have "tag x \<in> tag ` set (sys_actors s)"
      using arg_cong [OF t, of set] by auto
    then show "ba_stopped x \<or> ba_done x \<longrightarrow> mb_closed (ba_mb x)"
      using assms(1) by (auto simp: tag_def typed_def)
  qed
  ultimately show ?thesis
    using assms(1,2) r by (simp add: typed_def)
qed

lemma typed_update_actor:
  assumes "typed s" and "a < length (sys_actors s) \<Longrightarrow> mb_inv (ba_mb x)" and "ba_id x = ba_id (sys_actors s ! a)"
    and "a < length (sys_actors s) \<Longrightarrow> ba_stopped x \<or> ba_done x \<longrightarrow> mb_closed (ba_mb x)"
  shows "typed (set_actor a x s)"
proof (cases "a < length (sys_actors s)")
  case True
  have "map ba_id ((sys_actors s)[a := x]) = map ba_id (sys_actors s)"
    using True assms(3) by (metis length_map list_update_id map_update nth_map)
  then show ?thesis
    using assms True by (auto simp: typed_def set_actor_def dest: set_update_subset_insert [THEN subsetD])
next
  case False
  then show ?thesis using assms(1) by (simp add: set_actor_def list_update_beyond)
qed

lemma typed_update [simp]:
  "typed (s\<lparr>sys_limiter := tb\<rparr>) = typed s" "typed (s\<lparr>sys_metrics := ms\<rparr>) = typed s"
  "typed (s\<lparr>sys_store := st\<rparr>) = typed s" "typed (s\<lparr>sys_pending := pe\<rparr>) = typed s"
  "typed (s\<lparr>sys_futures := fh\<rparr>) = typed s" "typed (s\<lparr>sys_timers := ti\<rparr>) = typed s"
  "typed (s\<lparr>sys_counter := co\<rparr>) = typed s" "typed (s\<lparr>sys_direct := di\<rparr>) = typed s"
  "typed (s\<lparr>sys_breakers := br\<rparr>) = typed s" "typed (s\<lparr>sys_remote := re\<rparr>) = typed s"
  "typed (s\<lparr>sys_stops := sp\<rparr>) = typed s" "typed (s\<lparr>sys_failed := fa\<rparr>) = typed s"
  by (simp_all add: typed_def)

lemma typed_actor:
  assumes "typed s" and "a < length (sys_actors s)"
  shows "mb_inv (mailbox_of a s)" "ba_stopped (sys_actors s ! a) \<or> ba_done (sys_actors s ! a) \<longrightarrow> mb_closed (mailbox_of a s)"
  using assms by (simp_all add: typed_def)

lemma typed_entry:
  assumes "typed s" and "by_id (sys_registry s) aid = Some t"
  shows "\<exists>a < length (sys_actors s). t = Some (TBase a) \<and> ba_id (sys_actors s ! a) = aid"
  using assms unfolding typed_def entries_ok_def by (metis length_map nth_map)

lemma typed_append:
  assumes "typed s" and "sys_actors s = xs" and "mb_inv (ba_mb x)" and "\<not> ba_stopped x" and "\<not> ba_done x"
  shows "typed (s\<lparr>sys_actors := xs @ [x]\<rparr>)"
proof -
  have "entries_ok (sys_registry s) (map ba_id xs @ [ba_id x])"
    using assms(1,2) by (force simp: typed_def entries_ok_def nth_append)
  then show ?thesis using assms by (auto simp: typed_def)
qed

subsection \<open>Deliveries\<close>

lemma mb_push_first:
  assumes "mb_inv m"
  shows "\<exists>m' w' r. mb_push e [] m w = Some (m', w', r) \<and> mb_inv m' \<and> mb_closed m' = mb_closed m"
proof (cases "mb_policy m = backpressure_block")
  case False
  then show ?thesis using mb_push_cases [OF assms, of e "[]" w] by blast
next
  case block: True
  show ?thesis
  proof (cases "mb_full e m")
    case True
    then show ?thesis
      using block assms attempt_full [OF assms True] by (simp add: mb_push_def push_block.simps Let_def policies)
  next
    case False
    obtain q where "segq_enqueue (lane e m) (Some e) = Some (q, True)" "mb_inv (mb_signal (set_lane e q m))"
      using attempt_free [OF assms False] .
    then show ?thesis
      using block assms by (simp add: mb_push_def push_block.simps Let_def policies)
  qed
qed

lemma ba_tell_typed:
  assumes "typed s"
  shows "a < length (sys_actors s) \<Longrightarrow> ba_tell a m me pri persist s \<noteq> Panics"
    and "ba_tell a m me pri persist s = Returns (s', err) \<Longrightarrow> typed s' \<and> map ba_id (sys_actors s') = map ba_id (sys_actors s)"
proof -
  let ?e = "\<lparr>prio = pri, payload = m, meta = me, persist_flag = persist\<rparr>" and ?mb = "mailbox_of a s"
  have push: "\<exists>mb st r. mb_push ?e [] ?mb (sys_store s) = Some (mb, st, r) \<and> mb_inv mb \<and> mb_closed mb = mb_closed ?mb"
    if "a < length (sys_actors s)"
    by (rule mb_push_first) (rule typed_actor(1) [OF assms that])
  show "ba_tell a m me pri persist s \<noteq> Panics" if a: "a < length (sys_actors s)"
  proof -
    obtain mb st r where "mb_push ?e [] ?mb (sys_store s) = Some (mb, st, r)" using push [OF a] by blast
    then show ?thesis by (cases r) (simp_all add: ba_tell_def Let_def)
  qed
  show "typed s' \<and> map ba_id (sys_actors s') = map ba_id (sys_actors s)" if t: "ba_tell a m me pri persist s = Returns (s', err)"
  proof -
    obtain mb st r where p: "mb_push ?e [] ?mb (sys_store s) = Some (mb, st, r)"
      and s': "s' = (set_actor a ((sys_actors s ! a)\<lparr>ba_mb := mb\<rparr>) s)\<lparr>sys_store := st\<rparr>"
      using t by (auto simp: ba_tell_def and_then_Returns Let_def split: option.splits)
    have "typed (set_actor a ((sys_actors s ! a)\<lparr>ba_mb := mb\<rparr>) s)"
      using p push typed_actor [OF assms, of a] by (intro typed_update_actor [OF assms]) auto
    then show ?thesis
      by (cases "a < length (sys_actors s)")
        (simp_all add: s' set_actor_def map_update list_update_same_conv list_update_beyond)
  qed
qed

text \<open>A destination that exists.\<close>

fun there :: "dest \<Rightarrow> 'u system \<Rightarrow> bool" where
  "there (Local a) s = (a < length (sys_actors s))"
| "there NilEntry s = False"
| "there _ s = True"

lemma dest_there: "typed s \<Longrightarrow> there (dest_of_id aid s) s"
  by (auto simp: dest_of_id_def typed_def entries_ok_def split: option.split target.split)

lemma hand_over_typed:
  assumes "typed s"
  shows "there d s \<Longrightarrow> hand_over d me pri m persist s \<noteq> Panics"
    and "hand_over d me pri m persist s = Returns (s', err) \<Longrightarrow> typed s'"
proof -
  have "(there d s \<longrightarrow> hand_over d me pri m persist s \<noteq> Panics) \<and> (hand_over d me pri m persist s = Returns (s', err) \<longrightarrow> typed s')"
  proof (cases d)
    case (Local a)
    then show ?thesis using assms ba_tell_typed [OF assms(1), of a m me pri persist] by auto
  next
    case (Remote addr aid)
    then show ?thesis using assms(1)
      by (auto simp: send_over_def remote_deliver_def conn_def split: option.splits prod.splits if_splits)
  qed (use assms in \<open>auto simp: receive_direct_def split: target.splits\<close>)
  then show "there d s \<Longrightarrow> hand_over d me pri m persist s \<noteq> Panics"
    and "hand_over d me pri m persist s = Returns (s', err) \<Longrightarrow> typed s'" by auto
qed

lemma prologue_typed:
  assumes "typed s"
  shows "send_prologue nows s \<noteq> Panics" and "send_prologue nows s = Returns s1 \<Longrightarrow> typed s1 \<and> sys_actors s1 = sys_actors s"
proof -
  show "send_prologue nows s \<noteq> Panics"
    by (auto simp: send_prologue_def split: option.split prod.split)
  show "typed s1 \<and> sys_actors s1 = sys_actors s" if "send_prologue nows s = Returns s1"
    by (rule send_prologue_Returns [OF that]) (simp add: assms)
qed

subsection \<open>Calls\<close>

definition present :: "target \<Rightarrow> 'u system \<Rightarrow> bool" where
  "present t s \<longleftrightarrow> (\<forall>a. t = TBase a \<longrightarrow> a < length (sys_actors s))"

lemma destination_there: "typed s \<Longrightarrow> present t s \<Longrightarrow> t \<noteq> TNil \<Longrightarrow> there (destination t s) s"
  by (cases "(t, s)" rule: destination.cases) (simp_all add: present_def dest_there)

lemma and_then_Panics: "and_then x f = Panics \<longleftrightarrow> x = Panics \<or> (\<exists>y. x = Returns y \<and> f y = Panics)"
  by (cases x) auto

text \<open>The prologue of a send and the delivery behind it.\<close>

lemma send_typed:
  assumes "typed s" and x: "x = and_then (send_prologue nows s) (\<lambda>s1. hand_over (d s1) (me s1) pri m persist s1)"
  shows "(\<And>s1. typed s1 \<Longrightarrow> sys_actors s1 = sys_actors s \<Longrightarrow> there (d s1) s1) \<Longrightarrow> x \<noteq> Panics"
    and "x = Returns (s', err) \<Longrightarrow> typed s'"
proof -
  note p = prologue_typed [OF assms(1), of nows]
  show "x \<noteq> Panics" if "\<And>s1. typed s1 \<Longrightarrow> sys_actors s1 = sys_actors s \<Longrightarrow> there (d s1) s1"
    using p hand_over_typed(1) that unfolding x and_then_Panics by metis
  show "x = Returns (s', err) \<Longrightarrow> typed s'"
    using p(2) hand_over_typed(2) unfolding x and_then_Returns by metis
qed

lemma tell_typed:
  assumes "typed s"
  shows "present t s \<Longrightarrow> tell nows from t m opts s \<noteq> Panics" and "tell nows from t m opts s = Returns (s', err) \<Longrightarrow> typed s'"
proof -
  obtain pri pl where u: "unwrap (so_priority opts) m = (pri, pl)" by (meson surj_pair)
  have d: "tell nows from t m opts s = and_then (send_prologue nows s) (\<lambda>s1. hand_over (destination t s1)
      \<lparr>ekind = kind_user, from_id = sender_id from s1, corr_id = [], reply_to = []\<rparr> pri pl (so_persist opts) s1)" if "t \<noteq> TNil"
    using that u by (simp add: tell_def route_dest)
  show "tell nows from t m opts s \<noteq> Panics" if "present t s"
  proof (cases "t = TNil")
    case True
    then show ?thesis by (simp add: tell_def)
  next
    case False
    have "there (destination t s1) s1" if "typed s1" "sys_actors s1 = sys_actors s" for s1
      using destination_there [OF that(1) _ False] that(2) \<open>present t s\<close> by (simp add: present_def)
    with send_typed(1) [OF assms d [OF False]] show ?thesis by blast
  qed
  show "typed s'" if "tell nows from t m opts s = Returns (s', err)"
    using that assms send_typed(2) [OF assms d] by (cases "t = TNil") (auto simp: tell_def [of nows "from" TNil])
qed

lemma respond_typed:
  assumes "typed s"
  shows "respond nows cx v err s \<noteq> Panics" and "respond nows cx v err s = Returns s' \<Longrightarrow> typed s'"
proof -
  let ?x = "send_response nows (ba_id (sys_actors s ! cx_self cx)) (cx_reply cx) (cx_corr cx) v err s"
  have "?x = and_then (send_prologue nows s) (\<lambda>s1. hand_over (dest_of_id (cx_reply cx) s1)
      \<lparr>ekind = kind_response, from_id = ba_id (sys_actors s ! cx_self cx), corr_id = cx_corr cx, reply_to = []\<rparr>
      priority_urgent (Response (cx_corr cx) v err) False s1)"
    by (simp add: send_response_def deliver_to_id_dest)
  note x = send_typed(1) [OF assms this dest_there] send_typed(2) [OF assms this]
  show "respond nows cx v err s \<noteq> Panics" "respond nows cx v err s = Returns s' \<Longrightarrow> typed s'"
    using x assms by (auto simp: respond_def and_then_Panics and_then_Returns split: if_splits)
qed

lemma send_async_typed:
  assumes "typed s"
  shows "present t s \<Longrightarrow> t \<noteq> TNil \<Longrightarrow> send_async now nows a t m opts s \<noteq> Panics"
    and "send_async now nows a t m opts s = Returns (s', f) \<Longrightarrow> typed s'"
proof -
  obtain c cid where i: "new_actor_id (sys_node s) now (sys_counter s) = (c, cid)" by (meson surj_pair)
  let ?o = "async_options opts"
  let ?s2 = "s\<lparr>sys_futures := (sys_futures s)\<lparr>futs := futs (sys_futures s) @ [fresh_future ?o]\<rparr>,
    sys_counter := c, sys_pending := (sys_pending s)(cid \<mapsto> length (futs (sys_futures s))),
    sys_timers := sys_timers s @ (if 0 < so_timeout ?o then [cid] else [])\<rparr>"
  let ?x = "send_request nows (Some a) t cid m (ba_id (sys_actors s ! a)) (so_priority ?o) (so_persist ?o) ?s2"
  have s2: "typed ?s2" using assms by simp
  have "?x = and_then (send_prologue nows ?s2) (\<lambda>s1. hand_over (destination t s1)
      \<lparr>ekind = kind_request, from_id = sender_id (Some a) s1, corr_id = cid, reply_to = ba_id (sys_actors s ! a)\<rparr>
      (so_priority ?o) (Request cid m (ba_id (sys_actors s ! a))) (so_persist ?o) s1)"
    by (simp add: send_request_def route_dest)
  note x = send_typed [OF s2 this]
  show "typed s'" if "send_async now nows a t m opts s = Returns (s', f)"
    using that x(2) unfolding send_async_request [OF i] and_then_Returns by auto
  show "send_async now nows a t m opts s \<noteq> Panics" if t: "present t s" "t \<noteq> TNil"
  proof -
    have "there (destination t s1) s1" if "typed s1" "sys_actors s1 = sys_actors ?s2" for s1
      using destination_there [OF that(1) _ t(2)] that(2) t(1) by (simp add: present_def)
    then have "?x \<noteq> Panics" by (rule x(1))
    then show ?thesis unfolding send_async_request [OF i] and_then_Panics by auto
  qed
qed

lemma remote_receive_typed:
  assumes "typed s"
  shows "remote_receive env s \<noteq> Panics" and "remote_receive env s = Returns (s', ack) \<Longrightarrow> typed s'"
proof -
  note e = typed_entry [OF assms, of "re_to env"]
  have "remote_receive env s \<noteq> Panics \<and> (remote_receive env s = Returns (s', ack) \<longrightarrow> typed s')"
  proof (cases "by_id (sys_registry s) (re_to env)")
    case None
    then show ?thesis using assms by (auto simp: remote_receive_def reg_get_def split: sum.split)
  next
    case (Some t)
    then obtain a where "a < length (sys_actors s)" "t = Some (TBase a)" using e by blast
    then show ?thesis
      using Some assms ba_tell_typed [OF assms, of a]
      by (auto simp: remote_receive_def reg_get_def and_then_Panics and_then_Returns split: sum.split)
  qed
  then show "remote_receive env s \<noteq> Panics" and "remote_receive env s = Returns (s', ack) \<Longrightarrow> typed s'" by auto
qed

subsection \<open>The life of an actor\<close>

lemma complete_future_typed: "typed s \<Longrightarrow> typed (complete_future cid v err s)"
  by (simp add: complete_future_def split: option.split)

lemma close_mailbox_typed: "typed s \<Longrightarrow> typed (close_mailbox a s)"
proof -
  assume t: "typed s"
  show ?thesis
  proof (cases "a < length (sys_actors s)")
    case True
    then show ?thesis
      using typed_actor [OF t True] unfolding close_mailbox_def
      by (intro typed_update_actor [OF t]) (simp_all add: mb_inv_close)
  next
    case False
    then show ?thesis using t by (simp add: close_mailbox_def set_actor_def list_update_beyond)
  qed
qed

lemma handle_typed:
  assumes "typed s" and "h = quiet \<or> h = panicking"
  shows "\<exists>s'. handle h a env s = Returns s' \<and> typed s'"
proof -
  let ?s1 = "s\<lparr>sys_metrics := map_option inc_in (sys_metrics s)\<rparr>"
  have rec: "\<exists>s'. recovered a (h cx m ?s1) = Returns s' \<and> typed s'" for cx m
    using assms close_mailbox_typed [of "notify_failure (ba_id (sys_actors ?s1 ! a)) ?s1" a]
    by (auto simp: recovered_def quiet_def panicking_def notify_failure_def Let_def)
  show ?thesis
    using assms(1) rec complete_future_typed [of ?s1]
    by (cases "payload env") (auto simp: handle_def Let_def)
qed

lemma run_iter_typed:
  assumes "typed s" and "h = quiet \<or> h = panicking"
  shows "a < length (sys_actors s) \<Longrightarrow> \<exists>ss. run_iter h a s = Returns ss"
    and "run_iter h a s = Returns ss \<Longrightarrow> s' \<in> set ss \<Longrightarrow> typed s'"
proof -
  let ?x = "sys_actors s ! a"
  have pop: "\<exists>mb r. mb_pop (mailbox_of a s) = Some (mb, r) \<and> mb_inv mb \<and> mb_closed mb = mb_closed (mailbox_of a s)"
    if "a < length (sys_actors s)"
    using mb_pop_spec [OF typed_actor(1) [OF assms(1) that]] by blast
  have next_msg: "\<exists>s'. handle h a env (set_actor a (?x\<lparr>ba_mb := mb\<rparr>) s) = Returns s' \<and> typed s'"
    if "mb_pop (mailbox_of a s) = Some (mb, Some env)" for mb env
    using pop that typed_actor [OF assms(1), of a]
    by (intro handle_typed [OF _ assms(2)] typed_update_actor [OF assms(1)]) auto
  then show "\<exists>ss. run_iter h a s = Returns ss" if "a < length (sys_actors s)"
    using pop [OF that] by (auto simp: run_iter_def Let_def split: option.split)
  show "typed s'" if it: "run_iter h a s = Returns ss" "s' \<in> set ss"
  proof -
    obtain mb r where p: "mb_pop (mailbox_of a s) = Some (mb, r)"
      using it(1) by (cases "mb_pop (mailbox_of a s)") (auto simp: run_iter_def Let_def)
    show ?thesis
    proof (cases r)
      case (Some env)
      then show ?thesis
        using it next_msg [of mb env] p by (auto simp: run_iter_def and_then_Returns Let_def)
    next
      case None
      then obtain mb' go where w: "(mb', go) \<in> set (mb_wait mb)" "s' = set_actor a (?x\<lparr>ba_mb := mb', ba_done := \<not> go\<rparr>) s"
        using it p by (auto simp: run_iter_def Let_def)
      then show ?thesis
        using p pop typed_actor [OF assms(1), of a] unfolding w(2)
        by (intro typed_update_actor [OF assms(1)])
          (auto simp: mb_wait_def mb_inv_def urgents_def normals_def split: if_splits)
    qed
  qed
qed

lemma new_base_actor_typed:
  assumes "typed s" and "new_base_actor fails allowed now opts s = Returns (s', a)"
  shows "typed s'"
proof -
  show ?thesis
    using assms
    by (auto simp: new_base_actor_def Let_def dest: new_mailbox_ok(1) intro!: typed_append
        split: if_splits option.splits prod.splits sum.splits)
qed

lemma replay_records_typed:
  assumes "typed s" and "a < length (sys_actors s)"
  shows "replay_records a bs s \<noteq> Panics"
    and "replay_records a bs s = Returns s' \<Longrightarrow> typed s' \<and> map ba_id (sys_actors s') = map ba_id (sys_actors s)"
proof -
  have "replay_records a bs s \<noteq> Panics \<and>
    (replay_records a bs s = Returns s' \<longrightarrow> typed s' \<and> map ba_id (sys_actors s') = map ba_id (sys_actors s))"
    using assms
  proof (induction bs arbitrary: s)
    case (Cons b bs)
    show ?case
    proof (cases "sys_unmarshal s b")
      case (Inr m)
      let ?t = "ba_tell a m \<lparr>ekind = kind_user, from_id = [], corr_id = [], reply_to = []\<rparr> priority_normal False s"
      have "replay_records a bs s1 \<noteq> Panics \<and> (replay_records a bs s1 = Returns s' \<longrightarrow>
          typed s' \<and> map ba_id (sys_actors s') = map ba_id (sys_actors s))" if "?t = Returns (s1, err)" for s1 err
        using Cons.IH [of s1] ba_tell_typed(2) [OF Cons.prems(1) that] Cons.prems(2) map_eq_imp_length_eq by metis
      then show ?thesis
        using Inr ba_tell_typed(1) [OF Cons.prems(1,2)] by (auto simp: and_then_Panics and_then_Returns)
    qed (use Cons in simp)
  qed auto
  then show "replay_records a bs s \<noteq> Panics"
    and "replay_records a bs s = Returns s' \<Longrightarrow> typed s' \<and> map ba_id (sys_actors s') = map ba_id (sys_actors s)" by auto
qed

lemma ba_start_typed:
  assumes "typed s" and "a < length (sys_actors s)"
  shows "ba_start seek_ok a s \<noteq> Panics" and "ba_start seek_ok a s = Returns s' \<Longrightarrow> typed s'"
proof -
  let ?s = "set_actor a ((sys_actors s ! a)\<lparr>ba_started := True\<rparr>) s"
  have s: "typed ?s" "a < length (sys_actors ?s)"
    using typed_update_actor [OF assms(1), where a = a and x = "(sys_actors s ! a)\<lparr>ba_started := True\<rparr>"] typed_actor [OF assms] assms(2)
    by (simp_all add: set_actor_def)
  have r: "start_replay seek_ok a ?s \<noteq> Panics \<and> (\<forall>s1. start_replay seek_ok a ?s = Returns s1 \<longrightarrow>
      typed s1 \<and> map ba_id (sys_actors s1) = map ba_id (sys_actors ?s))"
  proof (cases "ba_wal (sys_actors ?s ! a)")
    case True
    obtain s2 res where rl: "read_log seek_ok a ?s = (s2, res)" by (meson surj_pair)
    then have s2: "typed s2" "sys_actors s2 = sys_actors ?s"
      using s(1) by (auto simp: read_log_def split: prod.splits)
    then show ?thesis
      using True rl replay_records_typed [OF s2(1), of a] s(2) by (cases res) (auto simp: start_replay_def)
  next
    case False
    then show ?thesis using s(1) by (simp add: start_replay_def)
  qed
  then show "ba_start seek_ok a s \<noteq> Panics"
    by (auto simp: ba_start_def and_then_Panics Let_def)
  show "typed s'" if st: "ba_start seek_ok a s = Returns s'"
  proof (cases "ba_started (sys_actors s ! a)")
    case True
    then show ?thesis using st assms(1) by (simp add: ba_start_def)
  next
    case False
    then obtain s1 where s1: "start_replay seek_ok a ?s = Returns s1"
      and s': "s' = set_actor a ((sys_actors s1 ! a)\<lparr>ba_state := state_running\<rparr>)
        (s1\<lparr>sys_registry := register (ba_id (sys_actors s1 ! a)) (ba_name (sys_actors s1 ! a)) (Some (TBase a)) (sys_registry s1)\<rparr>)"
      using st by (auto simp: ba_start_def and_then_Returns Let_def)
    have t1: "typed s1" "a < length (sys_actors s1)"
      using r s1 s(2) map_eq_imp_length_eq by metis+
    then have "typed (s1\<lparr>sys_registry := register (ba_id (sys_actors s1 ! a)) (ba_name (sys_actors s1 ! a)) (Some (TBase a)) (sys_registry s1)\<rparr>)"
      by (auto simp: typed_def entries_ok_def register_def Let_def)
    then show ?thesis
      unfolding s' using typed_actor [OF t1] by (intro typed_update_actor) simp_all
  qed
qed

lemma stop_typed:
  assumes "typed s"
  shows "typed (stop_begin a s)" and "stop_end clean a s = Returns s' \<Longrightarrow> typed s'"
proof -
  show "typed (stop_begin a s)"
  proof (cases "a < length (sys_actors s)")
    case True
    let ?x = "sys_actors s ! a"
    have "close_mailbox a (set_actor a (?x\<lparr>ba_stopped := True, ba_state := state_stopping\<rparr>) s) =
        set_actor a (?x\<lparr>ba_stopped := True, ba_state := state_stopping, ba_mb := mb_close (ba_mb ?x)\<rparr>) s"
      using True by (simp add: close_mailbox_def set_actor_def)
    moreover have "typed (set_actor a (?x\<lparr>ba_stopped := True, ba_state := state_stopping, ba_mb := mb_close (ba_mb ?x)\<rparr>) s)"
      using typed_actor [OF assms True] by (intro typed_update_actor [OF assms]) (simp_all add: mb_inv_close)
    ultimately show ?thesis using assms by (simp add: stop_begin_def Let_def)
  next
    case False
    then show ?thesis using assms by (simp add: stop_begin_def close_mailbox_def set_actor_def list_update_beyond Let_def)
  qed
  show "typed s'" if "stop_end clean a s = Returns s'"
  proof -
    let ?x = "sys_actors s ! a"
    have "typed (set_actor a (?x\<lparr>ba_state := state_stopped\<rparr>) s)"
    proof (cases "a < length (sys_actors s)")
      case True
      then show ?thesis using typed_actor [OF assms True] by (intro typed_update_actor [OF assms]) simp_all
    next
      case False
      then show ?thesis using assms by (simp add: set_actor_def list_update_beyond)
    qed
    then have "typed ((set_actor a (?x\<lparr>ba_state := state_stopped\<rparr>) s)\<lparr>sys_registry := unregister aid name (sys_registry s)\<rparr>)"
      for aid name
      by (auto simp: typed_def entries_ok_def unregister_def set_actor_def Let_def)
    then show ?thesis
      using that assms by (auto simp: stop_end_def set_actor_def Let_def split: if_splits)
  qed
qed

subsection \<open>Every reachable state is well-typed\<close>

lemma sys_step_typed:
  assumes "typed s" and "sys_step s s'"
  shows "typed s'"
  using assms(2)
proof cases
  case step_tell
  then show ?thesis using tell_typed(2) [OF assms(1)] by blast
next
  case step_respond
  then show ?thesis using respond_typed(2) [OF assms(1)] by blast
next
  case step_async
  then show ?thesis using send_async_typed(2) [OF assms(1)] by blast
next
  case (step_loop h a ss)
  then show ?thesis using run_iter_typed [OF assms(1)] by fastforce
next
  case step_timer
  then show ?thesis
    using complete_future_typed [of "s\<lparr>sys_timers := remove1 cid (sys_timers s)\<rparr>" for cid] assms(1) by (auto simp: timer_fire_def)
next
  case step_await
  then show ?thesis using assms(1) by simp
next
  case step_new
  then show ?thesis using new_base_actor_typed [OF assms(1)] by blast
next
  case step_start
  then show ?thesis using ba_start_typed(2) [OF assms(1)] by blast
next
  case step_stop_begin
  then show ?thesis using stop_typed(1) [OF assms(1)] by simp
next
  case step_stop_end
  then show ?thesis using stop_typed(2) [OF assms(1)] by blast
next
  case step_remote
  then show ?thesis using remote_receive_typed(2) [OF assms(1)] by blast
qed (use assms(1) in \<open>auto simp: breaker_for_def breaker_admits_def with_breaker_def try_acquire_token_def
    release_token_def typed_def Let_def split: option.splits\<close>)

interpretation runtime: inductive_invariant sys_start sys_step typed
proof unfold_locales
  show "typed s" if "sys_start s" for s :: "'u system"
    using that by (auto simp: sys_start_def typed_def new_system_def entries_ok_def new_registry_def)
qed (rule sys_step_typed)

subsection \<open>Properties\<close>



end
