(* ===== verification/Shutdown.thy ===== *)
theory Shutdown
  imports Lifecycle
begin

text \<open>
  How an actor ends (\<open>Stop\<close>, \<open>run\<close> and the deferred function of \<open>handle\<close> in
  \<open>actor/base_actor.go\<close>): a panic of the handler closes the mailbox and starts a \<open>Stop\<close>; on a
  closed mailbox the loop works off what is queued and ends after a bounded number of rounds,
  whatever \<open>Wait\<close> chooses, and then \<open>Stop\<close> returns.
\<close>

subsection \<open>A closed mailbox\<close>

lemma lanes_close [simp]: "lanes (mb_close m) = lanes m"
  by (simp add: lanes_def mb_close_def urgents_def normals_def)

lemma close_mailbox_put: "close_mailbox a s = put_mailbox a (mb_close (mailbox_of a s)) s"
  by (simp add: close_mailbox_def put_mailbox_def)

lemma ba_tell_closed:
  assumes "mb_closed (mailbox_of a s)"
  shows "ba_tell a m me pri persist s = Returns (s, Some ErrMailboxClosed)"
  using assms by (simp add: ba_tell_def mb_push_def set_actor_def)

subsection \<open>Rounds of the loop on a closed mailbox\<close>

definition closing :: "nat \<Rightarrow> 'u system \<Rightarrow> bool" where
  "closing a s \<longleftrightarrow> sys_ok s \<and> a < length (sys_actors s) \<and> mb_closed (mailbox_of a s)"

text \<open>What is left to do: the queued messages, a pending token, the end of the loop.\<close>

definition work_left :: "nat \<Rightarrow> 'u system \<Rightarrow> nat" where
  "work_left a s = length (fst (lanes (mailbox_of a s))) + length (snd (lanes (mailbox_of a s))) +
     (if mb_notify (mailbox_of a s) then 1 else 0) + (if ba_done (sys_actors s ! a) then 0 else 1)"

lemma lanes_pop_length:
  "lanes_pop (us, ns) = ((us', ns'), Some e) \<Longrightarrow> length us + length ns = Suc (length us' + length ns')"
  "lanes_pop (us, ns) = (l, None) \<Longrightarrow> us = [] \<and> ns = [] \<and> l = ([], [])"
  by (cases us; cases ns; auto)+

text \<open>What the rounds of actor \<open>a\<close> leave alone on the way to its end.\<close>

definition badge :: "nat \<Rightarrow> 'u system \<Rightarrow> _" where
  "badge a s = (let x = sys_actors s ! a
     in (ba_id x, ba_name x, ba_receive x, ba_wal x, ba_state x, ba_started x, ba_stopped x))"

definition loop_frame :: "nat \<Rightarrow> 'u system \<Rightarrow> _" where
  "loop_frame a s = (sys_registry s, sys_store s, sys_persist_dir s, sys_marshal s, sys_unmarshal s, sys_node s, sys_counter s,
     sys_subscribers s, length (sys_actors s), badge a s, \<lambda>b. if b = a then None else Some (sys_actors s ! b))"

lemma handle_closed:
  assumes "h = quiet \<or> h = panicking" and "mb_closed (mailbox_of a s)"
  shows "\<exists>s'. handle h a env s = Returns s' \<and> sys_actors s' = sys_actors s \<and> sys_registry s' = sys_registry s \<and>
    loop_frame b s' = loop_frame b s"
proof -
  let ?s1 = "s\<lparr>sys_metrics := map_option inc_in (sys_metrics s)\<rparr>"
  have rec: "\<exists>s'. recovered a (h cx m ?s1) = Returns s' \<and> sys_actors s' = sys_actors s \<and> sys_registry s' = sys_registry s \<and>
      loop_frame b s' = loop_frame b s" for cx m
    using assms
    by (auto simp: recovered_def quiet_def panicking_def close_mailbox_def notify_failure_def set_actor_def Let_def loop_frame_def badge_def cong: if_cong)
  have com: "sys_actors (complete_future cid v err ?s1) = sys_actors s \<and>
      sys_registry (complete_future cid v err ?s1) = sys_registry s \<and>
      loop_frame b (complete_future cid v err ?s1) = loop_frame b s" for cid v err
    by (simp add: complete_future_def loop_frame_def badge_def split: option.split cong: if_cong)
  have "loop_frame b ?s1 = loop_frame b s"
    by (simp add: loop_frame_def badge_def cong: if_cong)
  then show ?thesis
    using rec com by (cases "payload env") (simp_all add: handle_def Let_def)
qed

lemma round_closing:
  assumes "closing a s" and "\<not> ba_done (sys_actors s ! a)" and "h = quiet \<or> h = panicking"
  shows "\<exists>ss. run_iter h a s = Returns ss \<and> ss \<noteq> [] \<and> (\<forall>s' \<in> set ss. closing a s' \<and> work_left a s' < work_left a s \<and>
    loop_frame a s' = loop_frame a s)"
proof -
  have ok: "sys_ok s" "a < length (sys_actors s)" "mb_closed (mailbox_of a s)"
    using assms(1) by (simp_all add: closing_def)
  obtain mb r where pop: "mb_pop (mailbox_of a s) = Some (mb, r)" and mb: "mb_inv mb" "mb_closed mb"
      "mb_notify mb = mb_notify (mailbox_of a s)" "lanes_pop (lanes (mailbox_of a s)) = (lanes mb, r)"
    using mb_pop_spec [OF sys_ok_mailbox [OF ok(1,2)]] ok(3) by metis
  show ?thesis
  proof (cases r)
    case None
    have l: "lanes (mailbox_of a s) = ([], [])" "lanes mb = ([], [])"
      using mb(4) None lanes_pop_length(2) by (metis surj_pair)+
    have i: "mb_inv (mb\<lparr>mb_notify := False\<rparr>)" "lanes (mb\<lparr>mb_notify := False\<rparr>) = lanes mb"
      using mb(1) by (simp_all add: mb_inv_def lanes_def urgents_def normals_def)
    have "run_iter h a s = Returns (map (\<lambda>(mb', go). set_actor a ((sys_actors s ! a)\<lparr>ba_mb := mb', ba_done := \<not> go\<rparr>) s) (mb_wait mb))"
      using pop None by (simp add: run_iter_def Let_def)
    moreover have "closing a (set_actor a ((sys_actors s ! a)\<lparr>ba_mb := mb', ba_done := d\<rparr>) s) \<and>
        work_left a (set_actor a ((sys_actors s ! a)\<lparr>ba_mb := mb', ba_done := d\<rparr>) s) =
          (if mb_notify mb' then 1 else 0) + (if d then 0 else 1)"
      if "mb' = mb \<or> mb' = mb\<lparr>mb_notify := False\<rparr>" for mb' d
      using that ok mb(1,2) i l
      by (auto simp: closing_def work_left_def sys_ok_def set_actor_def all_set_conv_all_nth nth_list_update)
    moreover have "work_left a s = (if mb_notify mb then 1 else 0) + 1"
      using l(1) mb(3) assms(2) by (simp add: work_left_def)
    moreover have "loop_frame a (set_actor a ((sys_actors s ! a)\<lparr>ba_mb := mb', ba_done := d\<rparr>) s) = loop_frame a s" for mb' d
      using ok(2) by (auto simp: loop_frame_def badge_def set_actor_def fun_eq_iff Let_def)
    ultimately show ?thesis
      using mb(2) ok(2) by (auto simp: mb_wait_def)
  next
    case (Some env)
    have c: "mb_closed (mailbox_of a (put_mailbox a mb s))" using mb(2) ok(2) by simp
    obtain s' where s': "handle h a env (put_mailbox a mb s) = Returns s'" "sys_actors s' = sys_actors (put_mailbox a mb s)"
        "sys_registry s' = sys_registry s" "loop_frame a s' = loop_frame a (put_mailbox a mb s)"
      using handle_closed [OF assms(3) c, of env a] by auto
    have "run_iter h a s = Returns [s']"
      using pop Some s'(1) by (simp add: run_iter_def put_mailbox_def Let_def)
    moreover have "closing a s'"
      using sys_ok_put_mailbox [OF ok(1) mb(1), of a] ok(2) mb(2) s' by (simp add: closing_def sys_ok_def)
    moreover have "work_left a s' < work_left a s"
      using mb(3,4) Some ok(2) assms(2) lanes_pop_length(1)
        [of "fst (lanes (mailbox_of a s))" "snd (lanes (mailbox_of a s))" "fst (lanes mb)" "snd (lanes mb)" env]
      by (simp add: work_left_def s'(2))
    moreover have "loop_frame a (put_mailbox a mb s) = loop_frame a s"
      using ok(2) by (auto simp: loop_frame_def badge_def put_mailbox_def set_actor_def fun_eq_iff Let_def)
    ultimately show ?thesis using s'(4) by simp
  qed
qed

inductive rounds :: "nat \<Rightarrow> nat \<Rightarrow> 'u system \<Rightarrow> 'u system \<Rightarrow> bool" for a where
  no_round: "rounds a 0 s s"
| one_round: "rounds a n s s1 \<Longrightarrow> \<not> ba_done (sys_actors s1 ! a) \<Longrightarrow> h = quiet \<or> h = panicking \<Longrightarrow>
    run_iter h a s1 = Returns ss \<Longrightarrow> s' \<in> set ss \<Longrightarrow> rounds a (Suc n) s s'"

lemma rounds_closing:
  assumes "rounds a n s s'" and "closing a s"
  shows "closing a s' \<and> n + work_left a s' \<le> work_left a s \<and> loop_frame a s' = loop_frame a s"
  using assms
proof (induction rule: rounds.induct)
  case (one_round n s s1 h ss s')
  then obtain ss' where "run_iter h a s1 = Returns ss'" and r: "\<forall>s' \<in> set ss'. closing a s' \<and> work_left a s' < work_left a s1 \<and>
    loop_frame a s' = loop_frame a s1"
    using round_closing [of a s1 h] by blast
  then have "closing a s' \<and> work_left a s' < work_left a s1 \<and>
    loop_frame a s' = loop_frame a s1"
    using one_round(4,5) by simp
  then show ?case using one_round by auto
qed simp

text \<open>The loop can end, whatever has happened so far.\<close>

lemma rounds_to_end:
  assumes "closing a s"
  shows "\<exists>n s'. rounds a n s s' \<and> ba_done (sys_actors s' ! a)"
proof -
  have "\<exists>n s'. rounds a n s s' \<and> ba_done (sys_actors s' ! a)" if "rounds a m s s1" "closing a s1" for m s1
    using that
  proof (induction "work_left a s1" arbitrary: m s1 rule: less_induct)
    case less
    show ?case
    proof (cases "ba_done (sys_actors s1 ! a)")
      case True
      then show ?thesis using less.prems(1) by blast
    next
      case False
      obtain ss where ss: "run_iter quiet a s1 = Returns ss" "ss \<noteq> []" "\<forall>s' \<in> set ss. closing a s' \<and> work_left a s' < work_left a s1"
        using round_closing [OF less.prems(2) False, of quiet] by blast
      then have "hd ss \<in> set ss" by simp
      then show ?thesis
        using less.hyps [of "hd ss"] ss(3) one_round [OF less.prems(1) False _ ss(1)] by blast
    qed
  qed
  from this [OF no_round assms] show ?thesis .
qed

lemma stop_begin_closing:
  assumes "sys_ok s" and "a < length (sys_actors s)" and "\<not> ba_stopped (sys_actors s ! a)"
  shows "closing a (stop_begin a s)" and "sys_registry (stop_begin a s) = sys_registry s"
    and "sys_actors (stop_begin a s) ! a = (sys_actors s ! a)\<lparr>ba_stopped := True, ba_state := state_stopping,
      ba_mb := mb_close (mailbox_of a s)\<rparr>"
proof -
  let ?x = "(sys_actors s ! a)\<lparr>ba_stopped := True, ba_state := state_stopping, ba_mb := mb_close (mailbox_of a s)\<rparr>"
  have e: "stop_begin a s = set_actor a ?x s"
    using assms(2,3) by (simp add: stop_begin_def close_mailbox_def set_actor_def Let_def)
  show "sys_registry (stop_begin a s) = sys_registry s" "sys_actors (stop_begin a s) ! a = ?x"
    using assms(2) by (simp_all add: e set_actor_def)
  show "closing a (stop_begin a s)"
    using assms(1,2) mb_inv_close [OF sys_ok_mailbox [OF assms(1,2)]]
    by (auto simp: closing_def e sys_ok_def set_actor_def all_set_conv_all_nth nth_list_update)
qed

subsection \<open>A panic\<close>

lemma panic_round:
  assumes "sys_ok s" and "a < length (sys_actors s)" and "ba_receive (sys_actors s ! a)"
    and "lanes_pop (lanes (mailbox_of a s)) = (l, Some env)" and "ekind (meta env) = kind_user"
  shows "\<exists>s'. run_iter panicking a s = Returns [s'] \<and> sys_ok s' \<and>
    sys_failed s' = sys_failed s @ replicate (sys_subscribers s) (ba_id (sys_actors s ! a)) \<and>
    lanes (mailbox_of a s') = l \<and> sys_stops s' = sys_stops s @ [a] \<and>
    (\<forall>m me pri persist. ba_tell a m me pri persist s' = Returns (s', Some ErrMailboxClosed)) \<and>
    (\<forall>b. b \<noteq> a \<longrightarrow> sys_actors s' ! b = sys_actors s ! b) \<and> loop_frame a s' = loop_frame a s"
proof -
  obtain mb where i: "run_iter panicking a s = and_then (handle panicking a env (put_mailbox a mb s)) (\<lambda>s'. Returns [s'])"
    and mb: "mb_inv mb" "lanes mb = l"
    using run_iter_pop [OF assms(1,2,4)] by metis
  let ?s1 = "(put_mailbox a mb s)\<lparr>sys_metrics := map_option inc_in (sys_metrics s)\<rparr>"
  let ?s2 = "notify_failure (ba_id (sys_actors s ! a)) ?s1"
  let ?s' = "(put_mailbox a (mb_close mb) ?s2)\<lparr>sys_stops := sys_stops s @ [a]\<rparr>"
  have "sys_ok ?s2"
    using sys_ok_put_mailbox [OF assms(1) mb(1), of a] by (simp add: sys_ok_def notify_failure_def)
  then have "sys_ok (put_mailbox a (mb_close mb) ?s2)"
    using sys_ok_put_mailbox mb_inv_close [OF mb(1)] by blast
  then have ok: "sys_ok ?s'" by (simp add: sys_ok_def)
  have "handle panicking a env (put_mailbox a mb s) = Returns ?s'"
    using assms(2,3,5)
    by (simp add: handle_def kinds recovered_def panicking_def close_mailbox_put notify_failure_def Let_def
        put_mailbox_def set_actor_def)
  moreover have m: "mailbox_of a ?s' = mb_close mb"
    using assms(2) by (simp add: notify_failure_def put_mailbox_def set_actor_def)
  moreover have "ba_tell a m me pri persist ?s' = Returns (?s', Some ErrMailboxClosed)" for m me pri persist
    by (rule ba_tell_closed) (unfold m, simp)
  moreover have "sys_failed ?s' = sys_failed s @ replicate (sys_subscribers s) (ba_id (sys_actors s ! a))"
    by (simp add: notify_failure_def put_mailbox_def set_actor_def)
  moreover have "b \<noteq> a \<Longrightarrow> sys_actors ?s' ! b = sys_actors s ! b" for b
    by (simp add: notify_failure_def put_mailbox_def set_actor_def)
  moreover have "loop_frame a ?s' = loop_frame a s"
    using assms(2) by (auto simp: loop_frame_def badge_def notify_failure_def put_mailbox_def set_actor_def fun_eq_iff Let_def)
  ultimately show ?thesis
    using ok mb(2) by (intro exI [of _ ?s']) (simp add: i)
qed

subsection \<open>Properties\<close>



text \<open>C11. A panic is contained. When the handler panics on a message, the loop goes on: the
  failure is reported to every subscriber with the id of the actor, the mailbox is closed but
  keeps what is queued behind the message, a goroutine is set to call \<open>Stop\<close>, every later send to
  the actor is answered with "mailbox closed" and changes nothing, and no other actor is
  touched.\<close>

theorem panic_contained:
  assumes "sys_ok s" and "a < length (sys_actors s)" and "ba_receive (sys_actors s ! a)"
    and "lanes_pop (lanes (mailbox_of a s)) = (l, Some env)" and "ekind (meta env) = kind_user"
  shows "\<exists>s'. run_iter panicking a s = Returns [s'] \<and> sys_ok s' \<and>
    sys_failed s' = sys_failed s @ replicate (sys_subscribers s) (ba_id (sys_actors s ! a)) \<and>
    lanes (mailbox_of a s') = l \<and> sys_stops s' = sys_stops s @ [a] \<and>
    (\<forall>m me pri persist. ba_tell a m me pri persist s' = Returns (s', Some ErrMailboxClosed)) \<and>
    (\<forall>b. b \<noteq> a \<longrightarrow> sys_actors s' ! b = sys_actors s ! b)"
  using panic_round [OF assms] by blast

theorem panic_contained_witness:
  "\<exists>s s'. ba_tell 0 (User 7) \<lparr>ekind = kind_user, from_id = [], corr_id = [], reply_to = []\<rparr> 0 False small_system =
       Returns (s, None) \<and>
     run_iter panicking 0 s = Returns [s'] \<and> sys_stops s' = [0] \<and> sys_actors s' ! 1 = small_actor ''b'' \<and>
     ba_tell 0 (User 8) \<lparr>ekind = kind_user, from_id = [], corr_id = [], reply_to = []\<rparr> 0 False s' =
       Returns (s', Some ErrMailboxClosed)"
proof -
  let ?me = "\<lparr>ekind = kind_user, from_id = [], corr_id = [], reply_to = []\<rparr>"
  have z: "0 < length (sys_actors small_system)"
    "accepts \<lparr>prio = 0, payload = User 7, meta = ?me, persist_flag = False\<rparr> (mailbox_of 0 small_system)"
    by (simp_all add: small_system_simps small_mailbox_accepts)
  obtain mb st where t: "ba_tell 0 (User 7) ?me 0 False small_system =
      Returns ((put_mailbox 0 mb small_system)\<lparr>sys_store := st\<rparr>, None)" "mb_inv mb"
    "lanes mb = ([], [\<lparr>prio = 0, payload = User 7, meta = ?me, persist_flag = False\<rparr>])"
    by (rule ba_tell_accepts [OF small_system_ok z]) (simp add: small_system_simps small_mailbox_lanes)
  let ?s = "(put_mailbox 0 mb small_system)\<lparr>sys_store := st\<rparr>"
  have ok: "sys_ok ?s"
    using sys_ok_put_mailbox [OF small_system_ok t(2), of 0] by simp
  have s: "0 < length (sys_actors ?s)" "ba_receive (sys_actors ?s ! 0)"
      "sys_actors ?s ! 1 = small_actor ''b''" "mailbox_of 0 ?s = mb"
    by (simp_all add: small_system_simps put_mailbox_def set_actor_def)
  have "sys_stops ?s = []"
    by (simp add: put_mailbox_def set_actor_def small_system_def new_system_def)
  then show ?thesis
    using panic_contained [OF ok s(1,2), of "([], [])" "\<lparr>prio = 0, payload = User 7, meta = ?me, persist_flag = False\<rparr>"]
      s(3,4) t(1,3) by auto
qed

end
