(* ===== verification/Supervisor.thy ===== *)
theory Supervisor
  imports Prelude Transition
begin

text \<open>
  \<open>actor/supervisor.go\<close>: restart strategies, backoff, and the restart of a child, which is a
  goroutine of its own. An actor instance is a number, given out in the order of creation,
  which stands for its id: a factory that sets no id gets a new one from \<open>NewActorID\<close>;
  \<open>running\<close> holds the instances that were started and neither stopped nor failed. A factory
  is represented by the name that it gives to its actors. A restart is cut where the code
  releases the lock: the bookkeeping before the sleep, the sleep with the stop of the old
  instance, the creation and start of the new one, the bookkeeping after it, the count.
\<close>

subsection \<open>Backoff\<close>

function backoff_loop :: "int \<Rightarrow> int \<Rightarrow> int \<Rightarrow> int \<Rightarrow> int" where
  "backoff_loop mx retry i d =
     (if i < retry then
        let d' = wrap64 (d * 2) in if mx \<le> d' then mx else backoff_loop mx retry (i + 1) d'
      else d)"
  by auto
termination
  by (relation "measure (\<lambda>(mx, retry, i, d). nat (retry - i))") auto

declare backoff_loop.simps [simp del]

definition exponential_backoff :: "int \<Rightarrow> int \<Rightarrow> int \<Rightarrow> int" where
  "exponential_backoff base mx =
     (let b = (if base \<le> 0 then 50000000 else base); m = (if mx \<le> 0 then 5000000000 else mx)
      in (\<lambda>retry. backoff_loop m retry 0 b))"

subsection \<open>State and operations\<close>

definition one_for_one :: u8 where "one_for_one = 0"
definition one_for_all :: u8 where "one_for_all = 1"
definition rest_for_one :: u8 where "rest_for_one = 2"

lemmas strategies = one_for_one_def one_for_all_def rest_for_one_def

record child_entry =
  ce_factory :: string    \<comment> \<open>the name the factory gives to its actors\<close>
  ce_name :: string
  ce_actor :: "nat option"
  ce_retries :: int

record supervisor =
  sup_strategy :: u8
  sup_max :: int
  sup_backoff :: "int \<Rightarrow> int"
  children :: "child_entry list"
  sup_restarts :: u64
  sup_metric :: "u64 option"
  instances :: "string list"
  running :: "nat set"

definition new_supervisor :: "u8 \<Rightarrow> int \<Rightarrow> (int \<Rightarrow> int) option \<Rightarrow> u64 option \<Rightarrow> supervisor" where
  "new_supervisor strategy max_retries backoff metric =
     \<lparr>sup_strategy = strategy, sup_max = (if max_retries = 0 then 10 else max_retries),
      sup_backoff = (case backoff of Some b \<Rightarrow> b | None \<Rightarrow> exponential_backoff 50000000 5000000000),
      children = [], sup_restarts = 0, sup_metric = metric, instances = [], running = {}\<rparr>"

text \<open>The factory call with the default name, and \<open>Start\<close>.\<close>

definition create :: "string \<Rightarrow> string \<Rightarrow> supervisor \<Rightarrow> supervisor \<times> nat" where
  "create fname name s =
     (s\<lparr>instances := instances s @ [if fname = [] then name else fname]\<rparr>, length (instances s))"

definition start_instance :: "nat \<Rightarrow> supervisor \<Rightarrow> supervisor" where
  "start_instance a s = s\<lparr>running := insert a (running s)\<rparr>"

definition spawn :: "string \<Rightarrow> string \<Rightarrow> supervisor \<Rightarrow> supervisor \<times> nat" where
  "spawn name fname s =
     (case create fname name s of (s1, a) \<Rightarrow>
        (start_instance a (s1\<lparr>children := children s1 @
           [\<lparr>ce_factory = fname, ce_name = name, ce_actor = Some a, ce_retries = 0\<rparr>]\<rparr>), a))"

definition restart_count :: "supervisor \<Rightarrow> u64" where
  "restart_count s = sup_restarts s"

fun index_of :: "nat \<Rightarrow> child_entry list \<Rightarrow> nat option" where
  "index_of a [] = None"
| "index_of a (e # es) = (if ce_actor e = Some a then Some 0 else map_option Suc (index_of a es))"

text \<open>\<open>onFailure\<close>: the indices whose restart goroutines it starts.\<close>

definition on_failure :: "nat \<Rightarrow> supervisor \<Rightarrow> nat list" where
  "on_failure a s =
     (case index_of a (children s) of
        None \<Rightarrow> []
      | Some idx \<Rightarrow>
          if sup_strategy s = one_for_all then [0..<length (children s)]
          else if sup_strategy s = rest_for_one then [idx..<length (children s)]
          else [idx])"

text \<open>The program counter of \<open>restartChild(i)\<close>; \<open>entry\<close> is its local copy.\<close>

datatype rtask =
    RBegin nat
  | RSleep nat child_entry int
  | RSpawn nat child_entry
  | RFinish nat child_entry nat
  | RCount
  | RDone

fun restart_advance :: "rtask \<Rightarrow> supervisor \<Rightarrow> supervisor \<times> rtask" where
  "restart_advance (RBegin i) s =
     (if length (children s) \<le> i then (s, RDone)
      else let e = children s ! i; e' = e\<lparr>ce_retries := wrap64 (ce_retries e + 1)\<rparr> in
        if sup_max s < ce_retries e' then (s, RDone)
        else (s\<lparr>children := (children s)[i := e']\<rparr>, RSleep i e' (sup_backoff s (ce_retries e' - 1))))"
| "restart_advance (RSleep i e delay) s =
     (case ce_actor e of
        Some a \<Rightarrow> (s\<lparr>running := running s - {a}\<rparr>, RSpawn i e)
      | None \<Rightarrow> (s, RSpawn i e))"
| "restart_advance (RSpawn i e) s =
     (case create (ce_factory e) (ce_name e) s of (s1, a) \<Rightarrow> (start_instance a s1, RFinish i e a))"
| "restart_advance (RFinish i e a) s =
     (s\<lparr>children := (children s)[i := e\<lparr>ce_actor := Some a\<rparr>]\<rparr>, RCount)"
| "restart_advance RCount s =
     (s\<lparr>sup_restarts := sup_restarts s + 1, sup_metric := map_option (\<lambda>n. n + 1) (sup_metric s)\<rparr>, RDone)"
| "restart_advance RDone s = (s, RDone)"

text \<open>A restart that nobody interferes with.\<close>

definition restart_child :: "nat \<Rightarrow> supervisor \<Rightarrow> supervisor" where
  "restart_child i s =
     (let (s1, p1) = restart_advance (RBegin i) s; (s2, p2) = restart_advance p1 s1;
          (s3, p3) = restart_advance p2 s2; (s4, p4) = restart_advance p3 s3;
          (s5, p5) = restart_advance p4 s4 in s5)"

text \<open>A child panics: its instance stops, and the failure is handled.\<close>

definition fail_and_restart :: "nat \<Rightarrow> supervisor \<Rightarrow> supervisor" where
  "fail_and_restart a s =
     fold restart_child (on_failure a s) (s\<lparr>running := running s - {a}\<rparr>)"

subsection \<open>Backoff is doubling up to the cap\<close>

lemma backoff_loop_exact:
  assumes "0 < d" and "d < 2 ^ 62" and "mx \<le> 2 ^ 62"
  shows "backoff_loop mx (int n + i) i d = (if n = 0 then d else min mx (d * 2 ^ n))"
  using assms(1,2)
proof (induction n arbitrary: i d)
  case 0
  then show ?case by (simp add: backoff_loop.simps)
next
  case (Suc n)
  have w: "wrap64 (d * 2) = d * 2"
    using Suc.prems by (intro wrap64_id) (simp add: in_i64_def min_i64_def max_i64_def)
  have "d * 2 * 1 \<le> d * 2 * 2 ^ n"
    using Suc.prems by (intro mult_left_mono) simp_all
  then have grow: "d * 2 \<le> d * 2 ^ Suc n" by simp
  show ?case
  proof (cases "mx \<le> d * 2")
    case True
    then show ?thesis
      using grow w by (subst backoff_loop.simps) (simp del: power_Suc)
  next
    case False
    then have "d * 2 < 2 ^ 62" using assms(3) by simp
    then have "backoff_loop mx (int n + (i + 1)) (i + 1) (d * 2) = (if n = 0 then d * 2 else min mx (d * 2 * 2 ^ n))"
      using Suc.prems(1) by (intro Suc.IH) simp_all
    then show ?thesis
      using False w by (subst backoff_loop.simps) (simp add: Let_def algebra_simps)
  qed
qed

subsection \<open>Restarts one at a time\<close>

text \<open>Every running instance belongs to a child, no two children share one, and nobody has
  been retried too often.\<close>

definition sup_ok :: "supervisor \<Rightarrow> bool" where
  "sup_ok s \<longleftrightarrow> distinct (map ce_actor (children s)) \<and>
     (\<forall>e \<in> set (children s). \<exists>a < length (instances s). ce_actor e = Some a) \<and>
     running s \<subseteq> {a. Some a \<in> ce_actor ` set (children s)} \<and>
     (\<forall>e \<in> set (children s). 0 \<le> ce_retries e \<and> ce_retries e \<le> sup_max s) \<and> 0 \<le> sup_max s \<and> sup_max s < 2 ^ 31"

lemma index_of_Some: "index_of a es = Some i \<Longrightarrow> i < length es \<and> ce_actor (es ! i) = Some a"
  by (induction es arbitrary: i) (auto split: if_splits)

lemma index_of_None: "index_of a es = None \<longleftrightarrow> Some a \<notin> ce_actor ` set es"
  by (induction es) auto

lemma restart_child_eq:
  assumes "i < length (children s)" and "ce_actor (children s ! i) = Some a"
  shows "restart_child i s =
    (let e = children s ! i; k = wrap64 (ce_retries e + 1); n = length (instances s) in
     if sup_max s < k then s
     else s\<lparr>children := (children s)[i := e\<lparr>ce_retries := k, ce_actor := Some n\<rparr>],
       instances := instances s @ [if ce_factory e = [] then ce_name e else ce_factory e],
       running := insert n (running s - {a}), sup_restarts := sup_restarts s + 1,
       sup_metric := map_option (\<lambda>n. n + 1) (sup_metric s)\<rparr>)"
  using assms by (auto simp: restart_child_def create_def start_instance_def Let_def)

text \<open>The child at position \<open>i\<close> gets the new instance \<open>n\<close>, and the old one is stopped.\<close>

lemma sup_ok_replace:
  assumes ok: "sup_ok s" and i: "i < length (children s)" and a: "ce_actor (children s ! i) = Some a"
    and r: "0 \<le> r" "r \<le> sup_max s" and n: "n = length (instances s)"
    and cs: "cs = (children s)[i := (children s ! i)\<lparr>ce_retries := r, ce_actor := Some n\<rparr>]"
    and s': "children s' = cs" "sup_max s' = sup_max s" "length (instances s') = Suc n" "running s' = insert n (running s - {a})"
  shows "sup_ok s'"
proof -
  let ?e' = "(children s ! i)\<lparr>ce_retries := r, ce_actor := Some n\<rparr>"
  have "Some n \<notin> set (map ce_actor (children s))" using ok n by (auto simp: sup_ok_def)
  moreover have "map ce_actor cs = (map ce_actor (children s))[i := Some n]" by (simp add: cs map_update)
  ultimately have "distinct (map ce_actor cs)"
    using ok i by (simp add: distinct_list_update sup_ok_def)
  moreover have "(\<exists>a < Suc n. ce_actor e = Some a) \<and> 0 \<le> ce_retries e \<and> ce_retries e \<le> sup_max s" if e: "e \<in> set cs" for e
  proof -
    have "e = ?e' \<or> e \<in> set (children s)"
      using e set_update_subset_insert [of "children s" i ?e'] unfolding cs by blast
    moreover have "\<exists>a < Suc n. ce_actor e = Some a" if "e \<in> set (children s)"
      using ok that n unfolding sup_ok_def by (meson less_SucI)
    ultimately show ?thesis using ok r unfolding sup_ok_def by auto
  qed
  moreover have "Some b \<in> ce_actor ` set cs" if b: "b \<in> running s" "b \<noteq> a" for b
  proof -
    have "Some b \<in> set (map ce_actor (children s))" using ok b(1) unfolding sup_ok_def by auto
    then obtain j where j: "j < length (children s)" "ce_actor (children s ! j) = Some b" by (auto simp: in_set_conv_nth)
    then have "cs ! j = children s ! j" using a b(2) unfolding cs by (intro nth_list_update_neq) auto
    then show ?thesis using j unfolding cs by (metis image_eqI length_list_update nth_mem)
  qed
  moreover have "Some n \<in> ce_actor ` set cs"
    using i unfolding cs by (intro image_eqI [where x = ?e'] set_update_memI) simp_all
  moreover have "0 \<le> sup_max s" "sup_max s < 2 ^ 31" using ok by (simp_all add: sup_ok_def)
  ultimately show ?thesis unfolding sup_ok_def s' by auto
qed

lemma restart_child_ok:
  assumes ok: "sup_ok s" and i: "i < length (children s)"
  shows "sup_ok (restart_child i s)" and "length (children (restart_child i s)) = length (children s)"
    and "\<And>j. j \<noteq> i \<Longrightarrow> children (restart_child i s) ! j = children s ! j"
    and "sup_max (restart_child i s) = sup_max s"
proof -
  obtain a where a: "ce_actor (children s ! i) = Some a"
    using ok i by (auto simp: sup_ok_def dest!: bspec [OF _ nth_mem])
  let ?e = "children s ! i"
  have r: "0 \<le> ce_retries ?e" "ce_retries ?e \<le> sup_max s" "sup_max s < 2 ^ 31"
    using ok nth_mem [OF i] by (auto simp: sup_ok_def)
  then have w: "wrap64 (ce_retries ?e + 1) = ce_retries ?e + 1"
    by (intro wrap64_id) (simp add: in_i64_def min_i64_def max_i64_def)
  note eq = restart_child_eq [OF i a, unfolded Let_def w]
  show "length (children (restart_child i s)) = length (children s)"
    and "\<And>j. j \<noteq> i \<Longrightarrow> children (restart_child i s) ! j = children s ! j"
    and "sup_max (restart_child i s) = sup_max s"
    by (simp_all add: eq)
  show "sup_ok (restart_child i s)"
  proof (cases "sup_max s < ce_retries ?e + 1")
    case True
    then show ?thesis using ok by (simp add: eq)
  next
    case False
    then show ?thesis
      using r by (intro sup_ok_replace [OF ok i a, of "ce_retries ?e + 1", OF _ _ refl refl]) (simp_all add: eq)
  qed
qed

text \<open>What one undisturbed restart changes.\<close>

lemma restart_child_effect:
  assumes ok: "sup_ok s" and i: "i < length (children s)" and s': "s' = restart_child i s"
  shows "if ce_retries (children s ! i) < sup_max s
    then ce_retries (children s' ! i) = ce_retries (children s ! i) + 1 \<and>
      ce_actor (children s' ! i) = Some (length (instances s)) \<and> length (instances s) \<in> running s' \<and>
      length (instances s') = Suc (length (instances s))
    else s' = s"
    and "j \<noteq> i \<Longrightarrow> j < length (children s) \<Longrightarrow> ce_actor (children s ! j) = Some n \<Longrightarrow> n \<in> running s \<Longrightarrow> n \<in> running s'"
proof -
  obtain a where a: "ce_actor (children s ! i) = Some a"
    using ok i by (auto simp: sup_ok_def dest!: bspec [OF _ nth_mem])
  let ?e = "children s ! i"
  have r: "0 \<le> ce_retries ?e" "ce_retries ?e \<le> sup_max s" "sup_max s < 2 ^ 31"
    using ok nth_mem [OF i] by (auto simp: sup_ok_def)
  then have w: "wrap64 (ce_retries ?e + 1) = ce_retries ?e + 1"
    by (intro wrap64_id) (simp add: in_i64_def min_i64_def max_i64_def)
  note eq = restart_child_eq [OF i a, unfolded Let_def w, folded s']
  show "if ce_retries ?e < sup_max s
    then ce_retries (children s' ! i) = ce_retries ?e + 1 \<and>
      ce_actor (children s' ! i) = Some (length (instances s)) \<and> length (instances s) \<in> running s' \<and>
      length (instances s') = Suc (length (instances s))
    else s' = s"
    using i by (simp add: eq)
  assume j: "j \<noteq> i" "j < length (children s)" "ce_actor (children s ! j) = Some n" "n \<in> running s"
  have "n \<noteq> a"
    using ok i j a nth_eq_iff_index_eq [of "map ce_actor (children s)" i j] by (auto simp: sup_ok_def)
  then show "n \<in> running s'" using j(4) by (simp add: eq)
qed

definition restarted :: "supervisor \<Rightarrow> supervisor \<Rightarrow> nat \<Rightarrow> bool" where
  "restarted s s' j \<longleftrightarrow> ce_retries (children s' ! j) = ce_retries (children s ! j) + 1 \<and>
     (\<exists>n \<ge> length (instances s). ce_actor (children s' ! j) = Some n \<and> n \<in> running s')"

lemma restart_all:
  assumes "sup_ok s" and "distinct is" and "\<forall>i \<in> set is. i < length (children s)" and "s' = fold restart_child is s"
  shows "sup_ok s' \<and> length (children s') = length (children s) \<and> sup_max s' = sup_max s \<and>
    (\<forall>j < length (children s). if j \<in> set is \<and> ce_retries (children s ! j) < sup_max s
       then restarted s s' j else children s' ! j = children s ! j) \<and>
    (\<forall>j < length (children s). \<forall>n \<in> running s. j \<notin> set is \<longrightarrow> ce_actor (children s ! j) = Some n \<longrightarrow> n \<in> running s')"
  using assms
proof (induction "is" arbitrary: s)
  case Nil
  then show ?case by simp
next
  case (Cons i is')
  let ?s = "restart_child i s"
  have i: "i < length (children s)" using Cons.prems(3) by simp
  note one = restart_child_ok [OF Cons.prems(1) i] and eff = restart_child_effect [OF Cons.prems(1) i refl]
  have s': "s' = fold restart_child is' ?s" and d: "distinct is'"
    and lt: "\<forall>i \<in> set is'. i < length (children ?s)"
    using Cons.prems one(2) by simp_all
  note raw = Cons.IH [OF one(1) d lt s', unfolded one(2,4)]
  have ih: "sup_ok s'" "length (children s') = length (children s)" "sup_max s' = sup_max s"
    and ent: "\<And>j. j < length (children s) \<Longrightarrow> if j \<in> set is' \<and> ce_retries (children ?s ! j) < sup_max s
       then restarted ?s s' j else children s' ! j = children ?s ! j"
    and runs: "\<And>j n. j < length (children s) \<Longrightarrow> n \<in> running ?s \<Longrightarrow> j \<notin> set is' \<Longrightarrow>
       ce_actor (children ?s ! j) = Some n \<Longrightarrow> n \<in> running s'"
    using raw by blast+
  have grows: "length (instances s) \<le> length (instances ?s)"
    using eff(1) by (auto split: if_splits)
  have "if j \<in> set (i # is') \<and> ce_retries (children s ! j) < sup_max s
       then restarted s s' j else children s' ! j = children s ! j" if j: "j < length (children s)" for j
  proof (cases "j = i")
    case True
    then have ni: "i \<notin> set is'" using Cons.prems(2) by simp
    then have same: "children s' ! i = children ?s ! i" using ent [OF i] by simp
    show ?thesis
    proof (cases "ce_retries (children s ! i) < sup_max s")
      case low: True
      then have "length (instances s) \<in> running s'"
        using runs [OF i _ ni] eff(1) by simp
      then show ?thesis
        using True low same eff(1) by (auto simp: restarted_def)
    next
      case False
      then show ?thesis using True same eff(1) by simp
    qed
  next
    case False
    then have "children ?s ! j = children s ! j" using one(3) by simp
    then show ?thesis
      using ent [OF j] False grows by (auto simp: restarted_def split: if_splits intro: order_trans)
  qed
  moreover have "n \<in> running s'" if "j < length (children s)" "n \<in> running s" "j \<notin> set (i # is')"
    "ce_actor (children s ! j) = Some n" for j n
    using that eff(2) [of j n] one(3) runs by simp
  ultimately show ?case using ih by blast
qed

lemma failed_child:
  assumes "distinct (map ce_actor (children s))"
  shows "(\<exists>idx < length (children s). ce_actor (children s ! idx) = Some a \<and> Q idx) \<longleftrightarrow>
    (case index_of a (children s) of None \<Rightarrow> False | Some idx \<Rightarrow> Q idx)"
proof (cases "index_of a (children s)")
  case None
  have "ce_actor (children s ! idx) \<noteq> Some a" if "idx < length (children s)" for idx
  proof
    assume "ce_actor (children s ! idx) = Some a"
    then have "Some a \<in> ce_actor ` set (children s)"
      by (intro rev_image_eqI [OF nth_mem [OF that]]) simp
    then show False using None by (simp add: index_of_None)
  qed
  then show ?thesis using None by auto
next
  case (Some idx)
  then have idx: "idx < length (children s)" "ce_actor (children s ! idx) = Some a"
    using index_of_Some by auto
  have "idx' = idx" if "idx' < length (children s)" "ce_actor (children s ! idx') = Some a" for idx'
    using nth_eq_iff_index_eq [OF assms, of idx' idx] that idx by simp
  with idx have "(\<exists>idx < length (children s). ce_actor (children s ! idx) = Some a \<and> Q idx) \<longleftrightarrow> Q idx"
    by blast
  then show ?thesis using Some by simp
qed

lemma on_failure_set:
  assumes "distinct (map ce_actor (children s))"
  shows "distinct (on_failure a s)" and "\<forall>i \<in> set (on_failure a s). i < length (children s)"
    and "j < length (children s) \<Longrightarrow> j \<in> set (on_failure a s) \<longleftrightarrow>
      (\<exists>idx < length (children s). ce_actor (children s ! idx) = Some a \<and>
        (if sup_strategy s = one_for_all then True else if sup_strategy s = rest_for_one then idx \<le> j else j = idx))"
proof -
  show "distinct (on_failure a s)"
    by (simp add: on_failure_def split: option.split)
  show "\<forall>i \<in> set (on_failure a s). i < length (children s)"
    using index_of_Some [of a "children s"] by (cases "index_of a (children s)") (simp_all add: on_failure_def)
  show "j \<in> set (on_failure a s) \<longleftrightarrow>
      (\<exists>idx < length (children s). ce_actor (children s ! idx) = Some a \<and>
        (if sup_strategy s = one_for_all then True else if sup_strategy s = rest_for_one then idx \<le> j else j = idx))"
    if "j < length (children s)"
    unfolding failed_child [OF assms] using that
    by (cases "index_of a (children s)") (simp_all add: on_failure_def)
qed

subsection \<open>Restarts that overlap\<close>

text \<open>A panicking actor goes on draining its mailbox until it is stopped, so it can report
  another failure. Each report starts goroutines, whose steps interleave.\<close>

record sup_sys =
  sv :: supervisor
  tasks :: "rtask list"

inductive sup_step :: "sup_sys \<Rightarrow> sup_sys \<Rightarrow> bool" where
  report: "a \<in> running (sv s) \<Longrightarrow> sup_step s (s\<lparr>tasks := tasks s @ map RBegin (on_failure a (sv s))\<rparr>)"
| go: "t < length (tasks s) \<Longrightarrow> restart_advance (tasks s ! t) (sv s) = (s', pc) \<Longrightarrow>
    sup_step s (s\<lparr>sv := s', tasks := (tasks s)[t := pc]\<rparr>)"

datatype sup_event = Report nat | Go nat

fun sup_act :: "sup_sys \<Rightarrow> sup_event \<Rightarrow> sup_sys" where
  "sup_act s (Report a) =
     (if a \<in> running (sv s) then s\<lparr>tasks := tasks s @ map RBegin (on_failure a (sv s))\<rparr> else s)"
| "sup_act s (Go t) =
     (if t < length (tasks s)
      then (case restart_advance (tasks s ! t) (sv s) of (s', pc) \<Rightarrow> s\<lparr>sv := s', tasks := (tasks s)[t := pc]\<rparr>)
      else s)"

lemma sup_act_step: "sup_act s e = s \<or> sup_step s (sup_act s e)"
  by (cases e) (auto intro: sup_step.intros split: prod.split)

subsection \<open>Properties\<close>

text \<open>The backoff doubles from the base up to the cap: retry \<open>n\<close> waits
  \<open>min max (base * 2^n)\<close>, computed without overflow for durations below \<open>2^62\<close> nanoseconds,
  with 50 milliseconds and 5 seconds where an argument is not positive. (The first retry waits
  the base even if that exceeds the cap.)\<close>

theorem backoff_spec:
  assumes "b = (if base \<le> 0 then 50000000 else base)" and "m = (if mx \<le> 0 then 5000000000 else mx)"
    and "b < 2 ^ 62" and "m \<le> 2 ^ 62"
  shows "exponential_backoff base mx (int n) = (if n = 0 then b else min m (b * 2 ^ n))"
proof -
  have "0 < b" using assms(1) by auto
  from backoff_loop_exact [OF this assms(3,4), of n 0] show ?thesis
    by (simp add: exponential_backoff_def Let_def flip: assms(1,2))
qed

theorem backoff_spec_witness:
  "exponential_backoff 0 0 3 = 400000000 \<and> exponential_backoff 0 0 20 = 5000000000"
  using backoff_spec [OF refl refl, of 0 0 3] backoff_spec [OF refl refl, of 0 0 20] by simp


definition family :: supervisor where
  "family = \<lparr>sup_strategy = rest_for_one, sup_max = 3, sup_backoff = (\<lambda>_. 0),
     children = [\<lparr>ce_factory = ''a'', ce_name = ''a'', ce_actor = Some 0, ce_retries = 0\<rparr>,
       \<lparr>ce_factory = ''b'', ce_name = ''b'', ce_actor = Some 1, ce_retries = 3\<rparr>,
       \<lparr>ce_factory = ''c'', ce_name = ''c'', ce_actor = Some 2, ce_retries = 1\<rparr>],
     sup_restarts = 0, sup_metric = None, instances = [''a'', ''b'', ''c''], running = {0, 1, 2}\<rparr>"

lemma family_ok: "sup_ok family"
  by (auto simp: sup_ok_def family_def)

lemma family_failed:
  "(\<exists>idx < length (children family). ce_actor (children family ! idx) = Some 1 \<and> P idx) \<longleftrightarrow> P 1"
  by (auto simp: family_def less_Suc_eq numeral_eq_Suc)


text \<open>Overlapping restarts of one child leave an orphan. A child panics on two messages
  before it is stopped; the two restart goroutines both create and start an instance, and the
  one that writes back first is overwritten. In the end two instances run, the supervisor
  knows one of them, and the child's retry counter says 1 after two restarts.\<close>

theorem supervisor_orphan:
  "\<exists>s. reach ((=) \<lparr>sv = fst (spawn ''x'' ''x'' (new_supervisor one_for_one 3 None None)), tasks = []\<rparr>) sup_step s \<and>
     list_all (\<lambda>t. t = RDone) (tasks s) \<and> running (sv s) = {1, 2} \<and>
     map ce_actor (children (sv s)) = [Some 1] \<and> map ce_retries (children (sv s)) = [1] \<and>
     restart_count (sv s) = 2"
proof -
  let ?start = "\<lparr>sv = fst (spawn ''x'' ''x'' (new_supervisor one_for_one 3 None None)), tasks = []\<rparr>"
  let ?s = "run_schedule sup_act ?start [Report 0, Report 0, Go 0, Go 1, Go 0, Go 1, Go 0, Go 1, Go 1, Go 0, Go 0, Go 1]"
  let ?last = "\<lparr>sv = \<lparr>sup_strategy = 0, sup_max = 3, sup_backoff = exponential_backoff 50000000 5000000000,
      children = [\<lparr>ce_factory = ''x'', ce_name = ''x'', ce_actor = Some 1, ce_retries = 1\<rparr>], sup_restarts = 2,
      sup_metric = None, instances = [''x'', ''x'', ''x''], running = {1, 2}\<rparr>, tasks = [RDone, RDone]\<rparr>"
  have "reach ((=) ?start) sup_step ?s"
    using reach_run_schedule [where f = sup_act and s = ?start] sup_act_step
      reach_start [of "(=) ?start" ?start] by blast
  moreover have "?s = ?last"
    by (simp add: spawn_def create_def start_instance_def new_supervisor_def on_failure_def strategies
        Let_def wrap64_def insert_commute numeral_2_eq_2)
  ultimately have "reach ((=) ?start) sup_step ?last"
    by (simp only:)
  then show ?thesis
    by (intro exI [of _ ?last]) (simp add: restart_count_def)
qed

end
