(* ===== verification/Supervision.thy ===== *)
theory Supervision
  imports Shutdown Supervisor
begin

text \<open>
  The supervisor of \<open>actor/supervisor.go\<close> over the actors of a \<open>System\<close>: what \<open>onFailure\<close> and
  \<open>restartChild\<close> do to real mailboxes, loops, logs and registry entries. A factory is a function
  on the system, as in the code. A restart goroutine is cut where it releases the lock or waits:
  the bookkeeping, the sleep with the beginning of \<open>Stop\<close>, the end of \<open>Stop\<close>, creation and
  \<open>Start\<close> of the new instance, and the two entries at the end.
\<close>

subsection \<open>State and operations\<close>

type_synonym 'u factory = "'u system \<Rightarrow> ('u system \<times> nat) outcome"

record 'u guarded =
  gc_factory :: "'u factory"
  gc_name :: string
  gc_actor :: "nat option"
  gc_retries :: int

record 'u guard =
  gd_strategy :: u8
  gd_max :: int
  gd_backoff :: "int \<Rightarrow> int"
  gd_children :: "'u guarded list"
  gd_restarts :: u64

record 'u nursery =
  nsys :: "'u system"
  nsup :: "'u guard"

definition new_guard :: "u8 \<Rightarrow> int \<Rightarrow> (int \<Rightarrow> int) option \<Rightarrow> 'u system \<Rightarrow> 'u nursery" where
  "new_guard strategy max_retries backoff s =
     \<lparr>nsys = subscribe_failures s,
      nsup = \<lparr>gd_strategy = strategy, gd_max = (if max_retries = 0 then 10 else max_retries),
        gd_backoff = (case backoff of Some b \<Rightarrow> b | None \<Rightarrow> exponential_backoff 50000000 5000000000),
        gd_children = [], gd_restarts = 0\<rparr>\<rparr>"

text \<open>\<open>if a.name == "" { a.name = name }\<close>, for an actor that has not been started.\<close>

definition default_name :: "string \<Rightarrow> nat \<Rightarrow> 'u system \<Rightarrow> 'u system" where
  "default_name name a s =
     (if ba_name (sys_actors s ! a) = [] then set_actor a ((sys_actors s ! a)\<lparr>ba_name := name\<rparr>) s else s)"

definition spawn_child :: "bool \<Rightarrow> string \<Rightarrow> 'u factory \<Rightarrow> 'u nursery \<Rightarrow> ('u nursery \<times> nat) outcome" where
  "spawn_child seek_ok name f w =
     and_then (f (nsys w)) (\<lambda>(s, a).
       let sup = (nsup w)\<lparr>gd_children := gd_children (nsup w) @
             [\<lparr>gc_factory = f, gc_name = name, gc_actor = Some a, gc_retries = 0\<rparr>]\<rparr>
       in and_then (ba_start seek_ok a (default_name name a s)) (\<lambda>s'. Returns (\<lparr>nsys = s', nsup = sup\<rparr>, a)))"

text \<open>The first child whose actor has the id.\<close>

fun child_index :: "'u base_actor list \<Rightarrow> string \<Rightarrow> 'u guarded list \<Rightarrow> nat option" where
  "child_index xs aid [] = None"
| "child_index xs aid (e # es) =
     (if \<exists>a \<in> set_option (gc_actor e). ba_id (xs ! a) = aid then Some 0
      else map_option Suc (child_index xs aid es))"

text \<open>\<open>onFailure\<close>: the indices whose restart goroutines it starts.\<close>

definition guard_on_failure :: "string \<Rightarrow> 'u nursery \<Rightarrow> nat list" where
  "guard_on_failure aid w =
     (let es = gd_children (nsup w) in
      case child_index (sys_actors (nsys w)) aid es of
        None \<Rightarrow> []
      | Some idx \<Rightarrow>
          if gd_strategy (nsup w) = one_for_all then [0..<length es]
          else if gd_strategy (nsup w) = rest_for_one then [idx..<length es]
          else [idx])"

text \<open>The program counter of \<open>restartChild(i)\<close>, with its local copy of the entry.\<close>

datatype 'u gtask =
    GBegin nat
  | GSleep nat "'u guarded" int
  | GStop nat "'u guarded"
  | GSpawn nat "'u guarded"
  | GFinish nat "'u guarded" nat
  | GCount
  | GDone

definition put_child :: "nat \<Rightarrow> 'u guarded \<Rightarrow> 'u nursery \<Rightarrow> 'u nursery" where
  "put_child i e w = w\<lparr>nsup := (nsup w)\<lparr>gd_children := (gd_children (nsup w))[i := e]\<rparr>\<rparr>"

fun guard_advance :: "bool \<Rightarrow> bool \<Rightarrow> 'u gtask \<Rightarrow> 'u nursery \<Rightarrow> ('u nursery \<times> 'u gtask) outcome" where
  "guard_advance seek_ok clean (GBegin i) w =
     (let es = gd_children (nsup w) in
      if length es \<le> i then Returns (w, GDone)
      else let e = es ! i; e' = e\<lparr>gc_retries := wrap64 (gc_retries e + 1)\<rparr> in
        if gd_max (nsup w) < gc_retries e' then Returns (w, GDone)
        else Returns (put_child i e' w, GSleep i e' (gd_backoff (nsup w) (gc_retries e' - 1))))"
| "guard_advance seek_ok clean (GSleep i e delay) w =
     (case gc_actor e of
        Some a \<Rightarrow> Returns (w\<lparr>nsys := stop_begin a (nsys w)\<rparr>, GStop i e)
      | None \<Rightarrow> Returns (w, GSpawn i e))"
| "guard_advance seek_ok clean (GStop i e) w =
     (case gc_actor e of
        Some a \<Rightarrow> and_then (stop_end clean a (nsys w)) (\<lambda>s. Returns (w\<lparr>nsys := s\<rparr>, GSpawn i e))
      | None \<Rightarrow> Returns (w, GSpawn i e))"
| "guard_advance seek_ok clean (GSpawn i e) w =
     and_then (gc_factory e (nsys w)) (\<lambda>(s, a).
       and_then (ba_start seek_ok a (default_name (gc_name e) a s)) (\<lambda>s'. Returns (w\<lparr>nsys := s'\<rparr>, GFinish i e a)))"
| "guard_advance seek_ok clean (GFinish i e a) w = Returns (put_child i (e\<lparr>gc_actor := Some a\<rparr>) w, GCount)"
| "guard_advance seek_ok clean GCount w =
     Returns (w\<lparr>nsys := (nsys w)\<lparr>sys_metrics := map_option inc_restart (sys_metrics (nsys w))\<rparr>,
       nsup := (nsup w)\<lparr>gd_restarts := gd_restarts (nsup w) + 1\<rparr>\<rparr>, GDone)"
| "guard_advance seek_ok clean GDone w = Returns (w, GDone)"

text \<open>Several steps of one goroutine that nobody interferes with.\<close>

fun guard_run :: "bool \<Rightarrow> bool \<Rightarrow> nat \<Rightarrow> 'u gtask \<Rightarrow> 'u nursery \<Rightarrow> ('u nursery \<times> 'u gtask) outcome" where
  "guard_run seek_ok clean 0 g w = Returns (w, g)"
| "guard_run seek_ok clean (Suc n) g w =
     and_then (guard_advance seek_ok clean g w) (\<lambda>(w', g'). guard_run seek_ok clean n g' w')"

subsection \<open>Refinement of the supervisor with numbered instances\<close>

text \<open>An actor is one of the numbered instances of \<open>Supervisor\<close>; it is running from \<open>Start\<close> until
  \<open>Stop\<close> is called. A factory stands for the name it gives.\<close>

definition child_of :: "('u factory \<Rightarrow> string) \<Rightarrow> 'u guarded \<Rightarrow> child_entry" where
  "child_of label e = \<lparr>ce_factory = label (gc_factory e), ce_name = gc_name e, ce_actor = gc_actor e, ce_retries = gc_retries e\<rparr>"

definition live_actors :: "'u base_actor list \<Rightarrow> nat set" where
  "live_actors xs = {a. a < length xs \<and> ba_started (xs ! a) \<and> \<not> ba_stopped (xs ! a)}"

definition supervisor_of :: "('u factory \<Rightarrow> string) \<Rightarrow> 'u nursery \<Rightarrow> supervisor" where
  "supervisor_of label w = \<lparr>sup_strategy = gd_strategy (nsup w), sup_max = gd_max (nsup w), sup_backoff = gd_backoff (nsup w),
     children = map (child_of label) (gd_children (nsup w)), sup_restarts = gd_restarts (nsup w),
     sup_metric = map_option restart_total (sys_metrics (nsys w)),
     instances = map ba_name (sys_actors (nsys w)), running = live_actors (sys_actors (nsys w))\<rparr>"

fun task_of :: "('u factory \<Rightarrow> string) \<Rightarrow> 'u gtask \<Rightarrow> rtask" where
  "task_of label (GBegin i) = RBegin i"
| "task_of label (GSleep i e d) = RSleep i (child_of label e) d"
| "task_of label (GStop i e) = RSpawn i (child_of label e)"
| "task_of label (GSpawn i e) = RSpawn i (child_of label e)"
| "task_of label (GFinish i e a) = RFinish i (child_of label e) a"
| "task_of label GCount = RCount"
| "task_of label GDone = RDone"

text \<open>What a factory promises: a new actor with its name, not started, and otherwise nothing that
  the supervisor can see.\<close>

definition makes :: "'u factory \<Rightarrow> string \<Rightarrow> bool" where
  "makes f name \<longleftrightarrow> (\<forall>s s' a. f s = Returns (s', a) \<longrightarrow> a = length (sys_actors s) \<and> sys_metrics s' = sys_metrics s \<and>
     (\<exists>x. sys_actors s' = sys_actors s @ [x] \<and> ba_name x = name \<and> \<not> ba_started x \<and> \<not> ba_stopped x))"

lemma new_base_actor_makes: "makes (new_base_actor fails allowed now opts) (bo_name opts)"
  by (auto simp: makes_def new_base_actor_def Let_def split: if_splits prod.splits sum.splits option.splits)

text \<open>What \<open>Start\<close> changes that the supervisor can see.\<close>

lemma replay_records_core: "replay_records a bs s = Returns s' \<Longrightarrow> core s' = core s \<and> sys_metrics s' = sys_metrics s"
proof (induction bs arbitrary: s)
  case (Cons b bs)
  show ?case
  proof (cases "sys_unmarshal s b")
    case (Inr m)
    then obtain s1 err where s1: "ba_tell a m \<lparr>ekind = kind_user, from_id = [], corr_id = [], reply_to = []\<rparr> priority_normal False s =
        Returns (s1, err)" "replay_records a bs s1 = Returns s'"
      using Cons.prems by (auto simp: and_then_Returns)
    have "core s1 = core s"
      using hand_over_core [of "Local a" _ _ m False s s1 err] s1(1) by simp
    moreover have "sys_metrics s1 = sys_metrics s"
      using s1(1) by (auto simp: ba_tell_def set_actor_def Let_def and_then_Returns split: option.splits prod.splits)
    ultimately show ?thesis using Cons.IH [OF s1(2)] by simp
  qed (use Cons in simp)
qed simp

lemma start_replay_core: "start_replay seek_ok a s = Returns s' \<Longrightarrow> core s' = core s \<and> sys_metrics s' = sys_metrics s"
  by (auto simp: start_replay_def read_log_def core_def dest: replay_records_core split: if_splits prod.splits sum.splits)

lemma face_seen:
  assumes "map face xs = map face ys"
  shows "map ba_name xs = map ba_name ys" and "live_actors xs = live_actors ys"
proof -
  have l: "length xs = length ys" using assms by (rule map_eq_imp_length_eq)
  have f: "face (xs ! a) = face (ys ! a)" if "a < length xs" for a
    using that assms l by (metis nth_map)
  show "map ba_name xs = map ba_name ys"
    using l f by (auto simp: face_def intro: nth_equalityI)
  show "live_actors xs = live_actors ys"
    using l f by (auto simp: live_actors_def face_def)
qed

lemma live_actors_update:
  "a < length xs \<Longrightarrow> live_actors (xs[a := x]) =
     (if ba_started x \<and> \<not> ba_stopped x then insert a (live_actors xs) else live_actors xs - {a})"
  by (auto simp: live_actors_def nth_list_update)

lemma ba_start_seen:
  assumes "ba_start seek_ok a s = Returns s'" and "a < length (sys_actors s)" and "\<not> ba_started (sys_actors s ! a)"
    and "\<not> ba_stopped (sys_actors s ! a)"
  shows "map ba_name (sys_actors s') = map ba_name (sys_actors s)" and "sys_metrics s' = sys_metrics s"
    and "live_actors (sys_actors s') = insert a (live_actors (sys_actors s))"
proof -
  let ?s = "set_actor a ((sys_actors s ! a)\<lparr>ba_started := True\<rparr>) s"
  obtain s1 where s1: "start_replay seek_ok a ?s = Returns s1"
    and s': "sys_actors s' = (sys_actors s1)[a := (sys_actors s1 ! a)\<lparr>ba_state := state_running\<rparr>]"
      "sys_metrics s' = sys_metrics s1"
    using assms(1,3) by (auto simp: ba_start_def and_then_Returns set_actor_def Let_def)
  have c: "core s1 = core ?s" "sys_metrics s1 = sys_metrics ?s"
    using start_replay_core [OF s1] by simp_all
  then have f: "map face (sys_actors s1) = map face (sys_actors ?s)" by (simp add: core_def)
  have a: "a < length (sys_actors s1)" "ba_started (sys_actors s1 ! a)" "\<not> ba_stopped (sys_actors s1 ! a)"
    using core_face [OF c(1), of a] assms(2,4) by (simp_all add: face_def set_actor_def)
  note seen = face_seen [OF f]
  have n: "map ba_name (sys_actors ?s) = map ba_name (sys_actors s)"
    using assms(2) by (simp add: set_actor_def map_update) (metis list_update_id nth_map length_map)
  show "map ba_name (sys_actors s') = map ba_name (sys_actors s)"
    using a(1) seen(1) n by (simp add: s' map_update) (metis list_update_id nth_map length_map)
  show "sys_metrics s' = sys_metrics s" using s'(2) c(2) by (simp add: set_actor_def)
  have "live_actors (sys_actors s') = insert a (live_actors (sys_actors s1))"
    using a by (simp add: s' live_actors_update)
  also have "live_actors (sys_actors s1) = insert a (live_actors (sys_actors s))"
    using assms(2,4) unfolding seen(2) by (simp add: set_actor_def live_actors_update)
  finally show "live_actors (sys_actors s') = insert a (live_actors (sys_actors s))" by simp
qed

lemma stop_seen:
  assumes "a < length (sys_actors s)"
  shows "map ba_name (sys_actors (stop_begin a s)) = map ba_name (sys_actors s)"
    and "sys_metrics (stop_begin a s) = sys_metrics s"
    and "live_actors (sys_actors (stop_begin a s)) = live_actors (sys_actors s) - {a}"
    and "stop_end clean a s = Returns s' \<Longrightarrow> map ba_name (sys_actors s') = map ba_name (sys_actors s) \<and>
      sys_metrics s' = sys_metrics s \<and> live_actors (sys_actors s') = live_actors (sys_actors s)"
proof -
  have n: "map ba_name ((sys_actors s)[a := x]) = map ba_name (sys_actors s)" if "ba_name x = ba_name (sys_actors s ! a)" for x
    using assms that by (simp add: map_update) (metis list_update_id nth_map length_map)
  show "map ba_name (sys_actors (stop_begin a s)) = map ba_name (sys_actors s)"
    using assms by (simp add: stop_begin_def close_mailbox_def set_actor_def n Let_def)
  show "sys_metrics (stop_begin a s) = sys_metrics s"
    by (simp add: stop_begin_def close_mailbox_def set_actor_def Let_def)
  show "live_actors (sys_actors (stop_begin a s)) = live_actors (sys_actors s) - {a}"
    using assms by (auto simp: stop_begin_def close_mailbox_def set_actor_def live_actors_update Let_def)
      (simp add: live_actors_def)
  show "map ba_name (sys_actors s') = map ba_name (sys_actors s) \<and> sys_metrics s' = sys_metrics s \<and>
      live_actors (sys_actors s') = live_actors (sys_actors s)" if "stop_end clean a s = Returns s'"
    using that assms
    by (auto simp: stop_end_def set_actor_def n live_actors_update Let_def split: if_splits) (auto simp: live_actors_def)
qed

text \<open>A task's local copy comes from the list: its factory keeps its promise, its actor exists.\<close>

fun entry_of :: "'u gtask \<Rightarrow> 'u guarded option" where
  "entry_of (GSleep i e d) = Some e"
| "entry_of (GStop i e) = Some e"
| "entry_of (GSpawn i e) = Some e"
| "entry_of (GFinish i e a) = Some e"
| "entry_of _ = None"

definition entry_ok :: "('u factory \<Rightarrow> string) \<Rightarrow> 'u nursery \<Rightarrow> 'u guarded \<Rightarrow> bool" where
  "entry_ok label w e \<longleftrightarrow> makes (gc_factory e) (label (gc_factory e)) \<and>
     (\<forall>a. gc_actor e = Some a \<longrightarrow> a < length (sys_actors (nsys w)))"

lemma default_name_nth:
  "sys_actors s = xs @ [x] \<Longrightarrow> a = length xs \<Longrightarrow> default_name name a s =
     s\<lparr>sys_actors := xs @ [if ba_name x = [] then x\<lparr>ba_name := name\<rparr> else x]\<rparr>"
  by (simp add: default_name_def set_actor_def)

lemma spawn_seen:
  assumes "makes f nm" and "f s = Returns (s1, a)" and "ba_start seek_ok a (default_name name a s1) = Returns s2"
  shows "a = length (sys_actors s)"
    and "map ba_name (sys_actors s2) = map ba_name (sys_actors s) @ [if nm = [] then name else nm]"
    and "sys_metrics s2 = sys_metrics s" and "live_actors (sys_actors s2) = insert a (live_actors (sys_actors s))"
proof -
  obtain x where a: "a = length (sys_actors s)" and x: "sys_actors s1 = sys_actors s @ [x]" "ba_name x = nm"
      "\<not> ba_started x" "\<not> ba_stopped x" and m: "sys_metrics s1 = sys_metrics s"
    using assms(1,2) unfolding makes_def by blast
  then show "a = length (sys_actors s)" by simp
  let ?x = "if ba_name x = [] then x\<lparr>ba_name := name\<rparr> else x"
  have d: "sys_actors (default_name name a s1) = sys_actors s @ [?x]" "sys_metrics (default_name name a s1) = sys_metrics s"
    unfolding default_name_nth [OF x(1) a] by (simp_all add: m)
  have pre: "a < length (sys_actors (default_name name a s1))" "\<not> ba_started (sys_actors (default_name name a s1) ! a)"
      "\<not> ba_stopped (sys_actors (default_name name a s1) ! a)"
    using x(3,4) unfolding d(1) by (simp_all add: a)
  note seen = ba_start_seen [OF assms(3) pre]
  have "live_actors (sys_actors s @ [?x]) = live_actors (sys_actors s)"
    using x(3) by (auto simp: live_actors_def nth_append less_Suc_eq)
  then show "live_actors (sys_actors s2) = insert a (live_actors (sys_actors s))"
    using seen(3) by (simp add: d(1))
  show "map ba_name (sys_actors s2) = map ba_name (sys_actors s) @ [if nm = [] then name else nm]"
    using seen(1) x(2) by (auto simp: d(1))
  show "sys_metrics s2 = sys_metrics s" using seen(2) d(2) by simp
qed

text \<open>Each step of a restart goroutine is a step of the abstract one, except for the end of
  \<open>Stop\<close>, which the abstract supervisor does not see.\<close>

lemma guard_advance_refines:
  assumes adv: "guard_advance seek_ok clean g w = Returns (w', g')"
    and ok: "\<And>e. entry_of g = Some e \<Longrightarrow> entry_ok label w e"
  shows "if \<exists>i e. g = GStop i e then supervisor_of label w' = supervisor_of label w \<and> task_of label g' = task_of label g
     else restart_advance (task_of label g) (supervisor_of label w) = (supervisor_of label w', task_of label g')"
proof (cases g)
  case (GBegin i)
  then show ?thesis
    using adv by (auto simp: supervisor_of_def child_of_def put_child_def map_update Let_def split: if_splits)
next
  case (GSleep i e d)
  then have e: "entry_ok label w e" using ok by simp
  show ?thesis
  proof (cases "gc_actor e")
    case None
    then show ?thesis using adv GSleep by (simp add: child_of_def) (auto simp: child_of_def)
  next
    case (Some a)
    then have a: "a < length (sys_actors (nsys w))" using e by (simp add: entry_ok_def)
    have "w' = w\<lparr>nsys := stop_begin a (nsys w)\<rparr>" "g' = GStop i e"
      using adv GSleep Some by simp_all
    then show ?thesis
      using stop_seen(1-3) [OF a] Some GSleep by (simp add: supervisor_of_def child_of_def)
  qed
next
  case (GStop i e)
  then have e: "entry_ok label w e" using ok by simp
  show ?thesis
  proof (cases "gc_actor e")
    case None
    then show ?thesis using adv GStop by auto
  next
    case (Some a)
    then have a: "a < length (sys_actors (nsys w))" using e by (simp add: entry_ok_def)
    obtain s where s: "stop_end clean a (nsys w) = Returns s" "w' = w\<lparr>nsys := s\<rparr>" "g' = GSpawn i e"
      using adv GStop Some by (auto simp: and_then_Returns)
    then show ?thesis
      using stop_seen(4) [OF a s(1)] GStop by (simp add: supervisor_of_def)
  qed
next
  case (GSpawn i e)
  then have e: "makes (gc_factory e) (label (gc_factory e))" using ok by (simp add: entry_ok_def)
  obtain s1 a s2 where s: "gc_factory e (nsys w) = Returns (s1, a)" "ba_start seek_ok a (default_name (gc_name e) a s1) = Returns s2"
    and w': "w' = w\<lparr>nsys := s2\<rparr>" "g' = GFinish i e a"
    using adv GSpawn by (auto simp: and_then_Returns)
  then show ?thesis
    using spawn_seen [OF e s] GSpawn
    by (simp add: supervisor_of_def child_of_def create_def start_instance_def)
next
  case (GFinish i e a)
  then show ?thesis
    using adv by (auto simp: supervisor_of_def child_of_def put_child_def map_update)
next
  case GCount
  then show ?thesis
    using adv by (auto simp: supervisor_of_def inc_restart_def option.map_comp comp_def)
next
  case GDone
  then show ?thesis using adv by simp
qed

text \<open>The actors of the children have different ids from that of actor \<open>a\<close>.\<close>

definition only_child :: "nat \<Rightarrow> 'u nursery \<Rightarrow> bool" where
  "only_child a w \<longleftrightarrow> (\<forall>e \<in> set (gd_children (nsup w)). \<forall>b. gc_actor e = Some b \<longrightarrow>
     ba_id (sys_actors (nsys w) ! b) = ba_id (sys_actors (nsys w) ! a) \<longrightarrow> b = a)"

lemma child_index_of:
  assumes "\<forall>e \<in> set es. \<forall>b. gc_actor e = Some b \<longrightarrow> (ba_id (xs ! b) = aid \<longleftrightarrow> b = a)"
  shows "child_index xs aid es = index_of a (map (child_of label) es)"
  using assms by (induction es) (auto simp: child_of_def split: option.splits)

lemma index_of_nth:
  assumes "distinct (map gc_actor es)" and "i < length es" and "gc_actor (es ! i) = Some a"
  shows "index_of a (map (child_of label) es) = Some i"
  using assms
proof (induction es arbitrary: i)
  case (Cons e es)
  show ?case
  proof (cases i)
    case 0
    then show ?thesis using Cons.prems by (simp add: child_of_def)
  next
    case (Suc j)
    then have "Some a \<in> set (map gc_actor es)"
      using Cons.prems(2,3) by (metis Suc_less_eq length_Cons length_map nth_Cons_Suc nth_map nth_mem)
    then have "gc_actor e \<noteq> Some a" using Cons.prems(1) by auto
    then show ?thesis using Suc Cons by (simp add: child_of_def)
  qed
qed simp

lemma guard_on_failure_of:
  assumes "only_child a w"
  shows "guard_on_failure (ba_id (sys_actors (nsys w) ! a)) w = on_failure a (supervisor_of label w)"
proof -
  have "child_index (sys_actors (nsys w)) (ba_id (sys_actors (nsys w) ! a)) (gd_children (nsup w)) =
      index_of a (map (child_of label) (gd_children (nsup w)))"
    using assms by (intro child_index_of) (auto simp: only_child_def)
  then show ?thesis
    by (simp add: guard_on_failure_def on_failure_def supervisor_of_def Let_def split: option.split)
qed

subsection \<open>A new instance\<close>

text \<open>What \<open>Start\<close> of a new instance queues: the records of the log of its id, decoded, if the
  system persists, and nothing otherwise.\<close>

definition backlog :: "string \<Rightarrow> wal \<Rightarrow> 'u msg list \<Rightarrow> 'u system \<Rightarrow> bool" where
  "backlog aid w ms s \<longleftrightarrow> (if sys_persist_dir s = [] then ms = []
     else wal_path w = actor_wal_path s aid \<and> log_sound (w, st_files (sys_store s)) \<and>
       (\<exists>bs. log_replay (w, st_files (sys_store s)) = Some bs \<and> list_all2 (\<lambda>b m. sys_unmarshal s b = Inr m) bs ms))"

definition sane_options :: "'u ba_options \<Rightarrow> bool" where
  "sane_options opts \<longleftrightarrow> bo_id opts \<noteq> [] \<and> opt_persist (bo_mailbox opts) = None \<and>
     opt_policy (bo_mailbox opts) \<in> {backpressure_expand, backpressure_drop_newest} \<and>
     (\<forall>hook enc. (new_mailbox ((bo_mailbox opts)\<lparr>opt_persist := hook, opt_encode := enc\<rparr>) ::
        ('u msg, env_meta, store) mailbox option) \<noteq> None)"

text \<open>\<open>Start\<close> without a log.\<close>

lemma ba_start_plain:
  assumes "\<not> ba_wal (sys_actors s ! a)" and "\<not> ba_started (sys_actors s ! a)" and "a < length (sys_actors s)"
    and "ba_id (sys_actors s ! a) \<noteq> []"
  shows "\<exists>s'. ba_start seek_ok a s = Returns s' \<and> mailbox_of a s' = mailbox_of a s \<and>
    dest_of_id (ba_id (sys_actors s ! a)) s' = Local a"
  using assms
  by (auto simp: ba_start_def start_replay_def set_actor_def Let_def dest_of_id_def register_def)

lemma default_name_fields:
  obtains nm where "sys_actors (default_name name a s) = (sys_actors s)[a := (sys_actors s ! a)\<lparr>ba_name := nm\<rparr>]"
    "sys_registry (default_name name a s) = sys_registry s" "sys_store (default_name name a s) = sys_store s"
    "sys_unmarshal (default_name name a s) = sys_unmarshal s"
proof (cases "ba_name (sys_actors s ! a) = []")
  case True
  then show thesis by (intro that [of name]) (simp_all add: default_name_def set_actor_def)
next
  case False
  have "(sys_actors s ! a)\<lparr>ba_name := ba_name (sys_actors s ! a)\<rparr> = sys_actors s ! a" by (cases "sys_actors s ! a") simp
  then show thesis using False by (intro that [of "ba_name (sys_actors s ! a)"]) (simp_all add: default_name_def)
qed

text \<open>The factory's new instance comes up with as much of the backlog as its mailbox takes.\<close>

definition comes_up :: "int \<Rightarrow> 'u ba_options \<Rightarrow> string \<Rightarrow> 'u msg list \<Rightarrow> 'u system \<Rightarrow> bool" where
  "comes_up now opts name ms s \<longleftrightarrow>
   (\<exists>s1 s2 k. new_base_actor reliable True now opts s = Returns (s1, length (sys_actors s)) \<and>
       ba_start True (length (sys_actors s)) (default_name name (length (sys_actors s)) s1) = Returns s2 \<and> k \<le> length ms \<and>
       lanes (mailbox_of (length (sys_actors s)) s2) = ([], map replayed (take k ms)) \<and>
       (k < length ms \<longrightarrow> segq_full (mb_normal (mailbox_of (length (sys_actors s)) s2))) \<and>
       dest_of_id (bo_id opts) s2 = Local (length (sys_actors s)))"

lemma new_instance_plain:
  fixes s :: "'u system"
  assumes opts: "sane_options opts" and log: "backlog (bo_id opts) w ms s" and nodir: "sys_persist_dir s = []"
  shows "comes_up now opts name ms s"
proof -
  let ?a = "length (sys_actors s)"
  have o: "bo_id opts \<noteq> []" "opt_persist (bo_mailbox opts) = None"
      "opt_policy (bo_mailbox opts) \<in> {backpressure_expand, backpressure_drop_newest}"
    using opts by (simp_all add: sane_options_def)
  have "(bo_mailbox opts)\<lparr>opt_persist := opt_persist (bo_mailbox opts), opt_encode := opt_encode (bo_mailbox opts)\<rparr> = bo_mailbox opts"
    by (cases "bo_mailbox opts") simp
  then obtain mb :: "('u msg, env_meta, store) mailbox" where mb: "new_mailbox (bo_mailbox opts) = Some mb"
    using opts unfolding sane_options_def by (metis option.exhaust)
  let ?x = "\<lparr>ba_id = bo_id opts, ba_name = bo_name opts, ba_mb = mb, ba_receive = bo_receive opts, ba_wal = False,
    ba_state = state_new, ba_started = False, ba_stopped = False, ba_done = False\<rparr>"
  let ?s1 = "s\<lparr>sys_actors := sys_actors s @ [?x]\<rparr>"
  have n: "new_base_actor reliable True now opts s = Returns (?s1, ?a)"
    using nodir o(1) mb by (simp add: new_base_actor_def Let_def)
  let ?s = "default_name name ?a ?s1"
  have s: "\<not> ba_wal (sys_actors ?s ! ?a)" "\<not> ba_started (sys_actors ?s ! ?a)" "?a < length (sys_actors ?s)"
      "ba_id (sys_actors ?s ! ?a) = bo_id opts" "mailbox_of ?a ?s = mb"
    by (simp_all add: default_name_def set_actor_def)
  obtain s2 where "ba_start True ?a ?s = Returns s2" "mailbox_of ?a s2 = mb" "dest_of_id (bo_id opts) s2 = Local ?a"
    using ba_start_plain [OF s(1-3)] o(1) s(4,5) by auto
  then show ?thesis
    using n new_mailbox_ok(2) [OF mb] log nodir unfolding comes_up_def
      by (intro exI [of _ ?s1] exI [of _ s2] exI [of _ 0]) (simp add: backlog_def)
qed

lemma new_instance_log:
  fixes s :: "'u system"
  assumes ok: "sys_ok s" and opts: "sane_options opts" and log: "backlog (bo_id opts) w ms s" and dir: "sys_persist_dir s \<noteq> []"
  shows "comes_up now opts name ms s"
proof -
  let ?a = "length (sys_actors s)"
  have o: "bo_id opts \<noteq> []" "opt_persist (bo_mailbox opts) = None"
      "opt_policy (bo_mailbox opts) \<in> {backpressure_expand, backpressure_drop_newest}"
    using opts by (simp_all add: sane_options_def)
  obtain bs where bs: "wal_path w = actor_wal_path s (bo_id opts)" "log_sound (w, st_files (sys_store s))"
      "log_replay (w, st_files (sys_store s)) = Some bs" "list_all2 (\<lambda>b m. sys_unmarshal s b = Inr m) bs ms"
    using log dir by (auto simp: backlog_def)
  obtain fs w' where op: "wal_open True (actor_wal_path s (bo_id opts)) (st_files (sys_store s)) = (fs, Inr w')"
    by (simp add: wal_open_def)
  obtain s1 a where n: "new_base_actor reliable True now opts s = Returns (s1, a)"
  proof -
    obtain mb :: "('u msg, env_meta, store) mailbox" where
        mb: "new_mailbox ((bo_mailbox opts)\<lparr>opt_persist := Some (wal_hook reliable ?a), opt_encode := Some (sys_marshal s)\<rparr>) = Some mb"
      using opts unfolding sane_options_def by blast
    show thesis
      using that dir o(1,2) op by (simp add: new_base_actor_def Let_def mb cong: option.case_cong)
  qed
  note log = bs note new = new_base_actor_wal [OF n ok dir o(1,2) op]
  let ?s = "default_name name a s1"
  obtain nm where k: "sys_actors ?s = (sys_actors s1)[a := (sys_actors s1 ! a)\<lparr>ba_name := nm\<rparr>]"
      "sys_registry ?s = sys_registry s1" "sys_store ?s = sys_store s1" "sys_unmarshal ?s = sys_unmarshal s1"
    by (rule default_name_fields)
  have f: "mailbox_of a ?s = mailbox_of a s1" "ba_wal (sys_actors ?s ! a)" "\<not> ba_started (sys_actors ?s ! a)"
      "ba_id (sys_actors ?s ! a) = bo_id opts"
    unfolding k(1) using new(2,10-12) by simp_all
  have "sys_ok ?s"
    using new(2,3) unfolding sys_ok_def k(1,2) by (auto simp: all_set_conv_all_nth nth_list_update)
  then have "open_mailbox a ?s"
    using new(2,6,7) o(3) f(1) by (simp add: open_mailbox_def k(1))
  moreover have "log_replay (log_of a (sys_store ?s)) = Some bs"
    using log_sound_reopen [OF log(2)] op log(1,3) new(4) by (simp add: log_of_def k(3))
  moreover have "list_all2 (\<lambda>b m. sys_unmarshal ?s b = Inr m) bs ms"
    using log(4) new(14) by (simp add: k(4))
  moreover have "lanes (mailbox_of a ?s) = ([], [])" using new(5) f(1) by simp
  ultimately obtain s2 n' where "ba_start True a ?s = Returns s2" "n' \<le> length ms"
      "lanes (mailbox_of a s2) = ([], map replayed (take n' ms))"
      "n' < length ms \<longrightarrow> segq_full (mb_normal (mailbox_of a s2))" "dest_of_id (bo_id opts) s2 = Local a"
    using ba_start_replays [of a ?s bs ms] f(2-4) o(1) by metis
  then show ?thesis
    using n new(1) unfolding comes_up_def by blast
qed

lemma new_instance:
  "sys_ok s \<Longrightarrow> sane_options opts \<Longrightarrow> backlog (bo_id opts) w ms s \<Longrightarrow> comes_up now opts name ms s"
  using new_instance_plain new_instance_log by blast

subsection \<open>From the panic to the new instance\<close>

definition keeps :: "'u system \<Rightarrow> _" where
  "keeps s = (sys_persist_dir s, st_files (sys_store s), sys_unmarshal s, length (sys_actors s))"

lemma backlog_keeps: "keeps s' = keeps s \<Longrightarrow> backlog aid lg ms s' = backlog aid lg ms s"
  by (simp add: keeps_def backlog_def actor_wal_path_def)

lemma loop_frame_keeps: "loop_frame a s' = loop_frame a s \<Longrightarrow> keeps s' = keeps s \<and> badge a s' = badge a s"
  by (simp add: loop_frame_def keeps_def)

lemma stop_begin_keeps: "keeps (stop_begin a s) = keeps s"
  by (simp add: keeps_def stop_begin_def close_mailbox_def set_actor_def Let_def)

lemma stop_end_done:
  assumes "closing a s" and "ba_done (sys_actors s ! a)" and "ba_state (sys_actors s ! a) = state_stopping"
  shows "\<exists>s'. stop_end clean a s = Returns s' \<and> sys_ok s' \<and> keeps s' = keeps s"
  using assms
  by (auto simp: stop_end_def closing_def sys_ok_def set_actor_def keeps_def unregister_def states Let_def
      all_set_conv_all_nth nth_list_update)

lemma dest_of_id_metrics: "dest_of_id aid (s\<lparr>sys_metrics := m\<rparr>) = dest_of_id aid s"
  by (simp add: dest_of_id_def cong: option.case_cong if_cong)

text \<open>The restart goroutine up to the wait in \<open>Stop\<close>, and from there to its end.\<close>

lemma guard_run_begin:
  assumes "i < length (gd_children (nsup w))" and "gd_children (nsup w) ! i = e" and "gc_actor e = Some a"
    and "0 \<le> gc_retries e" and "gc_retries e < gd_max (nsup w)" and "gd_max (nsup w) < 2 ^ 31"
  shows "guard_run True clean 2 (GBegin i) w = Returns ((put_child i (e\<lparr>gc_retries := gc_retries e + 1\<rparr>) w)
    \<lparr>nsys := stop_begin a (nsys w)\<rparr>, GStop i (e\<lparr>gc_retries := gc_retries e + 1\<rparr>))"
proof -
  have "wrap64 (gc_retries e + 1) = gc_retries e + 1"
    using assms(4-6) by (intro wrap64_id) (simp add: in_i64_def min_i64_def max_i64_def)
  then show ?thesis
    using assms by (simp add: numeral_2_eq_2 put_child_def Let_def)
qed

lemma guard_run_end:
  assumes "gc_actor e = Some a" and "stop_end clean a (nsys w) = Returns s" and "gc_factory e s = Returns (s1, a')"
    and "ba_start True a' (default_name (gc_name e) a' s1) = Returns s2"
  shows "guard_run True clean 4 (GStop i e) w = Returns
    (\<lparr>nsys = s2\<lparr>sys_metrics := map_option inc_restart (sys_metrics s2)\<rparr>,
      nsup = (nsup w)\<lparr>gd_children := (gd_children (nsup w))[i := e\<lparr>gc_actor := Some a'\<rparr>],
        gd_restarts := gd_restarts (nsup w) + 1\<rparr>\<rparr>, GDone)"
proof -
  have four: "4 = Suc (Suc (Suc (Suc 0)))" by simp
  show ?thesis
    using assms by (simp add: four put_child_def)
qed

text \<open>A child that no other child shares its id or actor with is the one that its failure chooses.\<close>

lemma only_child_chosen:
  assumes "only_child a w" and "gd_strategy (nsup w) = one_for_one" and "i < length (gd_children (nsup w))"
    and "distinct (map gc_actor (gd_children (nsup w)))" and "gc_actor (gd_children (nsup w) ! i) = Some a"
  shows "guard_on_failure (ba_id (sys_actors (nsys w) ! a)) w = [i]"
proof -
  have "index_of a (map (child_of (\<lambda>_. [])) (gd_children (nsup w))) = Some i"
    using assms(3-5) by (intro index_of_nth)
  then show ?thesis
    using guard_on_failure_of [OF assms(1), of "\<lambda>_. []"] assms(2) by (simp add: on_failure_def supervisor_of_def strategies)
qed

lemma only_child_same:
  assumes "only_child a w" and "\<And>b. ba_id (sys_actors s ! b) = ba_id (sys_actors (nsys w) ! b)"
  shows "only_child a (w\<lparr>nsys := s\<rparr>)"
  using assms by (simp add: only_child_def)

text \<open>The second half of a restart, once the loop of the old actor has ended.\<close>

lemma restart_after_stop:
  assumes "closing a (nsys w)" and "ba_done (sys_actors (nsys w) ! a)" and "ba_state (sys_actors (nsys w) ! a) = state_stopping"
    and "gc_actor e = Some a" and "gc_factory e = new_base_actor reliable True now opts" and "sane_options opts"
    and "backlog (bo_id opts) lg ms (nsys w)" and a': "a' = length (sys_actors (nsys w))"
  shows "\<exists>w2 k. guard_run True clean 4 (GStop i e) w = Returns (w2, GDone) \<and>
    nsup w2 = (nsup w)\<lparr>gd_children := (gd_children (nsup w))[i := e\<lparr>gc_actor := Some a'\<rparr>], gd_restarts := gd_restarts (nsup w) + 1\<rparr> \<and>
    dest_of_id (bo_id opts) (nsys w2) = Local a' \<and> k \<le> length ms \<and>
    lanes (mailbox_of a' (nsys w2)) = ([], map replayed (take k ms)) \<and>
    (k < length ms \<longrightarrow> segq_full (mb_normal (mailbox_of a' (nsys w2))))"
proof -
  obtain s3 where s3: "stop_end clean a (nsys w) = Returns s3" "sys_ok s3" "keeps s3 = keeps (nsys w)"
    using stop_end_done [OF assms(1-3)] by blast
  then have len: "length (sys_actors s3) = a'" by (simp add: keeps_def a')
  have b: "backlog (bo_id opts) lg ms s3" using assms(7) backlog_keeps [OF s3(3)] by simp
  obtain s4 s5 k where new: "new_base_actor reliable True now opts s3 = Returns (s4, a')"
      "ba_start True a' (default_name (gc_name e) a' s4) = Returns s5" "k \<le> length ms"
      "lanes (mailbox_of a' s5) = ([], map replayed (take k ms))"
      "k < length ms \<longrightarrow> segq_full (mb_normal (mailbox_of a' s5))" "dest_of_id (bo_id opts) s5 = Local a'"
    using new_instance [OF s3(2) assms(6) b, of now "gc_name e"] unfolding comes_up_def len by blast
  have "gc_factory e s3 = Returns (s4, a')" using new(1) by (simp add: assms(5))
  from guard_run_end [OF assms(4) s3(1) this new(2), of i] show ?thesis
    using new(3-6) by (intro exI conjI) (assumption | simp add: dest_of_id_metrics)+
qed

subsection \<open>Properties\<close>


definition kid_options :: "nat ba_options" where
  "kid_options = durable_options\<lparr>bo_id := ''a'', bo_name := ''kid''\<rparr>"

definition kid :: "nat guarded" where
  "kid = \<lparr>gc_factory = new_base_actor reliable True 0 kid_options, gc_name = ''kid'', gc_actor = Some 0, gc_retries = 0\<rparr>"

text \<open>One child, whose log holds the message 7.\<close>

definition kid_log :: wal where
  "kid_log = \<lparr>wal_f = Some 0, wal_path = actor_wal_path durable_system ''a''\<rparr>"

definition playpen :: "nat nursery" where
  "playpen = \<lparr>nsys = durable_system\<lparr>sys_subscribers := 1,
       sys_store := no_files\<lparr>st_files := [actor_wal_path durable_system ''a'' \<mapsto> frame [7]]\<rparr>\<rparr>,
     nsup = \<lparr>gd_strategy = one_for_one, gd_max = 3, gd_backoff = (\<lambda>_. 0), gd_children = [kid], gd_restarts = 0\<rparr>\<rparr>"

lemma kid_sane: "sane_options kid_options"
proof -
  have "new_mailbox ((bo_mailbox kid_options)\<lparr>opt_persist := hook, opt_encode := enc\<rparr>) \<noteq>
      (None :: (nat msg, env_meta, store) mailbox option)" for hook enc
    by (simp add: kid_options_def durable_options_def new_mailbox_def new_segq_def new_ring_def round_up.simps push_bit_eq_mult upt_rec policies)
  then show ?thesis
    by (simp add: sane_options_def) (simp add: kid_options_def durable_options_def policies)
qed

lemma playpen_simps:
  "sys_ok (nsys playpen)" "sys_actors (nsys playpen) = [small_actor ''a'', small_actor ''b'']"
  "gd_children (nsup playpen) = [kid]" "gd_strategy (nsup playpen) = one_for_one" "gd_max (nsup playpen) = 3"
  "sys_subscribers (nsys playpen) = 1" "sys_persist_dir (nsys playpen) = ''d''" "sys_failed (nsys playpen) = []"
  using small_system_ok
  by (simp_all add: playpen_def sys_ok_def) (simp_all add: durable_system_def small_system_def new_system_def)

lemma playpen_backlog: "backlog ''a'' kid_log [User 7] (nsys playpen)"
proof -
  let ?fs = "[actor_wal_path durable_system ''a'' \<mapsto> frame [7]]"
  have d: "file_data kid_log ?fs = concat (map frame [[7]])"
    unfolding file_data_def kid_log_def by simp
  have f: "wal_f kid_log \<noteq> None" by (simp add: kid_log_def)
  have "log_sound (kid_log, ?fs)"
    unfolding log_sound_def by (intro conjI exI [of _ "[[7]]"]) (simp_all add: d f fits_def)
  moreover have "log_replay (kid_log, ?fs) = Some [[7]]"
    by (rule log_replay_frames [OF _ _ d]) (simp_all add: f fits_def)
  moreover have "sys_unmarshal (nsys playpen) [7] = Inr (User 7)"
    by (simp add: playpen_def durable_system_def small_system_def new_system_def)
  moreover have "wal_path kid_log = actor_wal_path (nsys playpen) ''a''"
    by (simp add: kid_log_def playpen_def actor_wal_path_def)
  moreover have "st_files (sys_store (nsys playpen)) = ?fs" by (simp add: playpen_def)
  ultimately show ?thesis
    by (simp add: backlog_def playpen_simps)
qed

lemma kid_simps [simp]:
  "gc_actor kid = Some 0" "gc_retries kid = 0" "gc_factory kid = new_base_actor reliable True 0 kid_options" "gc_name kid = ''kid''"
  "bo_id kid_options = ''a''" "bo_name kid_options = ''kid''"
  by (simp_all add: kid_def kid_options_def)


text \<open>C12. From a panic to the new instance. A supervised child with a fixed id panics on a message
  (one-for-one, retries left). The failure notice makes the supervisor start one restart, of
  this child. The restart counts the retry and calls \<open>Stop\<close>; when the loop of the old actor has
  ended, after however many rounds, the restart runs to its end: the entry of the child has the
  new actor, the restart is counted, messages to the id go to the new actor, and its mailbox
  is open and holds what the log of the id holds: nothing without persistence, and with
  persistence all messages ever persisted for the id, up to the capacity. So if the message
  that caused the panic had been persisted, the new instance gets it again.\<close>

theorem panic_to_restart:
  fixes w :: "'u nursery"
  assumes "sys_ok (nsys w)" and "a < length (sys_actors (nsys w))" and "ba_receive (sys_actors (nsys w) ! a)"
    and "\<not> ba_stopped (sys_actors (nsys w) ! a)" and "sys_subscribers (nsys w) = 1" and "only_child a w"
    and "gd_strategy (nsup w) = one_for_one" and "i < length (gd_children (nsup w))" and "gd_children (nsup w) ! i = e"
    and "distinct (map gc_actor (gd_children (nsup w)))" and "gc_actor e = Some a"
    and "0 \<le> gc_retries e" and "gc_retries e < gd_max (nsup w)" and "gd_max (nsup w) < 2 ^ 31"
    and "gc_factory e = new_base_actor reliable True now opts" and "sane_options opts"
    and "bo_id opts = ba_id (sys_actors (nsys w) ! a)" and "backlog (bo_id opts) lg ms (nsys w)"
    and "lanes_pop (lanes (mailbox_of a (nsys w))) = (l, Some env)" and "ekind (meta env) = kind_user"
    and "run_iter panicking a (nsys w) = Returns [s1]"
    and "rounds a n (stop_begin a s1) s2" and "ba_done (sys_actors s2 ! a)"
  shows "sys_failed s1 = sys_failed (nsys w) @ [bo_id opts] \<and> guard_on_failure (bo_id opts) (w\<lparr>nsys := s1\<rparr>) = [i] \<and>
    (\<exists>w1 g w2 k a'. guard_run True clean 2 (GBegin i) (w\<lparr>nsys := s1\<rparr>) = Returns (w1, g) \<and> nsys w1 = stop_begin a s1 \<and>
      guard_run True clean 4 g (w1\<lparr>nsys := s2\<rparr>) = Returns (w2, GDone) \<and> a' = length (sys_actors (nsys w)) \<and>
      gd_children (nsup w2) ! i = e\<lparr>gc_retries := gc_retries e + 1, gc_actor := Some a'\<rparr> \<and>
      gd_restarts (nsup w2) = gd_restarts (nsup w) + 1 \<and> dest_of_id (bo_id opts) (nsys w2) = Local a' \<and>
      k \<le> length ms \<and> lanes (mailbox_of a' (nsys w2)) = ([], map replayed (take k ms)) \<and>
      (k < length ms \<longrightarrow> segq_full (mb_normal (mailbox_of a' (nsys w2)))))"
proof -
  let ?s = "nsys w" and ?w = "w\<lparr>nsys := s1\<rparr>" and ?e = "e\<lparr>gc_retries := gc_retries e + 1\<rparr>"
  have s1: "sys_ok s1" "sys_failed s1 = sys_failed ?s @ [bo_id opts]" "loop_frame a s1 = loop_frame a ?s"
      and other: "\<And>b. b \<noteq> a \<Longrightarrow> sys_actors s1 ! b = sys_actors ?s ! b"
    using panic_round [OF assms(1-3,19,20)] assms(5,17,21) by auto
  have k1: "keeps s1 = keeps ?s" "badge a s1 = badge a ?s" using loop_frame_keeps [OF s1(3)] by simp_all
  then have a1: "a < length (sys_actors s1)" "\<not> ba_stopped (sys_actors s1 ! a)"
      and id1: "ba_id (sys_actors s1 ! a) = bo_id opts"
    using assms(2,4,17) by (simp_all add: keeps_def badge_def Let_def)
  have "ba_id (sys_actors s1 ! b) = ba_id (sys_actors ?s ! b)" for b
    using other [of b] id1 assms(17) by (cases "b = a") simp_all
  then have sel: "guard_on_failure (bo_id opts) ?w = [i]"
    using only_child_chosen [OF only_child_same [OF assms(6)], of s1 i] assms(7-11) id1 by simp
  note b = stop_begin_closing [OF s1(1) a1]
  note c = rounds_closing [OF assms(22) b(1)]
  have k2: "keeps s2 = keeps ?s" "ba_state (sys_actors s2 ! a) = state_stopping"
    using loop_frame_keeps [of a s2 "stop_begin a s1"] c b(3) stop_begin_keeps [of a s1] k1(1)
    by (simp_all add: badge_def Let_def)
  let ?w1 = "(put_child i ?e ?w)\<lparr>nsys := stop_begin a s1\<rparr>" and ?a = "length (sys_actors ?s)"
  have first_half: "guard_run True clean 2 (GBegin i) ?w = Returns (?w1, GStop i ?e)"
    using guard_run_begin [where i = i and w = ?w and e = e and a = a and clean = clean] assms(8,9,11-14) by simp
  obtain w2 k where fin: "guard_run True clean 4 (GStop i ?e) (?w1\<lparr>nsys := s2\<rparr>) = Returns (w2, GDone)"
      "nsup w2 = (nsup ?w1)\<lparr>gd_children := (gd_children (nsup ?w1))[i := ?e\<lparr>gc_actor := Some ?a\<rparr>], gd_restarts := gd_restarts (nsup ?w1) + 1\<rparr>"
      "dest_of_id (bo_id opts) (nsys w2) = Local ?a" "k \<le> length ms"
      "lanes (mailbox_of ?a (nsys w2)) = ([], map replayed (take k ms))"
      "k < length ms \<longrightarrow> segq_full (mb_normal (mailbox_of ?a (nsys w2)))"
    using restart_after_stop [of a "?w1\<lparr>nsys := s2\<rparr>" ?e now opts lg ms ?a clean i] assms(11,15,16,18,23) c k2
      backlog_keeps [OF k2(1)] by (auto simp: keeps_def)
  have "gd_children (nsup w2) ! i = e\<lparr>gc_retries := gc_retries e + 1, gc_actor := Some ?a\<rparr>"
      "gd_restarts (nsup w2) = gd_restarts (nsup w) + 1"
    using fin(2) assms(8) by (simp_all add: put_child_def)
  then show ?thesis
    using sel s1(2) first_half fin(1,3-6) by (intro conjI exI) (assumption | simp)+
qed

theorem panic_to_restart_witness:
  "\<exists>(w :: nat nursery) s1 n s2 w1 g w2 k. run_iter panicking 0 (nsys w) = Returns [s1] \<and> sys_failed s1 = [''a''] \<and>
     guard_on_failure ''a'' (w\<lparr>nsys := s1\<rparr>) = [0] \<and> guard_run True True 2 (GBegin 0) (w\<lparr>nsys := s1\<rparr>) = Returns (w1, g) \<and>
     rounds 0 n (nsys w1) s2 \<and> guard_run True True 4 g (w1\<lparr>nsys := s2\<rparr>) = Returns (w2, GDone) \<and>
     dest_of_id ''a'' (nsys w2) = Local 2 \<and> lanes (mailbox_of 2 (nsys w2)) = ([], map replayed (take k [User 7]))"
proof -
  let ?me = "\<lparr>ekind = kind_user, from_id = [], corr_id = [], reply_to = []\<rparr>"
  let ?env = "\<lparr>prio = 0, payload = User (7 :: nat), meta = ?me, persist_flag = False\<rparr>"
  have z: "0 < length (sys_actors (nsys playpen))" "accepts ?env (mailbox_of 0 (nsys playpen))"
    by (simp_all add: playpen_simps small_mailbox_accepts)
  obtain mb :: "(nat msg, env_meta, store) mailbox" where mb: "mb_inv mb" "lanes mb = ([], [?env])"
    by (rule ba_tell_accepts [OF playpen_simps(1) z]) (auto simp: playpen_simps small_mailbox_lanes)
  let ?w = "playpen\<lparr>nsys := put_mailbox 0 mb (nsys playpen)\<rparr>"
  have w: "sys_ok (nsys ?w)" "mailbox_of 0 (nsys ?w) = mb" "0 < length (sys_actors (nsys ?w))"
      "sys_actors (nsys ?w) = [(small_actor ''a'')\<lparr>ba_mb := mb\<rparr>, small_actor ''b'']"
    using sys_ok_put_mailbox [OF playpen_simps(1) mb(1), of 0] by (simp_all add: playpen_simps put_mailbox_def set_actor_def)
  have x: "ba_receive (sys_actors (nsys ?w) ! 0)" "\<not> ba_stopped (sys_actors (nsys ?w) ! 0)"
      "ba_id (sys_actors (nsys ?w) ! 0) = ''a''" "sys_subscribers (nsys ?w) = 1" "sys_failed (nsys ?w) = []"
    by (simp_all add: w(4) small_actor_def) (simp_all add: put_mailbox_def set_actor_def playpen_simps small_actor_def)
  have only: "only_child 0 ?w" by (simp add: only_child_def playpen_simps)
  have p: "lanes_pop (lanes (mailbox_of 0 (nsys ?w))) = (([], []), Some ?env)" "ekind (meta ?env) = kind_user"
    using w(2) mb(2) by simp_all
  have b: "backlog (bo_id kid_options) kid_log [User 7] (nsys ?w)"
    using playpen_backlog backlog_keeps [of "nsys ?w" "nsys playpen"] by (simp add: keeps_def put_mailbox_def set_actor_def)
  obtain s1 where s1: "run_iter panicking 0 (nsys ?w) = Returns [s1]" "sys_ok s1" "loop_frame 0 s1 = loop_frame 0 (nsys ?w)"
    using panic_round [OF w(1,3) x(1) p] by blast
  have "0 < length (sys_actors s1)" "\<not> ba_stopped (sys_actors s1 ! 0)"
    using loop_frame_keeps [OF s1(3)] w(3) x(2) by (simp_all add: keeps_def badge_def Let_def)
  from stop_begin_closing(1) [OF s1(2) this]
  obtain n s2 where r: "rounds 0 n (stop_begin 0 s1) s2" "ba_done (sys_actors s2 ! 0)"
    using rounds_to_end by blast
  have "sys_failed s1 = sys_failed (nsys ?w) @ [bo_id kid_options] \<and> guard_on_failure (bo_id kid_options) (?w\<lparr>nsys := s1\<rparr>) = [0] \<and>
    (\<exists>w1 g w2 k a'. guard_run True True 2 (GBegin 0) (?w\<lparr>nsys := s1\<rparr>) = Returns (w1, g) \<and> nsys w1 = stop_begin 0 s1 \<and>
      guard_run True True 4 g (w1\<lparr>nsys := s2\<rparr>) = Returns (w2, GDone) \<and> a' = length (sys_actors (nsys ?w)) \<and>
      gd_children (nsup w2) ! 0 = kid\<lparr>gc_retries := gc_retries kid + 1, gc_actor := Some a'\<rparr> \<and>
      gd_restarts (nsup w2) = gd_restarts (nsup ?w) + 1 \<and> dest_of_id (bo_id kid_options) (nsys w2) = Local a' \<and>
      k \<le> length [User (7 :: nat)] \<and> lanes (mailbox_of a' (nsys w2)) = ([], map replayed (take k [User 7])) \<and>
      (k < length [User (7 :: nat)] \<longrightarrow> segq_full (mb_normal (mailbox_of a' (nsys w2)))))"
    by (rule panic_to_restart [OF w(1,3) x(1,2,4) only _ _ _ _ _ _ _ _ _ kid_sane _ b p s1(1) r])
      (simp_all add: playpen_simps x(3))
  then obtain w1 g w2 k where g: "sys_failed s1 = [''a'']" "guard_on_failure ''a'' (?w\<lparr>nsys := s1\<rparr>) = [0]"
      "guard_run True True 2 (GBegin 0) (?w\<lparr>nsys := s1\<rparr>) = Returns (w1, g)" "nsys w1 = stop_begin 0 s1"
      "guard_run True True 4 g (w1\<lparr>nsys := s2\<rparr>) = Returns (w2, GDone)" "dest_of_id ''a'' (nsys w2) = Local (length (sys_actors (nsys ?w)))"
      "lanes (mailbox_of (length (sys_actors (nsys ?w))) (nsys w2)) = ([], map replayed (take k [User 7]))"
    by (elim conjE exE) (rule that, simp_all only: x(5) kid_simps append_Nil)
  have "length (sys_actors (nsys ?w)) = 2" using w(4) by simp
  with g(6,7) have "dest_of_id ''a'' (nsys w2) = Local 2" "lanes (mailbox_of 2 (nsys w2)) = ([], map replayed (take k [User 7]))"
    by (simp_all only:)
  moreover have "rounds 0 n (nsys w1) s2" using r(1) g(4) by (simp only:)
  ultimately show ?thesis
    using s1(1) g(1,2,3,5)
    by - (intro exI [of _ ?w] exI [of _ s1] exI [of _ n] exI [of _ s2] exI [of _ w1] exI [of _ g] exI [of _ w2] exI [of _ k] conjI)
qed

end
