(* ===== verification/Testkit.thy ===== *)
theory Testkit
  imports Complex_Main Prelude
begin

text \<open>
  The test kit (\<open>src/testkit/\<close>): the fake clock with its timers, the probe and the fault injector.
  A \<open>time.Time\<close> is the number of nanoseconds since 1970, unbounded, as \<open>Add\<close> on times is. The
  channels of the timers are kept in a list, a channel being its position.
\<close>

subsection \<open>The fake clock\<close>

text \<open>A channel of capacity one: what is buffered, and whether it is closed.\<close>

record time_chan =
  tc_buf :: "int option"
  tc_closed :: bool

record fake_timer =
  ft_at :: int
  ft_ch :: nat

record fake_clock =
  clk_now :: int
  clk_tmrs :: "fake_timer list"
  clk_chans :: "time_chan list"

text \<open>The zero value of \<open>time.Time\<close> is the first of January of the year 1.\<close>

definition zero_time :: int where
  "zero_time = - 62135596800 * 10 ^ 9"

definition new_fake_clock :: "int \<Rightarrow> fake_clock" where
  "new_fake_clock start = \<lparr>clk_now = (if start = zero_time then 0 else start), clk_tmrs = [], clk_chans = []\<rparr>"

definition clock_after :: "int \<Rightarrow> fake_clock \<Rightarrow> fake_clock \<times> nat" where
  "clock_after d c =
     (let ch = length (clk_chans c);
          t = \<lparr>ft_at = clk_now c + d, ft_ch = ch\<rparr>
      in (c\<lparr>clk_tmrs := clk_tmrs c @ [t], clk_chans := clk_chans c @ [\<lparr>tc_buf = None, tc_closed = False\<rparr>]\<rparr>, ch))"

text \<open>The non-blocking send followed by \<open>close\<close>; both panic on a closed channel.\<close>

definition fire_timer :: "int \<Rightarrow> fake_timer \<Rightarrow> time_chan list \<Rightarrow> time_chan list option" where
  "fire_timer now t chs =
     (let c = chs ! ft_ch t in
      if tc_closed c then None
      else Some (chs[ft_ch t := \<lparr>tc_buf = (case tc_buf c of None \<Rightarrow> Some now | Some v \<Rightarrow> Some v), tc_closed = True\<rparr>]))"

fun fire_all :: "int \<Rightarrow> fake_timer list \<Rightarrow> time_chan list \<Rightarrow> time_chan list option" where
  "fire_all now [] chs = Some chs"
| "fire_all now (t # ts) chs =
     (case fire_timer now t chs of None \<Rightarrow> None | Some chs' \<Rightarrow> fire_all now ts chs')"

fun split_due :: "int \<Rightarrow> fake_timer list \<Rightarrow> fake_timer list \<times> fake_timer list" where
  "split_due now [] = ([], [])"
| "split_due now (t # ts) =
     (case split_due now ts of (left, fire) \<Rightarrow>
        if \<not> now < ft_at t then (left, t # fire) else (t # left, fire))"

definition clock_advance :: "int \<Rightarrow> fake_clock \<Rightarrow> fake_clock option" where
  "clock_advance d c =
     (let now = clk_now c + d in
      case split_due now (clk_tmrs c) of (left, fire) \<Rightarrow>
        map_option (\<lambda>chs. \<lparr>clk_now = now, clk_tmrs = left, clk_chans = chs\<rparr>) (fire_all now fire (clk_chans c)))"

subsection \<open>The probe\<close>

text \<open>Messages in the channel, its capacity, and the failures reported to the test.\<close>

datatype 'v probe_failure = TimeoutWaiting | UnexpectedMessage 'v

record 'v probe =
  pr_ch :: "'v list"
  pr_cap :: nat
  pr_failed :: "'v probe_failure list"

definition new_probe :: "int \<Rightarrow> 'v probe" where
  "new_probe buffer = \<lparr>pr_ch = [], pr_cap = nat (if buffer \<le> 0 then 1024 else buffer), pr_failed = []\<rparr>"

text \<open>\<open>Put\<close> waits for room: no result while the channel is full.\<close>

definition probe_put :: "'v \<Rightarrow> 'v probe \<Rightarrow> 'v probe option" where
  "probe_put v p = (if length (pr_ch p) < pr_cap p then Some (p\<lparr>pr_ch := pr_ch p @ [v]\<rparr>) else None)"

definition expect_timeout :: "int \<Rightarrow> int" where
  "expect_timeout t = (if t \<le> 0 then 10 ^ 9 else t)"

definition quiet_timeout :: "int \<Rightarrow> int" where
  "quiet_timeout t = (if t \<le> 0 then 50 * 10 ^ 6 else t)"

text \<open>What \<open>select\<close> takes: a message that is there, or the first that another goroutine puts in time.
  Arrivals are pairs of the time since the call and the message.\<close>

definition probe_select :: "int \<Rightarrow> (int \<times> 'v) option \<Rightarrow> 'v probe \<Rightarrow> 'v option \<times> 'v probe" where
  "probe_select limit arrival p =
     (case pr_ch p of
        v # vs \<Rightarrow> (Some v, p\<lparr>pr_ch := vs\<rparr>)
      | [] \<Rightarrow> (case arrival of
          Some (t, v) \<Rightarrow> if t < limit then (Some v, p) else (None, p)
        | None \<Rightarrow> (None, p)))"

definition probe_expect :: "int \<Rightarrow> (int \<times> 'v) option \<Rightarrow> 'v probe \<Rightarrow> 'v option \<times> 'v probe" where
  "probe_expect timeout arrival p =
     (case probe_select (expect_timeout timeout) arrival p of
        (Some v, p') \<Rightarrow> (Some v, p')
      | (None, p') \<Rightarrow> (None, p'\<lparr>pr_failed := pr_failed p' @ [TimeoutWaiting]\<rparr>))"

definition probe_expect_no_message :: "int \<Rightarrow> (int \<times> 'v) option \<Rightarrow> 'v probe \<Rightarrow> 'v probe" where
  "probe_expect_no_message timeout arrival p =
     (case probe_select (quiet_timeout timeout) arrival p of
        (Some v, p') \<Rightarrow> p'\<lparr>pr_failed := pr_failed p' @ [UnexpectedMessage v]\<rparr>
      | (None, p') \<Rightarrow> p')"

subsection \<open>The fault injector\<close>

text \<open>Floating-point numbers are rationals (not-a-number is left out); comparing them is exact. The
  draws of the generator are arguments. The result is the state after the function, or before
  it when it was not called, the time slept and the answer.\<close>

record chaos =
  drop_probability :: rat
  max_delay :: int

definition chaos_apply :: "rat \<Rightarrow> (int \<Rightarrow> int) \<Rightarrow> chaos \<Rightarrow> ('s \<Rightarrow> 's) \<Rightarrow> 's \<Rightarrow> 's \<times> int \<times> bool" where
  "chaos_apply float64 int63n c fn s =
     (if 0 < drop_probability c \<and> float64 < drop_probability c then (s, 0, False)
      else (fn s, if 0 < max_delay c then int63n (max_delay c) else 0, True))"

subsection \<open>Lemmas on timers\<close>

lemma split_due_filter:
  "split_due now ts = (filter (\<lambda>t. now < ft_at t) ts, filter (\<lambda>t. \<not> now < ft_at t) ts)"
  by (induction ts) simp_all

text \<open>Every timer in the list has a channel of its own, still empty and open.\<close>

definition clock_inv :: "fake_clock \<Rightarrow> bool" where
  "clock_inv c \<longleftrightarrow> distinct (map ft_ch (clk_tmrs c)) \<and>
     (\<forall>t \<in> set (clk_tmrs c). ft_ch t < length (clk_chans c) \<and>
        clk_chans c ! ft_ch t = \<lparr>tc_buf = None, tc_closed = False\<rparr>)"

lemma new_fake_clock_inv: "clock_inv (new_fake_clock start)"
  by (simp add: clock_inv_def new_fake_clock_def)

lemma clock_after_inv:
  assumes "clock_inv c" and "clock_after d c = (c', ch)"
  shows "clock_inv c'"
  using assms by (force simp: clock_inv_def clock_after_def Let_def nth_append)

text \<open>Firing the due timers never panics and marks exactly their channels.\<close>

lemma fire_all_spec:
  assumes "distinct (map ft_ch ts)"
    and "\<forall>t \<in> set ts. ft_ch t < length chs \<and> chs ! ft_ch t = \<lparr>tc_buf = None, tc_closed = False\<rparr>"
  shows "\<exists>chs'. fire_all now ts chs = Some chs' \<and> length chs' = length chs \<and>
    (\<forall>i. chs' ! i = (if i \<in> ft_ch ` set ts then \<lparr>tc_buf = Some now, tc_closed = True\<rparr> else chs ! i))"
  using assms
proof (induction ts arbitrary: chs)
  case (Cons t ts)
  let ?chs = "chs[ft_ch t := \<lparr>tc_buf = Some now, tc_closed = True\<rparr>]"
  have f: "fire_timer now t chs = Some ?chs"
    using Cons.prems(2) by (simp add: fire_timer_def)
  have "\<forall>u \<in> set ts. ft_ch u < length ?chs \<and> ?chs ! ft_ch u = \<lparr>tc_buf = None, tc_closed = False\<rparr>"
    using Cons.prems by (auto simp: nth_list_update)
  from Cons.IH [OF _ this] Cons.prems(1) obtain chs' where
    "fire_all now ts ?chs = Some chs'" "length chs' = length chs"
    "\<forall>i. chs' ! i = (if i \<in> ft_ch ` set ts then \<lparr>tc_buf = Some now, tc_closed = True\<rparr> else ?chs ! i)"
    by auto
  then show ?case
    using Cons.prems(2) by (auto simp: f nth_list_update)
qed simp

lemma clock_advance_spec:
  assumes "clock_inv c"
  obtains c' where "clock_advance d c = Some c'" "clock_inv c'" "clk_now c' = clk_now c + d"
    "clk_tmrs c' = filter (\<lambda>t. clk_now c + d < ft_at t) (clk_tmrs c)" "length (clk_chans c') = length (clk_chans c)"
    "\<And>i. clk_chans c' ! i = (if \<exists>t \<in> set (clk_tmrs c). ft_ch t = i \<and> ft_at t \<le> clk_now c + d
       then \<lparr>tc_buf = Some (clk_now c + d), tc_closed = True\<rparr> else clk_chans c ! i)"
proof -
  let ?fire = "filter (\<lambda>t. \<not> clk_now c + d < ft_at t) (clk_tmrs c)"
  have dist: "distinct (map ft_ch (clk_tmrs c))" using assms by (simp add: clock_inv_def)
  obtain chs' where f: "fire_all (clk_now c + d) ?fire (clk_chans c) = Some chs'" "length chs' = length (clk_chans c)"
    "\<forall>i. chs' ! i = (if i \<in> ft_ch ` set ?fire then \<lparr>tc_buf = Some (clk_now c + d), tc_closed = True\<rparr> else clk_chans c ! i)"
    using fire_all_spec [of ?fire "clk_chans c" "clk_now c + d"] assms
    by (auto simp: clock_inv_def distinct_map_filter)
  let ?c = "\<lparr>clk_now = clk_now c + d, clk_tmrs = filter (\<lambda>t. clk_now c + d < ft_at t) (clk_tmrs c), clk_chans = chs'\<rparr>"
  have ch: "chs' ! i = (if \<exists>t \<in> set (clk_tmrs c). ft_ch t = i \<and> ft_at t \<le> clk_now c + d
       then \<lparr>tc_buf = Some (clk_now c + d), tc_closed = True\<rparr> else clk_chans c ! i)" for i
    using f(3) by (auto simp: not_less)
  have "chs' ! ft_ch t = clk_chans c ! ft_ch t" if "t \<in> set (clk_tmrs c)" "clk_now c + d < ft_at t" for t
    using that dist unfolding ch by (auto simp: distinct_map inj_on_def)
  then have "clock_inv ?c"
    using assms f(2) by (auto simp: clock_inv_def distinct_map_filter)
  then show thesis
    using f(1,2) ch by (intro that [of ?c]) (simp_all add: clock_advance_def split_due_filter Let_def)
qed

subsection \<open>Histories of a clock\<close>

datatype clock_op = After int | Advance int

fun clock_run :: "clock_op list \<Rightarrow> fake_clock \<Rightarrow> fake_clock option" where
  "clock_run [] c = Some c"
| "clock_run (After d # os) c = clock_run os (fst (clock_after d c))"
| "clock_run (Advance d # os) c = Option.bind (clock_advance d c) (clock_run os)"

text \<open>The first time at or after \<open>due\<close> at which the clock stands when it is advanced.\<close>

fun first_reach :: "int \<Rightarrow> int \<Rightarrow> clock_op list \<Rightarrow> int option" where
  "first_reach due now [] = None"
| "first_reach due now (After d # os) = first_reach due now os"
| "first_reach due now (Advance d # os) =
     (if due \<le> now + d then Some (now + d) else first_reach due (now + d) os)"

lemma clock_run_other:
  assumes "clock_inv c" and "i < length (clk_chans c)" and "\<forall>t \<in> set (clk_tmrs c). ft_ch t \<noteq> i"
  shows "\<exists>c'. clock_run os c = Some c' \<and> clock_inv c' \<and> clk_chans c' ! i = clk_chans c ! i"
  using assms
proof (induction os c rule: clock_run.induct)
  case (2 d os c)
  let ?c = "fst (clock_after d c)"
  have "clock_inv ?c" by (rule clock_after_inv [OF "2.prems"(1)]) (rule surjective_pairing)
  moreover have "i < length (clk_chans ?c)" "\<forall>t \<in> set (clk_tmrs ?c). ft_ch t \<noteq> i" "clk_chans ?c ! i = clk_chans c ! i"
    using "2.prems" by (auto simp: clock_after_def Let_def nth_append)
  ultimately show ?case using "2.IH" by simp
next
  case (3 d os c)
  obtain c1 where "clock_advance d c = Some c1" "clock_inv c1" "clk_tmrs c1 = filter (\<lambda>t. clk_now c + d < ft_at t) (clk_tmrs c)"
      "length (clk_chans c1) = length (clk_chans c)" "clk_chans c1 ! i = clk_chans c ! i"
    using clock_advance_spec [OF "3.prems"(1), of d] "3.prems"(3) by (metis (no_types, lifting))
  then show ?case using "3.IH" "3.prems" by simp
qed simp

text \<open>A timer fires once: its channel gets the time of the first \<open>Advance\<close> that reaches its due
  time, and is closed then; before that it is empty and open. No call panics.\<close>

theorem clock_timer_pending:
  assumes "clock_inv c" and "t \<in> set (clk_tmrs c)"
  shows "\<exists>c'. clock_run os c = Some c' \<and> clock_inv c' \<and>
    clk_chans c' ! ft_ch t = (case first_reach (ft_at t) (clk_now c) os of
      None \<Rightarrow> \<lparr>tc_buf = None, tc_closed = False\<rparr>
    | Some now \<Rightarrow> \<lparr>tc_buf = Some now, tc_closed = True\<rparr>)"
  using assms
proof (induction os c rule: clock_run.induct)
  case (1 c)
  then show ?case by (simp add: clock_inv_def)
next
  case (2 d os c)
  let ?c = "fst (clock_after d c)"
  have "clock_inv ?c" by (rule clock_after_inv [OF "2.prems"(1)]) (rule surjective_pairing)
  moreover have "t \<in> set (clk_tmrs ?c)" "clk_now ?c = clk_now c"
    using "2.prems" by (auto simp: clock_after_def Let_def)
  ultimately show ?case using "2.IH" by simp
next
  case (3 d os c)
  obtain c1 where c1: "clock_advance d c = Some c1" "clock_inv c1" "clk_now c1 = clk_now c + d"
      "clk_tmrs c1 = filter (\<lambda>t. clk_now c + d < ft_at t) (clk_tmrs c)" "length (clk_chans c1) = length (clk_chans c)"
    and ch: "\<And>i. clk_chans c1 ! i = (if \<exists>t \<in> set (clk_tmrs c). ft_ch t = i \<and> ft_at t \<le> clk_now c + d
       then \<lparr>tc_buf = Some (clk_now c + d), tc_closed = True\<rparr> else clk_chans c ! i)"
    using clock_advance_spec [OF "3.prems"(1), of d] by blast
  show ?case
  proof (cases "ft_at t \<le> clk_now c + d")
    case True
    have "\<forall>u \<in> set (clk_tmrs c1). ft_ch u \<noteq> ft_ch t"
      using True "3.prems" c1(4) by (auto simp: clock_inv_def distinct_map inj_on_def)
    moreover have "ft_ch t < length (clk_chans c1)"
      using "3.prems" c1(5) by (simp add: clock_inv_def)
    ultimately obtain c' where "clock_run os c1 = Some c'" "clock_inv c'" "clk_chans c' ! ft_ch t = clk_chans c1 ! ft_ch t"
      using clock_run_other [OF c1(2)] by blast
    then show ?thesis using True "3.prems"(2) c1(1) ch by auto
  next
    case False
    then have "t \<in> set (clk_tmrs c1)" using c1(4) "3.prems"(2) by simp
    then show ?thesis using "3.IH" c1(1,2,3) False by simp
  qed
qed

corollary clock_after_fires:
  assumes "clock_inv c" and "clock_after d c = (c1, ch)"
  shows "\<exists>c'. clock_run os c1 = Some c' \<and> clk_chans c' ! ch = (case first_reach (clk_now c + d) (clk_now c) os of
      None \<Rightarrow> \<lparr>tc_buf = None, tc_closed = False\<rparr>
    | Some now \<Rightarrow> \<lparr>tc_buf = Some now, tc_closed = True\<rparr>)"
proof -
  have "\<lparr>ft_at = clk_now c + d, ft_ch = ch\<rparr> \<in> set (clk_tmrs c1)" "clk_now c1 = clk_now c"
    using assms(2) by (auto simp: clock_after_def Let_def)
  then show ?thesis using clock_timer_pending [OF clock_after_inv [OF assms]] by force
qed

subsection \<open>The probe and the fault injector\<close>

fun probe_puts :: "'v list \<Rightarrow> 'v probe \<Rightarrow> 'v probe option" where
  "probe_puts [] p = Some p"
| "probe_puts (v # vs) p = Option.bind (probe_put v p) (probe_puts vs)"

fun probe_expects :: "nat \<Rightarrow> 'v probe \<Rightarrow> 'v list \<times> 'v probe" where
  "probe_expects 0 p = ([], p)"
| "probe_expects (Suc n) p =
     (case probe_expect 0 None p of
        (Some v, p') \<Rightarrow> (case probe_expects n p' of (vs, p'') \<Rightarrow> (v # vs, p''))
      | (None, p') \<Rightarrow> ([], p'))"

lemma probe_puts_spec:
  "probe_puts vs p = (if vs = [] \<or> length (pr_ch p) + length vs \<le> pr_cap p then Some (p\<lparr>pr_ch := pr_ch p @ vs\<rparr>) else None)"
  by (induction vs arbitrary: p) (auto simp: probe_put_def)

lemma probe_expects_spec:
  "n \<le> length (pr_ch p) \<Longrightarrow> probe_expects n p = (take n (pr_ch p), p\<lparr>pr_ch := drop n (pr_ch p)\<rparr>)"
proof (induction n arbitrary: p)
  case (Suc n)
  then show ?case by (cases "pr_ch p") (simp_all add: probe_expect_def probe_select_def)
qed simp

text \<open>What is put into a new probe is what its \<open>Expect\<close> calls return, in order, and after that a
  silent probe passes \<open>ExpectNoMessage\<close> and fails \<open>Expect\<close>.\<close>

theorem probe_roundtrip:
  assumes "probe_puts vs (new_probe buffer) = Some p"
  shows "probe_expects (length vs) p = (vs, new_probe buffer)"
    and "probe_expect_no_message timeout None (new_probe buffer) = new_probe buffer"
    and "probe_expect timeout None (new_probe buffer) = (None, (new_probe buffer)\<lparr>pr_failed := [TimeoutWaiting]\<rparr>)"
proof -
  have "pr_ch p = vs" "p\<lparr>pr_ch := []\<rparr> = new_probe buffer"
    using assms by (auto simp: probe_puts_spec new_probe_def split: if_splits)
  then show "probe_expects (length vs) p = (vs, new_probe buffer)"
    by (simp add: probe_expects_spec)
qed (simp_all add: probe_expect_no_message_def probe_expect_def probe_select_def new_probe_def)

text \<open>With a draw below one and delays below the bound: probability one drops every call, probability
  zero none, and an executed call is delayed by less than the maximum.\<close>

lemma chaos_apply_spec:
  assumes "0 \<le> float64" and "float64 < 1" and "\<And>n. 0 < n \<Longrightarrow> 0 \<le> int63n n \<and> int63n n < n"
    and "chaos_apply float64 int63n c fn s = (s', slept, ok)"
  shows "s' = (if ok then fn s else s)" and "1 \<le> drop_probability c \<Longrightarrow> \<not> ok"
    and "drop_probability c \<le> 0 \<Longrightarrow> ok" and "0 \<le> slept" and "0 < max_delay c \<Longrightarrow> slept < max_delay c"
  using assms by (auto simp: chaos_apply_def split: if_splits)

end
