(* ===== verification/Spec2Isabelle.thy ===== *)
theory Spec2Isabelle
  imports RingConc SegmentedConc MailboxConc BreakerConc RateLimitConc RemoteConc MetricsPage Asking Codec Soundness Supervision Testkit
begin

text \<open>
  \<^bold>\<open>The program.\<close> DeqinActor is an actor runtime in Go. An actor (\<open>src/actor/base_actor.go\<close>) owns a
  mailbox and a goroutine that takes one message after the other and calls the user's handler.
  The mailbox (\<open>src/mailbox/\<close>) has an urgent and a normal lane; a lane is a queue of linked
  segments, a segment is a lock-free ring buffer. A system (\<open>src/actor/system.go\<close>) holds the
  registry of actors, the table of pending requests, one circuit breaker per target, the wait
  tokens, the limiter, the metrics, and the locations of remote actors; \<open>Tell\<close>, \<open>SendAsync\<close>
  and \<open>Ask\<close> (\<open>src/actor/ask.go\<close>) route messages through it, to a mailbox, to another node
  (\<open>src/actor/remote.go\<close>) or to a direct call. A response completes the future of its request
  (\<open>src/actor/future.go\<close>). Messages told with the persist option go to a write-ahead log
  (\<open>src/persistence/wal.go\<close>), which the start of an actor replays. A supervisor
  (\<open>src/actor/supervisor.go\<close>) restarts children whose handler panicked.

  \<^bold>\<open>The theories\<close>, each with the source it models and what its lemmas show:

  \<^item> \<open>Prelude\<close>: Go's integers (words for the unsigned ones, \<open>wrap64\<close> on \<open>int\<close> for \<open>int64\<close> and
    \<open>time.Duration\<close>), saturating time differences, arithmetic of masks and counters.
  \<^item> \<open>Transition\<close>: reachable states, invariants of step relations as locales, schedules.
  \<^item> \<open>Queues\<close>: the contract of a bounded queue as a locale, histories of calls, and what follows
    from the contract: nothing is lost, invented or reordered.
  \<^item> \<open>Ring\<close> (\<open>mailbox/ring.go\<close>): \<open>NewRing\<close>, \<open>Enqueue\<close>, \<open>Dequeue\<close> as functions on the record of the
    struct; the ring refines the bounded queue, across wrap-around of the 64-bit counters.
  \<^item> \<open>RingConc\<close>: the same operations with every atomic access one step of any number of
    goroutines; first in first out and no duplication under every interleaving.
  \<^item> \<open>Segmented\<close>, \<open>SegmentedConc\<close> (\<open>mailbox/segmented.go\<close>): the queue of segments over a store of
    addresses; it refines the bounded queue when called one after the other. \<open>SegmentedConc\<close> cuts it
    into its atomic accesses, those of the ring calls inside included: under every interleaving
    nothing is invented or handed out twice and a queue of one segment is first in first out;
    with several segments a consumer that overlaps a producer loses values.
  \<^item> \<open>Mailbox\<close>, \<open>MailboxConc\<close> (\<open>mailbox/mailbox.go\<close>): \<open>Push\<close> under every policy, \<open>Pop\<close>, \<open>Close\<close>,
    \<open>Wait\<close>; refinement of two lists; no lost wake-up between senders and the actor's loop.
  \<^item> \<open>WAL\<close> (\<open>persistence/wal.go\<close>): framing, \<open>Append\<close>, \<open>Replay\<close>, torn writes; the contract of a
    record log as a locale, interpreted by the log.
  \<^item> \<open>Breaker\<close>, \<open>RateLimit\<close>, \<open>Registry\<close>, \<open>Ids\<close>, \<open>Metrics\<close>, \<open>Future\<close>, \<open>Supervisor\<close>: one theory per file of
    the same name under \<open>actor/\<close> (\<open>id.go\<close> is \<open>Ids\<close>).
  \<^item> \<open>BreakerConc\<close>, \<open>RateLimitConc\<close>: the breaker and the token bucket with every atomic access one
    step. Two probes can get through a half-open breaker, but it is never wedged; the limit of the
    bucket holds under every interleaving.
  \<^item> \<open>RemoteConc\<close> (\<open>remote.go\<close>): \<open>EnableRemote\<close>, \<open>StopRemote\<close> and the connection pool between
    goroutines. The pool is sound while nobody calls \<open>StopRemote\<close>; beside it, a delivery panics.
  \<^item> \<open>MetricsPage\<close> (\<open>metrics.go\<close>): the page of a whole system, after any history of its metrics and
    for every order of the registry's snapshot.
  \<^item> \<open>System\<close> (\<open>types.go\<close>, \<open>envelope.go\<close>, \<open>errors.go\<close>, \<open>ref.go\<close>, \<open>system.go\<close>, \<open>remote.go\<close>): the record of
    a system with its actors, and every method that sets or routes; \<open>destination\<close> says where a
    message goes from the tables alone, and \<open>Tell\<close> is shown to do that on every branch; with two
    systems, a message told to an actor of the other node arrives there.
  \<^item> \<open>Actor\<close> (\<open>base_actor.go\<close>, \<open>context.go\<close>, \<open>ask.go\<close>, and the pending table of \<open>system.go\<close>):
    creation, start, stop, the loop and \<open>handle\<close>, \<open>SendAsync\<close>, \<open>SyncAsk\<close>, \<open>Ask\<close>; a request and its
    response end to end; what degrading does to a breaker.
  \<^item> \<open>Asking\<close> (\<open>ask.go\<close>): \<open>Ask\<close> together with the loops of the target and of the caller; an \<open>Ask\<close>
    called inside a handler cannot see its answer and reports a failure of the target.
  \<^item> \<open>Recovery\<close>: persisted messages across a crash and a new start, over the mailbox and the log.
  \<^item> \<open>Lifecycle\<close>: the runtime as a step relation, and the invariant that every request is
    complete for good or pending with a running timer.
  \<^item> \<open>Soundness\<close>: every reachable system is well-typed, and no call of the runtime panics in one.
  \<^item> \<open>Codec\<close> (\<open>codec.go\<close>, \<open>remote.go\<close>): the gob serializer, the codec of the remote calls and the
    handler of the service, around gob itself; a message through both codecs to another node, and
    why a request does not get there.
  \<^item> \<open>Shutdown\<close>: what a panic of the handler does, and that \<open>Stop\<close> returns: on a closed mailbox the
    loop ends after at most as many rounds as messages are queued, plus two.
  \<^item> \<open>Supervision\<close>: the supervisor again, over the actors of \<open>System\<close>. Each step of a restart
    goroutine is a step of the one in \<open>Supervisor\<close>, whose theorems so hold for it too; and the
    whole way from a panicking handler over the notice, \<open>Stop\<close> and the replay to the new instance.
  \<^item> \<open>Testkit\<close> (\<open>src/testkit/\<close>): the fake clock, the probe and the fault injector of the tests; a
    timer of the clock fires once, at the first \<open>Advance\<close> that reaches it.

  \<^bold>\<open>How code becomes definitions.\<close> A struct is a record, a method a function on it that returns the
  new record; pointers are addresses into lists (segments, futures, actors). A call that can
  panic or wait returns \<open>option\<close>, or \<open>outcome\<close> in \<open>System\<close> and \<open>Actor\<close>. Loops that
  may not end are \<open>partial_function (option)\<close> (\<open>NewRing\<close>, the segmented \<open>Dequeue\<close>), and that they
  return is proved; loops that wait for others take the list of what the others do between two
  attempts (\<open>Push\<close> under the blocking policy, \<open>Wait\<close> of the limiter), so no fuel is needed.
  Code under a lock is one step; lock-free code is also cut into its atomic accesses, with a
  program counter per goroutine. Code outside the repository is an argument: the handler, the
  serializer, dialling and the remote call, file-system failures, random bytes, the clock.

  \<^bold>\<open>Bounds.\<close> Counters of the rings and ids are 64-bit words. Sequential theorems about rings hold
  across wrap-around; the concurrent ones assume that the values accepted so far and the
  capacity together number fewer than \<open>2^64\<close>, and \<open>Lifecycle\<close> that the id counter does not
  wrap. Log records have fewer than \<open>2^32\<close> bytes, as their header demands.

  \<^bold>\<open>Not modelled.\<close> The encoding of gob, the gRPC server and the HTTP server belong to libraries: the
  first two are arguments of \<open>Codec\<close> and \<open>System\<close>, the last is left out. The samples
  of the metrics page are modelled with their names; the two numbers it prints as decimal seconds, whose
  text depends on floating-point formatting, stay integers of nanoseconds.
\<close>

end
